(* ===== verification/Rcpu_Prelude.thy ===== *)
theory Rcpu_Prelude
  imports Main "HOL-Library.Word" "HOL-Library.AList"
begin

text \<open>
  Shared vocabulary of the development: errors as sums, little-endian byte strings, hexadecimal
  text, and the list lemmas the component theories use.  Nothing here models a file of the
  repository; the components import it and add their lemmas to the collections below.
\<close>

named_theorems hex_simps \<open>rewriting between bytes, hexadecimal text and numbers\<close>
named_theorems le_simps \<open>little-endian byte strings and their values\<close>

type_synonym byte = "8 word"
type_synonym bytes = "byte list"

section \<open>Computations that may fail\<close>

definition ebind :: "'e + 'a \<Rightarrow> ('a \<Rightarrow> 'e + 'b) \<Rightarrow> 'e + 'b" where
  "ebind m f = (case m of Inl e \<Rightarrow> Inl e | Inr x \<Rightarrow> f x)"

lemma ebind_simps [simp]:
  "ebind (Inl e) f = Inl e"
  "ebind (Inr x) f = f x"
  by (simp_all add: ebind_def)

lemma ebind_eq_Inr [simp]: "ebind m f = Inr y \<longleftrightarrow> (\<exists>x. m = Inr x \<and> f x = Inr y)"
  by (cases m) auto

lemma ebind_eq_Inl: "ebind m f = Inl e \<longleftrightarrow> m = Inl e \<or> (\<exists>x. m = Inr x \<and> f x = Inl e)"
  by (cases m) auto

section \<open>Little-endian byte strings\<close>

fun le_bytes :: "nat \<Rightarrow> nat \<Rightarrow> bytes" where
  "le_bytes 0 v = []"
| "le_bytes (Suc n) v = word_of_nat v # le_bytes n (v div 256)"

fun le_val :: "bytes \<Rightarrow> nat" where
  "le_val [] = 0"
| "le_val (b # bs) = unat b + 256 * le_val bs"

definition be_bytes :: "nat \<Rightarrow> nat \<Rightarrow> bytes" where
  "be_bytes n v = rev (le_bytes n v)"

lemma le_bytes_numeral:
  "le_bytes (numeral k) v = word_of_nat v # le_bytes (pred_numeral k) (v div 256)"
  unfolding numeral_eq_Suc [of k] by (rule le_bytes.simps)

lemma length_le_bytes [simp]: "length (le_bytes n v) = n"
  by (induction n arbitrary: v) simp_all

lemma length_be_bytes [simp]: "length (be_bytes n v) = n"
  by (simp add: be_bytes_def)

lemma unat_word_of_nat_byte [simp]: "unat (word_of_nat v :: byte) = v mod 256"
  by (simp add: unat_of_nat)

lemma le_val_le_bytes [le_simps]: "le_val (le_bytes n v) = v mod 256 ^ n"
proof (induction n arbitrary: v)
  case (Suc n)
  have "v mod (256 * 256 ^ n) = 256 * (v div 256 mod 256 ^ n) + v mod 256"
    by (rule mod_mult2_eq)
  with Suc show ?case by simp
qed simp

lemma le_val_bound [le_simps]: "le_val bs < 256 ^ length bs"
proof (induction bs)
  case (Cons b bs)
  have "unat b < 256" using unsigned_less [of b] by simp
  with Cons show ?case by simp
qed simp

lemma le_bytes_le_val [le_simps]: "le_bytes (length bs) (le_val bs) = bs"
proof (induction bs)
  case (Cons b bs)
  have b: "unat b < 256" using unsigned_less [of b] by simp
  then have "(unat b + 256 * le_val bs) div 256 = le_val bs" by simp
  moreover have "word_of_nat (unat b + 256 * le_val bs) = b"
  proof -
    have "word_of_nat (256 * le_val bs) = (0 :: byte)"
      using word_of_nat_eq_0_iff [where 'a = 8, of "256 * le_val bs"] by simp
    then show ?thesis by simp
  qed
  ultimately show ?case using Cons by simp
qed simp

lemma le_val_inj: "length as = length bs \<Longrightarrow> le_val as = le_val bs \<Longrightarrow> as = bs"
  by (metis le_bytes_le_val)

lemma le_val_append [le_simps]: "le_val (as @ bs) = le_val as + 256 ^ length as * le_val bs"
  by (induction as) (simp_all add: algebra_simps)

lemma le_bytes_mod [simp]: "le_bytes n (v mod 256 ^ n) = le_bytes n v"
proof -
  have "le_val (le_bytes n (v mod 256 ^ n)) = le_val (le_bytes n v)"
    by (simp add: le_val_le_bytes)
  then show ?thesis by (intro le_val_inj) simp_all
qed

lemma le_val_replicate_0 [simp]: "le_val (replicate n 0) = 0"
  by (induction n) simp_all

section \<open>Hexadecimal text\<close>

definition hex_digits :: string where
  "hex_digits = ''0123456789abcdef''"

definition hex_digit :: "nat \<Rightarrow> char" where
  "hex_digit n = hex_digits ! (n mod 16)"

text \<open>The value of a hexadecimal digit of either case, and None for any other character.\<close>

definition unhex :: "char \<Rightarrow> nat option" where
  "unhex c = (let k = of_char c :: nat in
     if 48 \<le> k \<and> k \<le> 57 then Some (k - 48)
     else if 97 \<le> k \<and> k \<le> 102 then Some (k - 87)
     else if 65 \<le> k \<and> k \<le> 70 then Some (k - 55)
     else None)"

definition is_hex :: "char \<Rightarrow> bool" where
  "is_hex c \<longleftrightarrow> unhex c \<noteq> None"

text \<open>The number a hexadecimal text denotes, most significant digit first.\<close>

definition hex_nat :: "string \<Rightarrow> nat" where
  "hex_nat s = foldl (\<lambda>a c. 16 * a + the (unhex c)) 0 s"

definition hex_of_byte :: "byte \<Rightarrow> string" where
  "hex_of_byte b = [hex_digit (unat b div 16), hex_digit (unat b mod 16)]"

definition hexstr :: "bytes \<Rightarrow> string" where
  "hexstr bs = concat (map hex_of_byte bs)"

lemma lt16_cases:
  assumes "n < (16 :: nat)"
  shows "n \<in> {0, 1, 2, 3, 4, 5, 6, 7, 8, 9, 10, 11, 12, 13, 14, 15}"
  using assms by (simp only: insert_iff empty_iff) arith

lemma unhex_hex_digit_lt: "n < 16 \<Longrightarrow> unhex (hex_digit n) = Some n"
  by (drule lt16_cases, elim insertE emptyE)
    (simp_all add: hex_digit_def hex_digits_def unhex_def)

lemma unhex_hex_digit [simp, hex_simps]: "unhex (hex_digit n) = Some (n mod 16)"
proof -
  have "hex_digit n = hex_digit (n mod 16)" by (simp add: hex_digit_def)
  then show ?thesis by (simp add: unhex_hex_digit_lt)
qed

lemma is_hex_hex_digit [simp]: "is_hex (hex_digit n)"
  by (simp add: is_hex_def)

lemma unhex_bound: "unhex c = Some n \<Longrightarrow> n < 16"
  by (auto simp: unhex_def Let_def split: if_splits)

lemma length_hex_of_byte [simp]: "length (hex_of_byte b) = 2"
  by (simp add: hex_of_byte_def)

lemma hexstr_Nil [simp]: "hexstr [] = []"
  by (simp add: hexstr_def)

lemma hexstr_Cons [hex_simps]: "hexstr (b # bs) = hex_of_byte b @ hexstr bs"
  by (simp add: hexstr_def)

lemma hexstr_append [hex_simps]: "hexstr (as @ bs) = hexstr as @ hexstr bs"
  by (simp add: hexstr_def)

lemma length_hexstr [simp]: "length (hexstr bs) = 2 * length bs"
  by (induction bs) (simp_all add: hexstr_Cons)

lemma is_hex_hexstr [simp]: "list_all is_hex (hexstr bs)"
  by (induction bs) (simp_all add: hexstr_Cons hex_of_byte_def)

lemma hex_nat_Nil [simp]: "hex_nat [] = 0"
  by (simp add: hex_nat_def)

lemma hex_nat_snoc [hex_simps]: "hex_nat (s @ [c]) = 16 * hex_nat s + the (unhex c)"
  by (simp add: hex_nat_def)

lemma hex_nat_append [hex_simps]: "hex_nat (s @ t) = 16 ^ length t * hex_nat s + hex_nat t"
proof (induction t rule: rev_induct)
  case (snoc c t)
  then show ?case
    by (simp add: hex_nat_snoc append_assoc [symmetric] algebra_simps del: append_assoc)
qed simp

lemma hex_nat_hex_of_byte [simp, hex_simps]: "hex_nat (hex_of_byte b) = unat b"
proof -
  have "unat b < 256" using unsigned_less [of b] by simp
  then have "unat b div 16 mod 16 = unat b div 16" by simp
  then show ?thesis by (simp add: hex_of_byte_def hex_nat_def)
qed

text \<open>Reading the hexadecimal text of a byte string gives its big-endian value.\<close>

lemma hex_nat_hexstr [hex_simps]: "hex_nat (hexstr bs) = le_val (rev bs)"
proof (induction bs rule: rev_induct)
  case (snoc b bs)
  then show ?case by (simp add: hexstr_append hexstr_Cons hex_nat_append)
qed simp

lemma hex_nat_bound: "list_all is_hex s \<Longrightarrow> hex_nat s < 16 ^ length s"
proof (induction s rule: rev_induct)
  case (snoc c s)
  from snoc.prems obtain d where "unhex c = Some d" "d < 16"
    by (auto simp: is_hex_def dest: unhex_bound)
  with snoc show ?case by (simp add: hex_nat_snoc)
qed simp

lemma hex_of_byte_inj: "hex_of_byte a = hex_of_byte b \<Longrightarrow> a = b"
  by (metis hex_nat_hex_of_byte word_unat_eq_iff)

lemma hexstr_inj: "hexstr as = hexstr bs \<Longrightarrow> as = bs"
proof (induction as arbitrary: bs)
  case Nil
  then have "length (hexstr bs) = 0" by simp
  then show ?case by simp
next
  case (Cons a as)
  from arg_cong [OF Cons.prems, of length] obtain b bs' where bs: "bs = b # bs'"
    by (cases bs) simp_all
  with Cons.prems have "hex_of_byte a = hex_of_byte b" "hexstr as = hexstr bs'"
    by (simp_all add: hexstr_Cons)
  with Cons.IH bs show ?case by (simp add: hex_of_byte_inj)
qed

section \<open>Lists\<close>

lemma length_filter_mono:
  "(\<And>x. x \<in> set xs \<Longrightarrow> P x \<Longrightarrow> Q x) \<Longrightarrow> length (filter P xs) \<le> length (filter Q xs)"
  by (induction xs) (auto simp: le_SucI)

section \<open>The bit length of a number\<close>

fun bit_len :: "nat \<Rightarrow> nat" where
  "bit_len n = (if n = 0 then 0 else Suc (bit_len (n div 2)))"

declare bit_len.simps [simp del]

lemma bit_len_pos: "0 < n \<Longrightarrow> 0 < bit_len n"
  by (subst bit_len.simps) simp

lemma bit_len_bounds: "0 < n \<Longrightarrow> 2 ^ (bit_len n - 1) \<le> n \<and> n < 2 ^ bit_len n"
proof (induction n rule: bit_len.induct)
  case (1 n)
  show ?case
  proof (cases "n = 1")
    case True
    then show ?thesis by (simp add: bit_len.simps [of "Suc 0"] bit_len.simps [of 0])
  next
    case False
    with 1(2) have h: "0 < n div 2" by simp
    with 1 have IH: "2 ^ (bit_len (n div 2) - 1) \<le> n div 2" "n div 2 < 2 ^ bit_len (n div 2)" by auto
    from h have b: "bit_len (n div 2) = Suc (bit_len (n div 2) - 1)" using bit_len_pos by simp
    have "bit_len n = Suc (bit_len (n div 2))" using 1(2) by (subst bit_len.simps) simp
    moreover have "(2 :: nat) ^ bit_len (n div 2) = 2 * 2 ^ (bit_len (n div 2) - 1)"
      by (subst b) simp
    ultimately show ?thesis using IH by simp arith
  qed
qed

end
