(* ===== verification/Js_Core.thy ===== *)
theory Js_Core
  imports Rcpu_Prelude
begin

text \<open>
  The part of JavaScript and of its standard library that \<open>contrib/admin/*.js\<close> uses: the values
  JSON.parse yields, truthiness, property access, string conversion, JSON.stringify, decimal and
  hexadecimal rendering, and the exceptions the scripts can raise.

  A string is a list of code units; the model covers the code units below 256.  A number is an
  integer: no operation of the scripts makes a fraction of a value it later uses, except the
  difficulty that \<open>Number()\<close> rounds to a double, and that rounding is written out.
\<close>

section \<open>Values and exceptions\<close>

datatype js_error = TypeError | RangeError | SyntaxError

datatype jsval =
    JUndef
  | JNull
  | JBool bool
  | JNum int
  | JStr string
  | JArr "jsval list"
  | JObj "(string \<times> jsval) list"

fun truthy :: "jsval \<Rightarrow> bool" where
  "truthy JUndef = False"
| "truthy JNull = False"
| "truthy (JBool b) = b"
| "truthy (JNum n) = (n \<noteq> 0)"
| "truthy (JStr s) = (s \<noteq> [])"
| "truthy (JArr _) = True"
| "truthy (JObj _) = True"

text \<open>\<open>a || b\<close>\<close>

definition js_or :: "jsval \<Rightarrow> jsval \<Rightarrow> jsval" where
  "js_or a b = (if truthy a then a else b)"

text \<open>
  \<open>v.key\<close> for a key that no built-in prototype defines: a TypeError on null and undefined,
  the own property of an object, and undefined otherwise.
\<close>

fun jget :: "jsval \<Rightarrow> string \<Rightarrow> js_error + jsval" where
  "jget JUndef k = Inl TypeError"
| "jget JNull k = Inl TypeError"
| "jget (JObj m) k = Inr (case map_of m k of None \<Rightarrow> JUndef | Some v \<Rightarrow> v)"
| "jget _ k = Inr JUndef"

section \<open>Rendering numbers\<close>

fun dec_nat :: "nat \<Rightarrow> string" where
  "dec_nat n = (if n < 10 then [hex_digit n] else dec_nat (n div 10) @ [hex_digit (n mod 10)])"

declare dec_nat.simps [simp del]

definition dec_int :: "int \<Rightarrow> string" where
  "dec_int i = (if i < 0 then ''-'' @ dec_nat (nat (- i)) else dec_nat (nat i))"

text \<open>\<open>v[i]\<close> for a literal index.\<close>

fun jidx :: "jsval \<Rightarrow> nat \<Rightarrow> js_error + jsval" where
  "jidx JUndef i = Inl TypeError"
| "jidx JNull i = Inl TypeError"
| "jidx (JArr vs) i = Inr (if i < length vs then vs ! i else JUndef)"
| "jidx (JStr s) i = Inr (if i < length s then JStr [s ! i] else JUndef)"
| "jidx (JObj m) i = Inr (case map_of m (dec_nat i) of None \<Rightarrow> JUndef | Some v \<Rightarrow> v)"
| "jidx _ i = Inr JUndef"

text \<open>\<open>n.toString(16)\<close>\<close>

fun hex_of_nat :: "nat \<Rightarrow> string" where
  "hex_of_nat n = (if n < 16 then [hex_digit n] else hex_of_nat (n div 16) @ [hex_digit (n mod 16)])"

declare hex_of_nat.simps [simp del]

text \<open>\<open>s.padStart(n, '0')\<close>\<close>

definition padStart :: "nat \<Rightarrow> string \<Rightarrow> string" where
  "padStart n s = replicate (n - length s) CHR ''0'' @ s"

text \<open>\<open>s.substring(a, b)\<close> for \<open>a \<le> b\<close>\<close>

definition js_substring :: "nat \<Rightarrow> nat \<Rightarrow> string \<Rightarrow> string" where
  "js_substring a b s = take (b - a) (drop a s)"

text \<open>\<open>s.toLowerCase()\<close> on ASCII text\<close>

definition lower_char :: "char \<Rightarrow> char" where
  "lower_char c = (let k = of_char c :: nat in
     if 65 \<le> k \<and> k \<le> 90 then char_of (k + 32) else c)"

definition js_lower :: "string \<Rightarrow> string" where
  "js_lower s = map lower_char s"

section \<open>String conversion\<close>

fun js_join :: "string \<Rightarrow> string list \<Rightarrow> string" where
  "js_join sep [] = []"
| "js_join sep [s] = s"
| "js_join sep (s # t # ss) = s @ sep @ js_join sep (t # ss)"

fun esum :: "('e + 'a) list \<Rightarrow> 'e + 'a list" where
  "esum [] = Inr []"
| "esum (x # xs) = ebind x (\<lambda>y. ebind (esum xs) (\<lambda>ys. Inr (y # ys)))"

text \<open>
  ToString, as template literals, \<open>RegExp.test\<close> and \<open>parseInt\<close> apply it.  An object with an own
  (hence not callable) toString property has no primitive value: a TypeError.
\<close>

fun js_ToString :: "jsval \<Rightarrow> js_error + string" where
  "js_ToString JUndef = Inr ''undefined''"
| "js_ToString JNull = Inr ''null''"
| "js_ToString (JBool b) = Inr (if b then ''true'' else ''false'')"
| "js_ToString (JNum n) = Inr (dec_int n)"
| "js_ToString (JStr s) = Inr s"
| "js_ToString (JArr vs) = ebind
     (esum (map (\<lambda>v. if v = JUndef \<or> v = JNull then Inr [] else js_ToString v) vs))
     (\<lambda>ss. Inr (js_join '','' ss))"
| "js_ToString (JObj m) =
     (if map_of m ''toString'' = None then Inr ''[object Object]'' else Inl TypeError)"

section \<open>JSON.stringify\<close>

definition json_char :: "char \<Rightarrow> string" where
  "json_char c = (let k = of_char c :: nat in
     if k = 34 then [CHR 0x5C, CHR 0x22]
     else if k = 92 then [CHR 0x5C, CHR 0x5C]
     else if k = 8 then [CHR 0x5C, CHR ''b'']
     else if k = 9 then [CHR 0x5C, CHR ''t'']
     else if k = 10 then [CHR 0x5C, CHR ''n'']
     else if k = 12 then [CHR 0x5C, CHR ''f'']
     else if k = 13 then [CHR 0x5C, CHR ''r'']
     else if k < 32 then [CHR 0x5C, CHR ''u''] @ padStart 4 (hex_of_nat k)
     else [c])"

definition json_string :: "string \<Rightarrow> string" where
  "json_string s = [CHR 0x22] @ concat (map json_char s) @ [CHR 0x22]"

text \<open>Members whose value is undefined are left out of an object and are null in an array.\<close>

fun stringify :: "jsval \<Rightarrow> string" where
  "stringify JUndef = ''null''"
| "stringify JNull = ''null''"
| "stringify (JBool b) = (if b then ''true'' else ''false'')"
| "stringify (JNum n) = dec_int n"
| "stringify (JStr s) = json_string s"
| "stringify (JArr vs) = ''['' @ js_join '','' (map stringify vs) @ '']''"
| "stringify (JObj m) = ''{'' @ js_join '',''
     (map (\<lambda>(k, v). json_string k @ '':'' @ stringify v) (filter (\<lambda>(k, v). v \<noteq> JUndef) m)) @ ''}''"

text \<open>\<open>Buffer.byteLength(s)\<close>: the UTF-8 length of a string of code units below 256.\<close>

definition byteLength :: "string \<Rightarrow> nat" where
  "byteLength s = sum_list (map (\<lambda>c. if of_char c < (128 :: nat) then 1 else 2) s)"

section \<open>BigInt and Number\<close>

text \<open>\<open>BigInt('0x' + s)\<close>\<close>

definition js_BigInt_hex :: "string \<Rightarrow> js_error + nat" where
  "js_BigInt_hex s = (if s \<noteq> [] \<and> list_all is_hex s then Inr (hex_nat s) else Inl SyntaxError)"

text \<open>\<open>a / b\<close> on BigInt\<close>

definition js_BigInt_div :: "nat \<Rightarrow> nat \<Rightarrow> js_error + nat" where
  "js_BigInt_div a b = (if b = 0 then Inl RangeError else Inr (a div b))"

text \<open>
  \<open>Number(n)\<close> for a BigInt below \<open>2 ^ 1023\<close>: the nearest double, ties to even, which is an
  integer with at most 53 significant bits.
\<close>

definition js_Number :: "nat \<Rightarrow> nat" where
  "js_Number n = (let e = bit_len n - 53; q = n div 2 ^ e; r = n mod 2 ^ e in
     if e = 0 then n
     else if 2 * r > 2 ^ e \<or> (2 * r = 2 ^ e \<and> odd q) then (q + 1) * 2 ^ e
     else q * 2 ^ e)"

section \<open>Lemmas\<close>

lemma dec_nat_nonempty [simp]: "dec_nat n \<noteq> []"
  by (subst dec_nat.simps) simp

lemma hex_digit_inj10: "a < 16 \<Longrightarrow> b < 16 \<Longrightarrow> hex_digit a = hex_digit b \<Longrightarrow> a = b"
  by (metis option.inject unhex_hex_digit_lt)

lemma dec_nat_inj: "dec_nat m = dec_nat n \<Longrightarrow> m = n"
proof (induction m arbitrary: n rule: dec_nat.induct)
  case (1 m)
  show ?case
  proof (cases "m < 10"; cases "n < 10")
    assume "\<not> m < 10" "\<not> n < 10"
    with "1.prems" have "dec_nat (m div 10) = dec_nat (n div 10)"
      and "hex_digit (m mod 10) = hex_digit (n mod 10)"
      by (simp_all add: dec_nat.simps [of m] dec_nat.simps [of n])
    with "1.IH" \<open>\<not> m < 10\<close> have "m div 10 = n div 10" "m mod 10 = n mod 10"
      by (auto intro: hex_digit_inj10)
    then show ?thesis by (metis mult_div_mod_eq)
  next
    assume "m < 10" "n < 10"
    with "1.prems" show ?thesis
      by (simp add: dec_nat.simps [of m] dec_nat.simps [of n] hex_digit_inj10)
  next
    assume "m < 10" "\<not> n < 10"
    with "1.prems" show ?thesis
      using dec_nat_nonempty [of "n div 10"]
      by (simp add: dec_nat.simps [of m] dec_nat.simps [of n])
  next
    assume "\<not> m < 10" "n < 10"
    with "1.prems" show ?thesis
      by (simp add: dec_nat.simps [of m] dec_nat.simps [of n] append_eq_Cons_conv)
  qed
qed

lemma hex_of_nat_nonempty [simp]: "hex_of_nat n \<noteq> []"
  by (subst hex_of_nat.simps) simp

lemma is_hex_hex_of_nat [simp]: "list_all is_hex (hex_of_nat n)"
proof (induction n rule: hex_of_nat.induct)
  case (1 n)
  then show ?case by (cases "n < 16") (simp_all add: hex_of_nat.simps [of n])
qed

lemma hex_nat_hex_of_nat [simp, hex_simps]: "hex_nat (hex_of_nat n) = n"
proof (induction n rule: hex_of_nat.induct)
  case (1 n)
  show ?case
  proof (cases "n < 16")
    case True
    then show ?thesis by (simp add: hex_of_nat.simps [of n] hex_nat_def)
  next
    case False
    with 1 show ?thesis by (simp add: hex_of_nat.simps [of n] hex_nat_snoc)
  qed
qed

lemma length_hex_of_nat_le: "n < 16 ^ k \<Longrightarrow> 0 < k \<Longrightarrow> length (hex_of_nat n) \<le> k"
proof (induction n arbitrary: k rule: hex_of_nat.induct)
  case (1 n)
  show ?case
  proof (cases "n < 16")
    case True
    with "1.prems" show ?thesis by (simp add: hex_of_nat.simps [of n])
  next
    case False
    with "1.prems" have "k \<noteq> 1" by auto
    with "1.prems" obtain j where k: "k = Suc j" "0 < j" by (cases k) auto
    with "1.prems" have "n div 16 < 16 ^ j" by (simp add: less_mult_imp_div_less mult.commute)
    with 1(1) [OF False this k(2)] False k show ?thesis by (simp add: hex_of_nat.simps [of n])
  qed
qed

lemma hex_nat_zeros [simp]: "hex_nat (replicate n CHR ''0'') = 0"
  by (induction n) (simp_all add: hex_nat_def unhex_def)

lemma is_hex_zero [simp]: "is_hex CHR ''0''"
  by (simp add: is_hex_def unhex_def)

lemma list_all_replicate_hex [simp]: "list_all is_hex (replicate n CHR ''0'')"
  by (induction n) simp_all

lemma hex_nat_padStart [simp, hex_simps]: "hex_nat (padStart n s) = hex_nat s"
  by (simp add: padStart_def hex_nat_append)

lemma length_padStart [simp]: "length (padStart n s) = max n (length s)"
  by (auto simp: padStart_def)

lemma is_hex_padStart [simp]: "list_all is_hex (padStart n s) = list_all is_hex s"
  by (simp add: padStart_def)

lemma length_js_substring [simp]: "b \<le> length s \<Longrightarrow> length (js_substring a b s) = b - a"
  by (simp add: js_substring_def)

text \<open>The double nearest to a positive integer is at least one, and zero stays zero.\<close>

lemma js_Number_0 [simp]: "js_Number 0 = 0"
  by (simp add: js_Number_def Let_def bit_len.simps [of 0])

lemma js_Number_pos: assumes "0 < n" shows "1 \<le> js_Number n"
proof (cases "bit_len n - 53 = 0")
  case True
  with assms show ?thesis by (simp add: js_Number_def Let_def)
next
  case False
  let ?e = "bit_len n - 53"
  have "2 ^ ?e \<le> (2 :: nat) ^ (bit_len n - 1)" by simp
  also have "\<dots> \<le> n" using bit_len_bounds [OF assms] by simp
  finally have "0 < n div 2 ^ ?e" by (simp add: div_greater_zero_iff)
  then have "1 \<le> n div 2 ^ ?e * 2 ^ ?e" by (simp add: Suc_le_eq)
  moreover have "n div 2 ^ ?e * 2 ^ ?e \<le> js_Number n"
    using False by (simp add: js_Number_def Let_def)
  ultimately show ?thesis by (rule order_trans)
qed

end
