(* ===== verification/Proxy_Encoding.thy ===== *)
theory Proxy_Encoding
  imports Js_Core
begin

text \<open>
  The byte, hexadecimal and target arithmetic of \<open>contrib/admin/current_proxy.js\<close>: reverseHex,
  u32ToLEHex, the 8-digit and 224-digit patterns, compareHashToTarget, targetToDifficulty,
  calculateTargetFromDifficulty, bitsToTarget, compactSize, getEpochFromTime and
  getEpochSeedHash.  SHA-256 is a parameter.
\<close>

section \<open>Definitions\<close>

text \<open>\<open>hex.match(/.{2}/g)\<close>: the dot does not match a line terminator.\<close>

definition is_lt :: "char \<Rightarrow> bool" where
  "is_lt c \<longleftrightarrow> c = CHR 0x0A \<or> c = CHR 0x0D"

fun match2 :: "string \<Rightarrow> string list" where
  "match2 (a # b # r) = (if is_lt a \<or> is_lt b then match2 (b # r) else [a, b] # match2 r)"
| "match2 _ = []"

text \<open>A regular expression without a match yields null, whose \<open>reverse\<close> is a TypeError.\<close>

definition reverseHex :: "string \<Rightarrow> js_error + string" where
  "reverseHex hex = (case match2 hex of [] \<Rightarrow> Inl TypeError | ps \<Rightarrow> Inr (concat (rev ps)))"

definition u32ToLEHex :: "int \<Rightarrow> string" where
  "u32ToLEHex v = concat (rev (match2 (hexstr (be_bytes 4 (nat (v mod 2 ^ 32))))))"

text \<open>\<open>/^[0-9a-fA-F]{n}$/.test(s)\<close>\<close>

definition hexN :: "nat \<Rightarrow> string \<Rightarrow> bool" where
  "hexN n s \<longleftrightarrow> length s = n \<and> list_all is_hex s"

definition compareHashToTarget :: "string \<Rightarrow> string \<Rightarrow> js_error + bool" where
  "compareHashToTarget hash target =
     ebind (js_BigInt_hex hash) (\<lambda>h. ebind (js_BigInt_hex target) (\<lambda>t. Inr (h \<le> t)))"

definition max_target :: nat where
  "max_target = hex_nat (concat (replicate 32 ''ff''))"

definition targetToDifficulty :: "string \<Rightarrow> js_error + nat" where
  "targetToDifficulty target =
     ebind (js_BigInt_hex target) (\<lambda>t. ebind (js_BigInt_div max_target t) (\<lambda>q. Inr (js_Number q)))"

text \<open>\<open>while (targetHex.length < 64) targetHex = '0' + targetHex\<close>\<close>

function pad64 :: "string \<Rightarrow> string" where
  "pad64 h = (if length h < 64 then pad64 (CHR ''0'' # h) else h)"
  by pat_completeness auto
termination by (relation "measure (\<lambda>h. 64 - length h)") auto

declare pad64.simps [simp del]

definition calculateTargetFromDifficulty :: "nat \<Rightarrow> js_error + string" where
  "calculateTargetFromDifficulty difficulty =
     ebind (js_BigInt_div max_target difficulty) (\<lambda>t. Inr (pad64 (hex_of_nat t)))"

text \<open>
  \<open>parseInt(s, 16)\<close>: the longest hexadecimal prefix after an optional 0x, and NaN (here None)
  when there is none.  White space and a sign do not occur in \<open>bits\<close>, the only free-form
  argument.
\<close>

definition parseInt16 :: "string \<Rightarrow> nat option" where
  "parseInt16 s =
     (let s' = (if take 2 s = ''0x'' \<or> take 2 s = ''0X'' then drop 2 s else s);
          d = takeWhile is_hex s'
      in if d = [] then None else Some (hex_nat d))"

text \<open>\<open>buf.writeUInt32BE(v, off)\<close>: a RangeError outside the buffer or above 32 bits.\<close>

definition writeUInt32BE :: "bytes \<Rightarrow> int \<Rightarrow> nat \<Rightarrow> js_error + bytes" where
  "writeUInt32BE buf v off =
     (if v < 0 \<or> v > 4294967295 \<or> off + 4 > length buf then Inl RangeError
      else Inr (take off buf @ be_bytes 4 (nat v) @ drop (off + 4) buf))"

text \<open>
  A NaN exponent makes the comparisons false, so nothing is written; a NaN mantissa is written
  as zero.  \<open>shift >> 3\<close> is \<open>exponent - 3\<close>.
\<close>

definition bitsToTarget :: "string \<Rightarrow> js_error + string" where
  "bitsToTarget bits =
     (let exponent = parseInt16 (js_substring 0 2 bits);
          mantissa = (case parseInt16 (drop 2 bits) of None \<Rightarrow> 0 | Some m \<Rightarrow> m);
          target = replicate 32 0
      in case exponent of
           None \<Rightarrow> Inr (hexstr target)
         | Some e \<Rightarrow>
             (let shift = (int e - 3) * 8 in
              if 0 \<le> shift \<and> shift < 256
              then ebind (writeUInt32BE target (int mantissa) (nat (shift div 8)))
                     (\<lambda>t. Inr (hexstr t))
              else Inr (hexstr target)))"

definition compactSize :: "nat \<Rightarrow> string" where
  "compactSize count =
     (if count < 0xfd then padStart 2 (hex_of_nat count)
      else if count \<le> 0xffff then ''fd'' @ padStart 4 (hex_of_nat count)
      else ''fe'' @ padStart 8 (hex_of_nat count))"

definition getEpochFromTime :: "int \<Rightarrow> int" where
  "getEpochFromTime timestamp = timestamp div (7 * 24 * 60 * 60)"

definition ascii_bytes :: "string \<Rightarrow> bytes" where
  "ascii_bytes s = map (\<lambda>c. word_of_nat (of_char c)) s"

definition getEpochSeedHash :: "(bytes \<Rightarrow> bytes) \<Rightarrow> int \<Rightarrow> string" where
  "getEpochSeedHash sha256 epoch =
     hexstr (sha256 (sha256 (ascii_bytes (''RCPU/RandomX/Epoch/'' @ dec_int epoch))))"

section \<open>Reversing hexadecimal text\<close>

lemma hex_digit_not_lt [simp]: "\<not> is_lt (hex_digit n)"
proof
  assume "is_lt (hex_digit n)"
  then have "unhex (hex_digit n) = None" by (auto simp: is_lt_def unhex_def)
  then show False by simp
qed

lemma match2_hexstr [simp]: "match2 (hexstr bs) = map hex_of_byte bs"
  by (induction bs) (simp_all add: hexstr_Cons hex_of_byte_def)

lemma reverseHex_hexstr [hex_simps]:
  "reverseHex (hexstr bs) = (if bs = [] then Inl TypeError else Inr (hexstr (rev bs)))"
proof (cases bs)
  case (Cons b bs')
  then have "reverseHex (hexstr bs) = Inr (concat (rev (map hex_of_byte bs)))"
    by (simp add: reverseHex_def)
  with Cons show ?thesis by (simp add: hexstr_def rev_map)
qed (simp add: reverseHex_def)

lemma u32ToLEHex_bytes [hex_simps]: "u32ToLEHex v = hexstr (le_bytes 4 (nat (v mod 2 ^ 32)))"
  unfolding u32ToLEHex_def match2_hexstr be_bytes_def by (simp add: hexstr_def rev_map)

lemma length_u32ToLEHex [simp]: "length (u32ToLEHex v) = 8"
  by (simp add: u32ToLEHex_bytes)

lemma is_hex_u32ToLEHex [simp]: "list_all is_hex (u32ToLEHex v)"
  by (simp add: u32ToLEHex_bytes)

section \<open>Targets and difficulties\<close>

lemma le_val_ones: "le_val (replicate n 255) + 1 = 256 ^ n"
  by (induction n) simp_all

lemma max_target_eq: "max_target = 2 ^ 256 - 1"
proof -
  have "concat (replicate n ''ff'') = hexstr (replicate n 255)" for n
    by (induction n) (simp_all add: hexstr_Cons hex_of_byte_def hex_digit_def hex_digits_def)
  then have "max_target = le_val (replicate 32 255)"
    by (simp add: max_target_def hex_nat_hexstr)
  also have "\<dots> = 256 ^ 32 - 1" using le_val_ones [of 32] by simp
  also have "\<dots> = 2 ^ 256 - 1" by simp
  finally show ?thesis .
qed

lemma pad64_eq: "pad64 h = padStart 64 h"
proof (induction h rule: pad64.induct)
  case (1 h)
  show ?case
  proof (cases "length h < 64")
    case True
    then have "replicate (64 - length h) CHR ''0'' = replicate (64 - Suc (length h)) CHR ''0'' @ [CHR ''0'']"
      by (metis Suc_diff_Suc replicate_Suc replicate_append_same)
    with 1 True show ?thesis by (simp add: pad64.simps [of h] padStart_def)
  next
    case False
    then show ?thesis by (simp add: pad64.simps [of h] padStart_def)
  qed
qed

lemma targetToDifficulty_pos:
  assumes "targetToDifficulty target = Inr d" and "length target = 64"
  shows "1 \<le> d"
proof -
  from assms(1) have hex: "list_all is_hex target" and pos: "hex_nat target \<noteq> 0"
    and d: "d = js_Number (max_target div hex_nat target)"
    by (auto simp: targetToDifficulty_def js_BigInt_hex_def js_BigInt_div_def split: if_splits)
  have "hex_nat target < 16 ^ 64" using hex_nat_bound [OF hex] assms(2) by simp
  then have "hex_nat target \<le> max_target" by (simp add: max_target_eq)
  with pos have "0 < max_target div hex_nat target" by (simp add: div_greater_zero_iff)
  then have "1 \<le> js_Number (max_target div hex_nat target)" by (rule js_Number_pos)
  with d show ?thesis by simp
qed

lemma calculateTargetFromDifficulty_1:
  "calculateTargetFromDifficulty 1 = Inr (padStart 64 (hex_of_nat max_target))"
  by (simp add: calculateTargetFromDifficulty_def js_BigInt_div_def pad64_eq)

lemma compareHashToTarget_hexstr [hex_simps]:
  assumes "h \<noteq> []" and "t \<noteq> []"
  shows "compareHashToTarget (hexstr h) (hexstr t) = Inr (le_val (rev h) \<le> le_val (rev t))"
proof -
  from assms have "hexstr h \<noteq> []" "hexstr t \<noteq> []"
    by (metis length_0_conv length_hexstr mult_eq_0_iff zero_neq_numeral)+
  then show ?thesis by (simp add: compareHashToTarget_def js_BigInt_hex_def hex_nat_hexstr)
qed

section \<open>Compact sizes\<close>

lemma length_compactSize: 
  assumes "count < 2 ^ 32"
  shows "length (compactSize count) =
    (if count < 0xfd then 2 else if count \<le> 0xffff then 6 else 10)"
proof -
  have "count < 16 ^ 2 \<Longrightarrow> length (hex_of_nat count) \<le> 2"
    and "count < 16 ^ 4 \<Longrightarrow> length (hex_of_nat count) \<le> 4"
    and "length (hex_of_nat count) \<le> 8"
    using assms by (auto intro: length_hex_of_nat_le)
  then show ?thesis by (auto simp: compactSize_def max_def)
qed

end
