(* ===== verification/Proxy_Job.thy ===== *)
theory Proxy_Job
  imports Proxy_Encoding
begin

text \<open>
  Jobs and hashing of \<open>contrib/admin/current_proxy.js\<close>: createRandomXJob, buildHeader112,
  hashRandomX, calculateCommitment, the wire messages, the block assembly of submitBlockToNode
  and the reply handling of makeRpcRequest.  SHA-256, the RandomX virtual machine and BLAKE2b
  come from packages outside the repository and are parameters.
\<close>

section \<open>Templates and jobs\<close>

text \<open>
  The members of a getblocktemplate reply that the proxy reads.  An optional member is None when
  the reply lacks it.
\<close>

record block_template =
  t_previousblockhash :: string
  t_merkleroot :: "string option"
  t_bits :: string
  t_curtime :: int
  t_height :: "int option"
  t_target :: "string option"
  t_coinbasetxn :: "string option option"
  t_transactions :: "string option list option"

record job =
  j_job_id :: string
  j_blob :: string
  j_target :: string
  j_share_target :: string
  j_height :: int
  j_seed_hash :: string
  j_epoch :: int
  j_prevhash :: string
  j_nbits :: string
  j_curtime :: int
  j_algo :: string
  j_networkDifficulty :: nat
  j_shareDifficulty :: nat
  j_template :: block_template

definition MIN_SHARE_DIFFICULTY :: nat where "MIN_SHARE_DIFFICULTY = 1"

text \<open>An absent or empty string is falsy.\<close>

definition truthy_str :: "string option \<Rightarrow> bool" where
  "truthy_str s \<longleftrightarrow> s \<noteq> None \<and> s \<noteq> Some []"

definition zeros32 :: string where
  "zeros32 = concat (replicate 32 ''00'')"

text \<open>\<open>counter\<close> is the value of jobCounter after its increment.\<close>

definition createRandomXJob :: "(bytes \<Rightarrow> bytes) \<Rightarrow> nat \<Rightarrow> block_template \<Rightarrow> js_error + job" where
  "createRandomXJob sha256 counter template =
     (let jobId = dec_nat counter; version = ''00000020'' in
      ebind (reverseHex (t_previousblockhash template)) (\<lambda>prevhash.
      ebind (if truthy_str (t_merkleroot template) then reverseHex (the (t_merkleroot template))
             else Inr zeros32) (\<lambda>merkleRoot.
      let ntimeLE = u32ToLEHex (t_curtime template) in
      ebind (reverseHex (t_bits template)) (\<lambda>nbits.
      let nonce = ''00000000'';
          blob = version @ prevhash @ merkleRoot @ ntimeLE @ nbits @ nonce @ zeros32;
          epoch = getEpochFromTime (t_curtime template);
          seedHash = getEpochSeedHash sha256 epoch in
      ebind (if truthy_str (t_target template) then Inr (the (t_target template))
             else bitsToTarget (t_bits template)) (\<lambda>target.
      ebind (targetToDifficulty target) (\<lambda>networkDifficulty.
      let shareDifficulty = min MIN_SHARE_DIFFICULTY networkDifficulty in
      ebind (calculateTargetFromDifficulty shareDifficulty) (\<lambda>shareTarget.
      Inr \<lparr>j_job_id = jobId, j_blob = blob, j_target = target, j_share_target = shareTarget,
           j_height = (case t_height template of None \<Rightarrow> 0 | Some h \<Rightarrow> h),
           j_seed_hash = seedHash, j_epoch = epoch,
           j_prevhash = t_previousblockhash template, j_nbits = t_bits template,
           j_curtime = t_curtime template, j_algo = ''rx/0'',
           j_networkDifficulty = networkDifficulty, j_shareDifficulty = shareDifficulty,
           j_template = template\<rparr>)))))))"

section \<open>The hashed header\<close>

text \<open>
  The arguments are whatever the peer sent: the patterns test their string conversion, and
  \<open>toLowerCase\<close> exists on strings only.
\<close>

definition buildHeader112 :: "job \<Rightarrow> jsval \<Rightarrow> jsval \<Rightarrow> js_error + string option" where
  "buildHeader112 job nonceHex ntimeHex =
     ebind (js_ToString nonceHex) (\<lambda>ns. if \<not> hexN 8 ns then Inr None else
     ebind (js_ToString ntimeHex) (\<lambda>ts. if \<not> hexN 8 ts then Inr None else
     let ntimeLE = u32ToLEHex (case parseInt16 ts of None \<Rightarrow> 0 | Some v \<Rightarrow> int v);
         prefix = js_substring 0 136 (j_blob job);
         nbits = js_substring 144 152 (j_blob job) in
     case nonceHex of
       JStr n \<Rightarrow> Inr (Some (prefix @ ntimeLE @ nbits @ js_lower n @ zeros32))
     | _ \<Rightarrow> Inl TypeError))"

text \<open>\<open>Buffer.from(s, 'hex')\<close>: decoding stops at the first pair that is not hexadecimal.\<close>

fun from_hex :: "string \<Rightarrow> bytes" where
  "from_hex (a # b # r) = (case (unhex a, unhex b) of
     (Some x, Some y) \<Rightarrow> word_of_nat (16 * x + y) # from_hex r
   | _ \<Rightarrow> [])"
| "from_hex _ = []"

text \<open>
  \<open>vm\<close> is the seed the RandomX machine was made with, None before the first initialisation.  The
  machine's hash raises (None) or returns a byte string; an exception is caught and logged.
\<close>

definition hashRandomX :: "(bytes \<Rightarrow> bytes \<Rightarrow> bytes option) \<Rightarrow> bytes option \<Rightarrow> string \<Rightarrow> string option" where
  "hashRandomX rx vm blob112 =
     (case vm of None \<Rightarrow> None
      | Some seed \<Rightarrow>
          (let inputBuffer = from_hex blob112 in
           if length inputBuffer \<noteq> 112 then None
           else case rx seed inputBuffer of None \<Rightarrow> None
             | Some h \<Rightarrow> (case reverseHex (hexstr h) of Inl _ \<Rightarrow> None | Inr resultBE \<Rightarrow> Some resultBE)))"

definition calculateCommitment :: "(bytes \<Rightarrow> bytes) \<Rightarrow> string \<Rightarrow> string \<Rightarrow> js_error + string option" where
  "calculateCommitment blake2b rxHashBE header112 =
     (if \<not> hexN 224 header112 then Inr None
      else ebind (reverseHex rxHashBE) (\<lambda>hashLE.
        ebind (reverseHex (hexstr (blake2b (from_hex header112 @ from_hex hashLE)))) (\<lambda>resultBE.
        Inr (Some resultBE))))"

section \<open>Messages to miners\<close>

definition line :: "jsval \<Rightarrow> string" where
  "line v = stringify v @ [CHR 0x0A]"

definition createXMRigLoginResponse :: "jsval \<Rightarrow> string \<Rightarrow> job \<Rightarrow> string" where
  "createXMRigLoginResponse mid extraNonce1 job = line (JObj
     [(''id'', mid), (''jsonrpc'', JStr ''2.0''),
      (''result'', JObj
        [(''id'', JStr []), (''status'', JStr ''OK''),
         (''job'', JObj
           [(''blob'', JStr (j_blob job)), (''job_id'', JStr (j_job_id job)),
            (''target'', JStr (j_target job)), (''height'', JNum (j_height job)),
            (''seed_hash'', JStr (j_seed_hash job)), (''algo'', JStr ''rx/0''),
            (''variant'', JNum 0)]),
         (''extra_nonce1'', JStr extraNonce1), (''extra_nonce2_size'', JNum 8)])])"

definition createXMRigSubmitResponse :: "jsval \<Rightarrow> bool \<Rightarrow> string" where
  "createXMRigSubmitResponse mid success = line (JObj
     [(''id'', mid), (''jsonrpc'', JStr ''2.0''),
      (''result'', JObj [(''status'', JStr (if success then ''OK'' else ''REJECTED''))])])"

definition createXMRigJobNotify :: "job \<Rightarrow> string" where
  "createXMRigJobNotify job = line (JObj
     [(''id'', JNull), (''jsonrpc'', JStr ''2.0''), (''method'', JStr ''job''),
      (''params'', JObj
        [(''blob'', JStr (j_blob job)), (''job_id'', JStr (j_job_id job)),
         (''target'', JStr (j_target job)), (''height'', JNum (j_height job)),
         (''seed_hash'', JStr (j_seed_hash job)), (''algo'', JStr ''rx/0''),
         (''variant'', JNum 0), (''new_job'', JBool True)])])"

text \<open>\<open>subscriptionId\<close> is the identifier drawn inside the function.\<close>

definition createStratumSubscribeResponse :: "string \<Rightarrow> jsval \<Rightarrow> string \<Rightarrow> string" where
  "createStratumSubscribeResponse subscriptionId mid extraNonce1 = line (JObj
     [(''id'', mid),
      (''result'', JArr
        [JArr [JArr [JStr ''mining.notify'', JStr subscriptionId],
               JArr [JStr ''mining.set_difficulty'', JStr subscriptionId]],
         JStr extraNonce1, JNum 8]),
      (''error'', JNull)])"

definition createStratumAuthorizeResponse :: "jsval \<Rightarrow> bool \<Rightarrow> string" where
  "createStratumAuthorizeResponse mid success = line (JObj
     [(''id'', mid), (''result'', JBool success), (''error'', JNull)])"

definition createStratumSubmitResponse :: "jsval \<Rightarrow> bool \<Rightarrow> string" where
  "createStratumSubmitResponse mid success = line (JObj
     [(''id'', mid), (''result'', JBool success),
      (''error'', if success then JNull
        else JObj [(''code'', JNum 20), (''message'', JStr ''stratum reject'')])])"

definition createStratumJobNotify :: "job \<Rightarrow> js_error + string" where
  "createStratumJobNotify job =
     ebind (writeUInt32BE (replicate 4 0) (j_curtime job) 0) (\<lambda>ntime.
     ebind (reverseHex (j_prevhash job)) (\<lambda>prev.
     Inr (line (JObj
       [(''id'', JNull), (''method'', JStr ''mining.notify''),
        (''params'', JArr
          [JStr (j_job_id job), JStr prev, JStr [], JStr [], JArr [],
           JStr ''00000020'', JStr (j_nbits job), JStr (hexstr ntime), JBool True])]))))"

section \<open>Submitting a block\<close>

text \<open>
  The synchronous part, up to the call of makeRpcRequest: the serialized block that is sent, or
  None when the function logs and returns.  Its exceptions are caught and logged.
\<close>

definition submitBlock_hex :: "job \<Rightarrow> jsval \<Rightarrow> jsval \<Rightarrow> string \<Rightarrow> js_error + string option" where
  "submitBlock_hex job nonce ntime rxHash =
     (let template = j_template job in
      ebind (buildHeader112 job nonce ntime) (\<lambda>h. case h of None \<Rightarrow> Inr None
      | Some header112 \<Rightarrow>
         (let header80 = js_substring 0 160 header112 in
          case t_coinbasetxn template of None \<Rightarrow> Inr None
          | Some data \<Rightarrow>
             if \<not> truthy_str data then Inr None
             else
               (let txDataList = the data # (case t_transactions template of None \<Rightarrow> []
                      | Some txs \<Rightarrow> map the (filter truthy_str txs)) in
                ebind (if rxHash \<noteq> [] then reverseHex rxHash else Inr zeros32) (\<lambda>hashRandomXLE.
                Inr (Some ((header80 @ hashRandomXLE) @ compactSize (length txDataList)
                           @ concat txDataList)))))))"

definition submitBlockToNode :: "job \<Rightarrow> jsval \<Rightarrow> jsval \<Rightarrow> string \<Rightarrow> string option" where
  "submitBlockToNode job nonce ntime rxHash =
     (case submitBlock_hex job nonce ntime rxHash of Inl _ \<Rightarrow> None | Inr b \<Rightarrow> b)"

text \<open>The reply of an RPC request, whose body \<open>parse\<close> reads (None is a SyntaxError).\<close>

datatype rpc_outcome = Resolved jsval | Rejected string

definition makeRpcRequest_reply :: "(string \<Rightarrow> jsval option) \<Rightarrow> string \<Rightarrow> rpc_outcome" where
  "makeRpcRequest_reply parse body =
     (let invalid = Rejected (''Invalid JSON response: '' @ take 200 body) in
      case parse body of None \<Rightarrow> invalid
      | Some parsed \<Rightarrow>
         (case jget parsed ''error'' of Inl _ \<Rightarrow> invalid
          | Inr err \<Rightarrow>
             if truthy err then
               (case jget err ''message'' of Inl _ \<Rightarrow> invalid
                | Inr m \<Rightarrow> (case js_ToString (js_or m (JStr ''RPC error'')) of
                     Inl _ \<Rightarrow> invalid | Inr s \<Rightarrow> Rejected s))
             else (case jget parsed ''result'' of Inl _ \<Rightarrow> invalid
                | Inr r \<Rightarrow> Resolved (js_or r parsed))))"

text \<open>What submitBlockToNode logs for the value the request resolved to.\<close>

definition submit_accepted :: "jsval \<Rightarrow> bool" where
  "submit_accepted result \<longleftrightarrow> result = JNull \<or> result = JBool True"

text \<open>A rejected request is logged and yields null.\<close>

definition getBlockTemplate_reply :: "rpc_outcome \<Rightarrow> jsval option" where
  "getBlockTemplate_reply out = (case out of Resolved v \<Rightarrow> Some v | Rejected _ \<Rightarrow> None)"

section \<open>Lemmas\<close>

lemma from_hex_hexstr [simp, hex_simps]: "from_hex (hexstr bs) = bs"
proof (induction bs)
  case (Cons b bs)
  have "unat b < 256" using unsigned_less [of b] by simp
  then have "unat b div 16 mod 16 = unat b div 16" by simp
  with Cons show ?case by (simp add: hexstr_Cons hex_of_byte_def)
qed simp

lemma zeros32_hexstr: "zeros32 = hexstr (replicate 32 0)"
proof -
  have "concat (replicate n ''00'') = hexstr (replicate n 0)" for n
    by (induction n) (simp_all add: hexstr_Cons hex_of_byte_def hex_digit_def hex_digits_def)
  then show ?thesis by (simp add: zeros32_def)
qed

lemma length_zeros32 [simp]: "length zeros32 = 64"
  by (simp add: zeros32_hexstr)

lemma version_hexstr: "''00000020'' = hexstr (le_bytes 4 0x20000000)"
  by (simp add: le_bytes_numeral hexstr_Cons hex_of_byte_def hex_digit_def hex_digits_def)

lemma nonce0_hexstr: "''00000000'' = hexstr (le_bytes 4 0)"
  by (simp add: le_bytes_numeral hexstr_Cons hex_of_byte_def hex_digit_def hex_digits_def)

lemma job_fields:
  assumes "createRandomXJob sha counter template = Inr job"
  shows "j_job_id job = dec_nat counter" "j_template job = template"
    "j_epoch job = getEpochFromTime (t_curtime template)"
    "j_seed_hash job = getEpochSeedHash sha (j_epoch job)"
    "j_shareDifficulty job = min MIN_SHARE_DIFFICULTY (j_networkDifficulty job)"
    "targetToDifficulty (j_target job) = Inr (j_networkDifficulty job)"
    "calculateTargetFromDifficulty (j_shareDifficulty job) = Inr (j_share_target job)"
  using assms by (auto simp: createRandomXJob_def Let_def)

lemma parseInt16_hexN: "hexN 8 s \<Longrightarrow> parseInt16 s = Some (hex_nat s)"
proof -
  assume h: "hexN 8 s"
  have "\<not> is_hex CHR ''x''" "\<not> is_hex CHR ''X''"
    by (simp_all add: is_hex_def unhex_def)
  then have "take 2 s \<noteq> ''0x'' \<and> take 2 s \<noteq> ''0X''"
    using h set_take_subset [of 2 s] by (auto simp: hexN_def list_all_iff)
  moreover from h have t: "takeWhile is_hex s = s" and "s \<noteq> []"
    by (auto simp: hexN_def list_all_iff)
  ultimately show ?thesis by (simp only: parseInt16_def Let_def t if_False simp_thms)
qed

text \<open>
  A 32-byte target that is not zero has difficulty at least one, so the share difficulty is one
  and the share target is the largest 256-bit value.
\<close>

lemma share_target_max:
  assumes "createRandomXJob sha counter template = Inr job" and "length (j_target job) = 64"
  shows "j_share_target job = padStart 64 (hex_of_nat max_target)"
proof -
  have "1 \<le> j_networkDifficulty job"
    using targetToDifficulty_pos job_fields(6) [OF assms(1)] assms(2) .
  then have "j_shareDifficulty job = 1"
    using job_fields(5) [OF assms(1)] by (simp add: MIN_SHARE_DIFFICULTY_def)
  then show ?thesis
    using job_fields(7) [OF assms(1)] by (simp add: calculateTargetFromDifficulty_1 [unfolded One_nat_def])
qed

lemma hexstr_neq_Nil: "bs \<noteq> [] \<Longrightarrow> hexstr bs \<noteq> []"
  by (metis length_0_conv length_hexstr mult_eq_0_iff zero_neq_numeral)

lemma targetToDifficulty_hexstr:
  assumes "le_val tb \<noteq> 0"
  shows "\<exists>d. targetToDifficulty (hexstr (rev tb)) = Inr d"
proof -
  have "tb \<noteq> []" using assms by auto
  then show ?thesis using assms
    by (simp add: targetToDifficulty_def js_BigInt_hex_def js_BigInt_div_def hex_nat_hexstr hexstr_neq_Nil)
qed

text \<open>The bytes of the block header that the job's blob is the hexadecimal text of.\<close>

definition blob_bytes :: "bytes \<Rightarrow> bytes \<Rightarrow> int \<Rightarrow> bytes \<Rightarrow> bytes" where
  "blob_bytes prev merkle curtime bits =
     le_bytes 4 0x20000000 @ prev @ merkle @ le_bytes 4 (nat (curtime mod 2 ^ 32)) @ bits @
     le_bytes 4 0 @ replicate 32 0"

lemma createRandomXJob_hexstr:
  assumes "t_previousblockhash t = hexstr (rev prev)" and "prev \<noteq> []"
    and "t_merkleroot t = map_option (\<lambda>m. hexstr (rev m)) mr" and "mr \<noteq> Some []"
    and "t_bits t = hexstr (rev bits)" and "bits \<noteq> []"
    and "t_target t = Some (hexstr (rev tb))" and "le_val tb \<noteq> 0" and "length tb = 32"
  shows "\<exists>job. createRandomXJob sha n t = Inr job \<and> j_target job = hexstr (rev tb) \<and>
    j_blob job = hexstr (blob_bytes prev (case mr of None \<Rightarrow> replicate 32 0 | Some m \<Rightarrow> m) (t_curtime t) bits)"
proof -
  obtain d where d: "targetToDifficulty (hexstr (rev tb)) = Inr d"
    using targetToDifficulty_hexstr [OF assms(8)] by blast
  then have "1 \<le> d" by (rule targetToDifficulty_pos) (use assms(9) in simp)
  then have m: "min MIN_SHARE_DIFFICULTY d = 1" by (simp add: MIN_SHARE_DIFFICULTY_def)
  have tb: "hexstr (rev tb) \<noteq> []" using assms(9) by (intro hexstr_neq_Nil) auto
  have r: "reverseHex (hexstr (rev x)) = Inr (hexstr x)" if "x \<noteq> []" for x
    using that by (simp add: reverseHex_hexstr)
  have "(if truthy_str (t_merkleroot t) then reverseHex (the (t_merkleroot t)) else Inr zeros32) =
      Inr (hexstr (case mr of None \<Rightarrow> replicate 32 0 | Some m \<Rightarrow> m))"
    using assms(3,4) by (cases mr) (auto simp: truthy_str_def zeros32_hexstr r hexstr_neq_Nil)
  with assms d m tb show ?thesis
    by (simp add: createRandomXJob_def Let_def r truthy_str_def calculateTargetFromDifficulty_1 [unfolded One_nat_def]
        blob_bytes_def hexstr_append u32ToLEHex_bytes version_hexstr nonce0_hexstr zeros32_hexstr)
qed

lemma take_hexstr: "take (2 * n) (hexstr bs) = hexstr (take n bs)"
proof (induction n arbitrary: bs)
  case (Suc n)
  then show ?case by (cases bs) (simp_all add: hexstr_Cons hex_of_byte_def)
qed simp

lemma drop_hexstr: "drop (2 * n) (hexstr bs) = hexstr (drop n bs)"
proof (induction n arbitrary: bs)
  case (Suc n)
  then show ?case by (cases bs) (simp_all add: hexstr_Cons hex_of_byte_def)
qed simp

lemma js_substring_hexstr:
  "js_substring (2 * a) (2 * b) (hexstr bs) = hexstr (take (b - a) (drop a bs))"
  by (simp add: js_substring_def drop_hexstr take_hexstr flip: diff_mult_distrib2)

lemma lower_hex_digit [simp]: "lower_char (hex_digit n) = hex_digit n"
proof -
  have "\<forall>c \<in> set hex_digits. lower_char c = c" by (simp add: hex_digits_def lower_char_def)
  moreover have "hex_digit n \<in> set hex_digits"
    unfolding hex_digit_def by (rule nth_mem) (simp add: hex_digits_def)
  ultimately show ?thesis by blast
qed

lemma js_lower_hexstr [simp]: "js_lower (hexstr bs) = hexstr bs"
  by (induction bs) (simp_all add: hexstr_Cons hex_of_byte_def js_lower_def)

lemma hexN_hexstr [simp]: "hexN n (hexstr bs) \<longleftrightarrow> 2 * length bs = n"
  by (simp add: hexN_def)

text \<open>Replacing time and nonce in a blob of the right size.\<close>

lemma buildHeader112_hexstr:
  assumes blob: "j_blob job = hexstr (blob_bytes prev merkle curtime bits)"
    and len: "length prev = 32" "length merkle = 32" "length bits = 4"
  shows "buildHeader112 job (JStr (hexstr nonce)) (JStr (hexstr ntime)) =
    (if length nonce = 4 \<and> length ntime = 4
     then Inr (Some (hexstr (le_bytes 4 0x20000000 @ prev @ merkle @ rev ntime @ bits @ nonce @ replicate 32 0)))
     else Inr None)"
proof -
  let ?B = "blob_bytes prev merkle curtime bits"
  have p: "js_substring 0 136 (j_blob job) = hexstr (le_bytes 4 0x20000000 @ prev @ merkle)"
    using js_substring_hexstr [of 0 68 ?B] len by (simp add: blob blob_bytes_def)
  have b: "js_substring 144 152 (j_blob job) = hexstr bits"
    using js_substring_hexstr [of 72 76 ?B] len by (simp add: blob blob_bytes_def)
  have t: "u32ToLEHex (int (hex_nat (hexstr ntime))) = hexstr (rev ntime)" if "length ntime = 4"
  proof -
    have "le_val (rev ntime) < 2 ^ 32" using le_val_bound [of "rev ntime"] that by simp
    then have "nat (int (le_val (rev ntime)) mod 2 ^ 32) = le_val (rev ntime)"
      by simp
    with le_bytes_le_val [of "rev ntime"] that show ?thesis
      by (simp add: u32ToLEHex_bytes hex_nat_hexstr)
  qed
  show ?thesis
    using parseInt16_hexN [of "hexstr ntime"] t p b
    by (simp add: buildHeader112_def Let_def hexstr_append zeros32_hexstr)
qed

end
