(* ===== verification/Proxy_Rate.thy ===== *)
theory Proxy_Rate
  imports Rcpu_Prelude
begin

text \<open>
  The submit budgets of \<open>contrib/admin/current_proxy.js\<close> (rateLimitedSubmit): a global window of
  one second and a per-peer window of five seconds, each an array of the times of the admitted
  submits from whose front expired times are shifted.

  The locale \<open>submit_window\<close> is the contract of one such window; its client lemma is that no
  window of the given width ever holds more admitted submits than the budget.  The array
  operations of the source interpret it at both widths.
\<close>

section \<open>Definitions\<close>

definition SUBMIT_RATE_WINDOW_MS :: int where "SUBMIT_RATE_WINDOW_MS = 1000"
definition SUBMIT_RATE_MAX_GLOBAL :: nat where "SUBMIT_RATE_MAX_GLOBAL = 40"
definition PEER_SUBMIT_WINDOW_MS :: int where "PEER_SUBMIT_WINDOW_MS = 5000"
definition PEER_SUBMIT_MAX :: nat where "PEER_SUBMIT_MAX = 100"

lemmas rate_consts = SUBMIT_RATE_WINDOW_MS_def SUBMIT_RATE_MAX_GLOBAL_def
  PEER_SUBMIT_WINDOW_MS_def PEER_SUBMIT_MAX_def

text \<open>\<open>while (times.length && now - times[0] >= W) times.shift()\<close>\<close>

fun shift_expired :: "int \<Rightarrow> int \<Rightarrow> int list \<Rightarrow> int list" where
  "shift_expired W now [] = []"
| "shift_expired W now (t # ts) = (if now - t \<ge> W then shift_expired W now ts else t # ts)"

text \<open>
  The result is whether the submit is refused, and the two arrays afterwards.  The peer array is
  mutated in place, so its expired entries are gone even when the peer is over budget; a refusal
  by the global budget returns before the peer array is touched.
\<close>

definition rateLimitedSubmit :: "int \<Rightarrow> int list \<Rightarrow> int list \<Rightarrow> bool \<times> int list \<times> int list" where
  "rateLimitedSubmit now globalSubmitTimes peerTimes =
     (let g = shift_expired SUBMIT_RATE_WINDOW_MS now globalSubmitTimes in
      if length g \<ge> SUBMIT_RATE_MAX_GLOBAL then (True, g, peerTimes)
      else let p = shift_expired PEER_SUBMIT_WINDOW_MS now peerTimes in
        if length p \<ge> PEER_SUBMIT_MAX then (True, g, p)
        else (False, g @ [now], p @ [now]))"

text \<open>A sequence of calls, each by a peer at a time; the result lists the admitted ones.\<close>

fun rate_run :: "(nat \<times> int) list \<Rightarrow> int list \<Rightarrow> (nat \<Rightarrow> int list) \<Rightarrow> (nat \<times> int) list" where
  "rate_run [] g ps = []"
| "rate_run ((i, now) # cs) g ps =
     (case rateLimitedSubmit now g (ps i) of
        (limited, g', p') \<Rightarrow>
          (if limited then [] else [(i, now)]) @ rate_run cs g' (ps(i := p')))"

section \<open>The contract of a sliding window\<close>

definition in_window :: "int \<Rightarrow> int \<Rightarrow> int list \<Rightarrow> int list" where
  "in_window W a ts = filter (\<lambda>t. a \<le> t \<and> t < a + W) ts"

lemma in_window_append [simp]: "in_window W a (xs @ ys) = in_window W a xs @ in_window W a ys"
  by (simp add: in_window_def)

locale submit_window =
  fixes purge :: "int \<Rightarrow> 'q \<Rightarrow> 'q"
    and push :: "int \<Rightarrow> 'q \<Rightarrow> 'q"
    and entries :: "'q \<Rightarrow> int list"
    and width :: int
    and budget :: nat
  assumes purge_entries: "sorted (entries q) \<Longrightarrow>
      entries (purge now q) = filter (\<lambda>t. now - t < width) (entries q)"
    and push_entries: "entries (push now q) = entries q @ [now]"
begin

definition tracks :: "int \<Rightarrow> 'q \<Rightarrow> int list \<Rightarrow> bool" where
  "tracks now q hist \<longleftrightarrow>
     sorted (entries q) \<and> (\<forall>t \<in> set (entries q). t \<le> now) \<and> (\<forall>t \<in> set hist. t \<le> now) \<and>
     filter (\<lambda>t. now - t < width) hist = filter (\<lambda>t. now - t < width) (entries q) \<and>
     (\<forall>a. length (in_window width a hist) \<le> budget)"

lemma tracks_later:
  assumes "tracks now q hist" and "now \<le> now'"
  shows "tracks now' q hist"
proof -
  have recent: "filter (\<lambda>t. now' - t < width) xs =
      filter (\<lambda>t. now' - t < width) (filter (\<lambda>t. now - t < width) xs)" for xs
    using assms(2) by (simp only: filter_filter) (rule filter_cong; auto)
  from assms have "filter (\<lambda>t. now - t < width) hist = filter (\<lambda>t. now - t < width) (entries q)"
    by (simp add: tracks_def)
  then have "filter (\<lambda>t. now' - t < width) hist = filter (\<lambda>t. now' - t < width) (entries q)"
    by (metis recent)
  with assms show ?thesis by (force simp: tracks_def)
qed

lemma tracks_purge: "tracks now q hist \<Longrightarrow> tracks now (purge now q) hist"
  by (auto simp: tracks_def purge_entries sorted_filter [of id, simplified])

lemma tracks_push:
  assumes tr: "tracks now q hist"
    and fresh: "entries q = filter (\<lambda>t. now - t < width) (entries q)"
    and room: "length (entries q) < budget" and pos: "0 < width"
  shows "tracks now (push now q) (hist @ [now])"
proof -
  have "length (in_window width a (hist @ [now])) \<le> budget" for a
  proof (cases "a \<le> now \<and> now < a + width")
    case True
    have "length (in_window width a hist) \<le> length (filter (\<lambda>t. now - t < width) hist)"
      unfolding in_window_def
      using True tr by (intro length_filter_mono) (auto simp: tracks_def)
    also have "\<dots> = length (entries q)" using tr fresh by (simp add: tracks_def)
    finally show ?thesis using room True by (simp add: in_window_def)
  next
    case False
    then have "in_window width a (hist @ [now]) = in_window width a hist"
      by (auto simp: in_window_def)
    with tr show ?thesis by (simp add: tracks_def)
  qed
  with tr pos show ?thesis by (auto simp: tracks_def push_entries sorted_append)
qed

lemma tracks_start: "entries q = [] \<Longrightarrow> tracks now q []"
  by (simp add: tracks_def in_window_def)

lemma tracks_budget: "tracks now q hist \<Longrightarrow> length (in_window width a hist) \<le> budget"
  by (simp add: tracks_def)

lemma purge_fresh:
  "tracks now q hist \<Longrightarrow> entries (purge now q) = filter (\<lambda>t. now - t < width) (entries (purge now q))"
  by (simp add: tracks_def purge_entries)

lemma tracks_admit:
  assumes "tracks now q hist" and "length (entries (purge now q)) < budget" and "0 < width"
  shows "tracks now (push now (purge now q)) (hist @ [now])"
  using assms by (intro tracks_push tracks_purge) (auto intro: purge_fresh)

end

section \<open>The arrays of the source as windows\<close>

lemma shift_expired_filter:
  "sorted ts \<Longrightarrow> shift_expired W now ts = filter (\<lambda>t. now - t < W) ts"
proof (induction ts)
  case (Cons t ts)
  show ?case
  proof (cases "now - t \<ge> W")
    case True
    with Cons show ?thesis by simp
  next
    case False
    with Cons.prems have "filter (\<lambda>t. now - t < W) ts = ts"
      by (intro filter_True) auto
    with False show ?thesis by simp
  qed
qed simp

interpretation gw: submit_window
  "shift_expired SUBMIT_RATE_WINDOW_MS" "\<lambda>now ts. ts @ [now]" id SUBMIT_RATE_WINDOW_MS SUBMIT_RATE_MAX_GLOBAL
  by unfold_locales (simp_all add: shift_expired_filter)

interpretation pw: submit_window
  "shift_expired PEER_SUBMIT_WINDOW_MS" "\<lambda>now ts. ts @ [now]" id PEER_SUBMIT_WINDOW_MS PEER_SUBMIT_MAX
  by unfold_locales (simp_all add: shift_expired_filter)

section \<open>The two budgets together\<close>

text \<open>The admitted submits of one peer.\<close>

definition of_peer :: "nat \<Rightarrow> (nat \<times> int) list \<Rightarrow> int list" where
  "of_peer i h = map snd (filter (\<lambda>(j, t). j = i) h)"

lemma of_peer_snoc [simp]: "of_peer i (h @ [(j, t)]) = of_peer i h @ (if j = i then [t] else [])"
  by (simp add: of_peer_def)

definition rate_ok :: "int \<Rightarrow> int list \<Rightarrow> (nat \<Rightarrow> int list) \<Rightarrow> (nat \<times> int) list \<Rightarrow> bool" where
  "rate_ok now g ps h \<longleftrightarrow> gw.tracks now g (map snd h) \<and> (\<forall>i. pw.tracks now (ps i) (of_peer i h))"

lemma rate_ok_start: "rate_ok now [] (\<lambda>_. []) []"
  by (simp add: rate_ok_def of_peer_def gw.tracks_start pw.tracks_start)

lemma rate_ok_later: "rate_ok now g ps h \<Longrightarrow> now \<le> now' \<Longrightarrow> rate_ok now' g ps h"
  by (auto simp: rate_ok_def intro: gw.tracks_later pw.tracks_later)

lemma rate_ok_submit:
  assumes ok: "rate_ok now g ps h" and call: "rateLimitedSubmit now g (ps i) = (limited, g', p')"
  shows "rate_ok now g' (ps(i := p')) (if limited then h else h @ [(i, now)])"
proof -
  let ?g = "shift_expired SUBMIT_RATE_WINDOW_MS now g"
  let ?p = "shift_expired PEER_SUBMIT_WINDOW_MS now (ps i)"
  from ok have g: "gw.tracks now g (map snd h)" and p: "pw.tracks now (ps i) (of_peer i h)"
    and others: "\<And>j. pw.tracks now (ps j) (of_peer j h)"
    by (auto simp: rate_ok_def)
  consider (full) "limited" "g' = ?g" "p' = ps i" | (peer) "limited" "g' = ?g" "p' = ?p"
    | (admit) "\<not> limited" "g' = ?g @ [now]" "p' = ?p @ [now]"
        "length ?g < SUBMIT_RATE_MAX_GLOBAL" "length ?p < PEER_SUBMIT_MAX"
    using call by (auto simp: rateLimitedSubmit_def Let_def split: if_splits)
  then show ?thesis
  proof cases
    case full
    with others gw.tracks_purge [OF g] show ?thesis by (simp add: rate_ok_def)
  next
    case peer
    with others gw.tracks_purge [OF g] pw.tracks_purge [OF p] show ?thesis by (simp add: rate_ok_def)
  next
    case admit
    have "gw.tracks now g' (map snd (h @ [(i, now)]))"
      using gw.tracks_admit [OF g] admit by (simp add: rate_consts)
    moreover have "pw.tracks now p' (of_peer i (h @ [(i, now)]))"
      using pw.tracks_admit [OF p] admit by (simp add: rate_consts)
    ultimately show ?thesis using others admit(1) by (simp add: rate_ok_def)
  qed
qed

lemma rate_run_ok:
  assumes "rate_ok now g ps h" and "sorted (map snd cs)" and "\<forall>c \<in> set cs. now \<le> snd c"
  shows "\<exists>now' g' ps'. rate_ok now' g' ps' (h @ rate_run cs g ps)"
  using assms
proof (induction cs arbitrary: now g ps h)
  case Nil
  then show ?case by auto
next
  case (Cons c cs)
  obtain i t where c: "c = (i, t)" by (cases c)
  obtain limited g' p' where call: "rateLimitedSubmit t g (ps i) = (limited, g', p')"
    by (cases "rateLimitedSubmit t g (ps i)")
  have "rate_ok t g ps h" using rate_ok_later [OF Cons.prems(1)] Cons.prems(3) c by simp
  then have "rate_ok t g' (ps(i := p')) (if limited then h else h @ [(i, t)])"
    using call by (rule rate_ok_submit)
  moreover from Cons.prems c have "sorted (map snd cs)" "\<forall>c \<in> set cs. t \<le> snd c" by auto
  ultimately have "\<exists>now' g'' ps''. rate_ok now' g'' ps''
      ((if limited then h else h @ [(i, t)]) @ rate_run cs g' (ps(i := p')))"
    by (rule Cons.IH)
  then show ?case using c call by (cases limited) simp_all
qed

end
