(* ===== verification/Proxy_Server.thy ===== *)
theory Proxy_Server
  imports Proxy_Job Proxy_Rate "HOL-Library.Sublist"
begin

text \<open>
  The stratum server of \<open>contrib/admin/current_proxy.js\<close>: connections, the data handler with both
  protocols, the asynchronous login, the refresh timer and the start-up job.

  The proxy runs on one event loop, so a handler runs to its end or to an \<open>await\<close> without
  interruption.  The state is the module's variables, a heap of minerInfo objects (closures keep
  them alive after the connection has left the \<open>miners\<close> map) and the suspended logins.  A handler
  is a computation that reads and changes the state, may raise, and records the observable
  actions: bytes written to a peer, sockets destroyed, RandomX hashes computed, blocks sent to the
  node.  PasswordOk records that a comparison with the shared secret succeeded.
\<close>

section \<open>State\<close>

datatype protocol = Xmrig | Stratum

record minerInfo =
  m_clientId :: string
  m_writable :: bool
  m_writableLength :: nat
  m_address :: jsval
  m_authorized :: bool
  m_protocol :: "protocol option"
  m_currentJobId :: "string option"
  m_extraNonce1 :: "string option"
  m_subscriptionId :: "string option"
  m_buffer :: string
  m_submitTimes :: "int list"

text \<open>
  \<open>miners\<close> is the JavaScript Map from client identifiers to objects, in insertion order;
  \<open>infos\<close> is the heap of minerInfo objects; \<open>pending\<close> holds, for each login waiting for its
  template, the object, the message identifier and the lines still to be handled.
  \<open>clock_reads\<close> and \<open>draws\<close> count the readings of Date.now() in rateLimitedSubmit and the calls
  of crypto.randomBytes.
\<close>

record proxy =
  jobCounter :: nat
  currentJob :: "job option"
  miners :: "(string \<times> nat) list"
  infos :: "minerInfo list"
  randomxVM :: "bytes option"
  globalSubmitTimes :: "int list"
  pending :: "(nat \<times> jsval \<times> string list) list"
  clock_reads :: nat
  draws :: nat

text \<open>The process environment: the shared secret, the clock, randomness and the packages.\<close>

record env =
  e_password :: string
  e_clock :: "nat \<Rightarrow> int"
  e_random :: "nat \<Rightarrow> nat \<Rightarrow> bytes"
  e_sha256 :: "bytes \<Rightarrow> bytes"
  e_blake2b :: "bytes \<Rightarrow> bytes"
  e_rx_ready :: "bytes \<Rightarrow> bool"
  e_rx_hash :: "bytes \<Rightarrow> bytes \<Rightarrow> bytes option"
  e_parse :: "string \<Rightarrow> jsval option"

datatype action =
    Wrote nat string
  | Destroyed nat
  | PasswordOk nat
  | Hashed nat int string
  | Submitted nat string
  | Unhandled js_error

definition MAX_INPUT_BUFFER :: nat where "MAX_INPUT_BUFFER = 1024 * 1024"
definition MAX_WRITABLE_BUFFER :: nat where "MAX_WRITABLE_BUFFER = 16 * 1024 * 1024"
definition MAX_CONNECTIONS :: nat where "MAX_CONNECTIONS = 32"

definition init_proxy :: proxy where
  "init_proxy = \<lparr>jobCounter = 0, currentJob = None, miners = [], infos = [], randomxVM = None,
     globalSubmitTimes = [], pending = [], clock_reads = 0, draws = 0\<rparr>"

section \<open>Computations\<close>

type_synonym 'a pm = "proxy \<Rightarrow> (js_error + 'a) \<times> proxy \<times> action list"

definition ret :: "'a \<Rightarrow> 'a pm" where
  "ret x = (\<lambda>s. (Inr x, s, []))"

definition lift :: "js_error + 'a \<Rightarrow> 'a pm" where
  "lift r = (\<lambda>s. (r, s, []))"

definition bnd :: "'a pm \<Rightarrow> ('a \<Rightarrow> 'b pm) \<Rightarrow> 'b pm" where
  "bnd m f = (\<lambda>s. case m s of
     (Inl e, s', a) \<Rightarrow> (Inl e, s', a)
   | (Inr x, s', a) \<Rightarrow> (case f x s' of (r, s'', b) \<Rightarrow> (r, s'', a @ b)))"

definition andthen :: "'a pm \<Rightarrow> 'b pm \<Rightarrow> 'b pm" where
  "andthen m k = bnd m (\<lambda>_. k)"

definition gets :: "(proxy \<Rightarrow> 'a) \<Rightarrow> 'a pm" where
  "gets f = (\<lambda>s. (Inr (f s), s, []))"

definition modify :: "(proxy \<Rightarrow> proxy) \<Rightarrow> unit pm" where
  "modify f = (\<lambda>s. (Inr (), f s, []))"

definition emit :: "action \<Rightarrow> unit pm" where
  "emit a = (\<lambda>s. (Inr (), s, [a]))"

text \<open>\<open>try { m } catch (e) { }\<close>\<close>

definition catch :: "unit pm \<Rightarrow> unit pm" where
  "catch m = (\<lambda>s. case m s of (_, s', a) \<Rightarrow> (Inr (), s', a))"

definition info :: "nat \<Rightarrow> minerInfo pm" where
  "info i = gets (\<lambda>s. infos s ! i)"

definition upd_info :: "nat \<Rightarrow> (minerInfo \<Rightarrow> minerInfo) \<Rightarrow> unit pm" where
  "upd_info i f = modify (\<lambda>s. s\<lparr>infos := (infos s)[i := f (infos s ! i)]\<rparr>)"

text \<open>A template literal in a log line converts its values to strings.\<close>

definition logv :: "jsval \<Rightarrow> unit pm" where
  "logv v = lift (ebind (js_ToString v) (\<lambda>_. Inr ()))"

text \<open>\<open>crypto.randomBytes(n).toString('hex')\<close>\<close>

definition random_hex :: "env \<Rightarrow> nat \<Rightarrow> string pm" where
  "random_hex env n = (\<lambda>s. (Inr (hexstr (e_random env (draws s) n)), s\<lparr>draws := Suc (draws s)\<rparr>, []))"

section \<open>Sockets\<close>

text \<open>\<open>socket.destroy()\<close>\<close>

definition destroy :: "nat \<Rightarrow> unit pm" where
  "destroy i = andthen (upd_info i (\<lambda>m. m\<lparr>m_writable := False\<rparr>)) (emit (Destroyed i))"

definition safeWrite :: "nat \<Rightarrow> string \<Rightarrow> unit pm" where
  "safeWrite i payload = bnd (info i) (\<lambda>m.
     if \<not> m_writable m then ret ()
     else if m_writableLength m + byteLength payload > MAX_WRITABLE_BUFFER then destroy i
     else andthen
       (upd_info i (\<lambda>m. m\<lparr>m_writableLength := m_writableLength m + byteLength payload\<rparr>))
       (emit (Wrote i payload)))"

section \<open>Rate limiting, hashing and jobs\<close>

text \<open>Whether the submit is refused, and the clock reading.\<close>

definition rate_limited :: "env \<Rightarrow> nat \<Rightarrow> (bool \<times> int) pm" where
  "rate_limited env i = (\<lambda>s.
     let now = e_clock env (clock_reads s) in
     case rateLimitedSubmit now (globalSubmitTimes s) (m_submitTimes (infos s ! i)) of
       (limited, g, p) \<Rightarrow>
         (Inr (limited, now),
          s\<lparr>clock_reads := Suc (clock_reads s), globalSubmitTimes := g,
            infos := (infos s)[i := (infos s ! i)\<lparr>m_submitTimes := p\<rparr>]\<rparr>, []))"

definition hash_random_x :: "env \<Rightarrow> nat \<Rightarrow> int \<Rightarrow> string \<Rightarrow> string option pm" where
  "hash_random_x env i now header112 = (\<lambda>s.
     (Inr (hashRandomX (e_rx_hash env) (randomxVM s) header112), s, [Hashed i now header112]))"

definition initRandomX :: "env \<Rightarrow> int \<Rightarrow> unit pm" where
  "initRandomX env epoch =
     (let seedBuffer = from_hex (getEpochSeedHash (e_sha256 env) epoch) in
      if e_rx_ready env seedBuffer then modify (\<lambda>s. s\<lparr>randomxVM := Some seedBuffer\<rparr>) else ret ())"

definition new_job :: "env \<Rightarrow> block_template \<Rightarrow> job pm" where
  "new_job env template =
     andthen (modify (\<lambda>s. s\<lparr>jobCounter := Suc (jobCounter s)\<rparr>))
       (\<lambda>s. (createRandomXJob (e_sha256 env) (jobCounter s) template, s, []))"

section \<open>Message handlers\<close>

datatype flow = Next | Await jsval

text \<open>
  The end of both submit branches: hash, compare, submit a block and answer.  A null commitment
  reads as the text null in the comparison.
\<close>

definition judge_share :: "env \<Rightarrow> nat \<Rightarrow> int \<Rightarrow> job \<Rightarrow> jsval \<Rightarrow> jsval \<Rightarrow> string \<Rightarrow> (bool \<Rightarrow> string) \<Rightarrow> flow pm" where
  "judge_share env i now job nonce ntime header112 respond =
     bnd (hash_random_x env i now header112) (\<lambda>h. case h of
       None \<Rightarrow> andthen (safeWrite i (respond False)) (ret Next)
     | Some rxHash \<Rightarrow>
         if rxHash = [] then andthen (safeWrite i (respond False)) (ret Next)
         else bnd (lift (calculateCommitment (e_blake2b env) rxHash header112)) (\<lambda>c.
         let commitment = (case c of None \<Rightarrow> ''null'' | Some c \<Rightarrow> c) in
         bnd (lift (compareHashToTarget rxHash (j_share_target job))) (\<lambda>isValidShare.
         bnd (lift (compareHashToTarget commitment (j_target job))) (\<lambda>isBlock.
         if isBlock then
           andthen (case submitBlockToNode job nonce ntime rxHash of
                      None \<Rightarrow> ret () | Some block \<Rightarrow> emit (Submitted i block))
             (andthen (safeWrite i (respond True)) (ret Next))
         else if isValidShare then andthen (safeWrite i (respond True)) (ret Next)
         else andthen (safeWrite i (respond False)) (ret Next)))))"

text \<open>\<open>typeof v === 'string' && /^[0-9a-fA-F]{8}$/.test(v)\<close>\<close>

definition hex8_string :: "jsval \<Rightarrow> bool" where
  "hex8_string v = (case v of JStr s \<Rightarrow> hexN 8 s | _ \<Rightarrow> False)"

definition refuse :: "nat \<Rightarrow> string \<Rightarrow> flow pm" where
  "refuse i payload = andthen (safeWrite i payload) (ret Next)"

text \<open>The comparison with the shared secret has succeeded; \<open>k\<close> is what follows.\<close>

definition secret_shown :: "nat \<Rightarrow> 'a pm \<Rightarrow> 'a pm" where
  "secret_shown i k = andthen (emit (PasswordOk i)) k"

text \<open>
  The xmrig branches.  A login with the right secret stops at \<open>await getBlockTemplate()\<close>; the rest
  of it is \<open>finish_login\<close>.
\<close>

definition xmrig_login :: "env \<Rightarrow> nat \<Rightarrow> jsval \<Rightarrow> jsval \<Rightarrow> flow pm" where
  "xmrig_login env i mid msg =
     bnd (lift (jget msg ''params'')) (\<lambda>params.
     if \<not> truthy params then refuse i (createXMRigSubmitResponse mid False)
     else bnd (lift (jget params ''password'')) (\<lambda>pw.
       if pw \<noteq> JStr (e_password env) then refuse i (createXMRigSubmitResponse mid False)
       else secret_shown i
         (bnd (lift (jget params ''login'')) (\<lambda>login.
          bnd (lift (jget params ''user'')) (\<lambda>user.
          andthen (upd_info i (\<lambda>m. m\<lparr>m_address := js_or login (js_or user (JStr ''unknown''))\<rparr>))
            (ret (Await mid)))))))"

definition finish_login :: "env \<Rightarrow> nat \<Rightarrow> jsval \<Rightarrow> block_template option \<Rightarrow> unit pm" where
  "finish_login env i mid template =
     (case template of
        None \<Rightarrow> safeWrite i (createXMRigSubmitResponse mid False)
      | Some t \<Rightarrow>
          bnd (random_hex env 4) (\<lambda>extraNonce1.
          bnd (new_job env t) (\<lambda>job.
          andthen (upd_info i (\<lambda>m. m\<lparr>m_currentJobId := Some (j_job_id job), m_extraNonce1 := Some extraNonce1\<rparr>))
          (andthen (modify (\<lambda>s. s\<lparr>currentJob := Some job\<rparr>))
          (andthen (safeWrite i (createXMRigLoginResponse mid extraNonce1 job))
          (andthen (upd_info i (\<lambda>m. m\<lparr>m_authorized := True\<rparr>))
          (bnd (info i) (\<lambda>m. logv (m_address m)))))))))"

definition xmrig_submit :: "env \<Rightarrow> nat \<Rightarrow> jsval \<Rightarrow> jsval \<Rightarrow> flow pm" where
  "xmrig_submit env i mid msg =
     bnd (info i) (\<lambda>m. if \<not> m_authorized m then ret Next else
     bnd (lift (jget msg ''params'')) (\<lambda>params.
     bnd (lift (jget params ''job_id'')) (\<lambda>jobId.
     bnd (lift (jget params ''nonce'')) (\<lambda>nonce.
     bnd (lift (jget params ''ntime'')) (\<lambda>ntime.
     bnd (gets currentJob) (\<lambda>cj.
     if cj = None \<or> JStr (j_job_id (the cj)) \<noteq> jobId
     then andthen (logv jobId) (refuse i (createXMRigSubmitResponse mid False))
     else bnd (rate_limited env i) (\<lambda>(limited, now).
       if limited then andthen (destroy i) (ret Next)
       else bnd (lift (buildHeader112 (the cj) nonce ntime)) (\<lambda>h. case h of
         None \<Rightarrow> refuse i (createXMRigSubmitResponse mid False)
       | Some header112 \<Rightarrow>
           judge_share env i now (the cj) nonce ntime header112 (createXMRigSubmitResponse mid)))))))))"

definition keepalive :: "nat \<Rightarrow> jsval \<Rightarrow> flow pm" where
  "keepalive i mid =
     refuse i (line (JObj [(''id'', mid), (''jsonrpc'', JStr ''2.0''), (''result'', JObj [])]))"

text \<open>The stratum branches.\<close>

definition stratum_subscribe :: "env \<Rightarrow> nat \<Rightarrow> jsval \<Rightarrow> flow pm" where
  "stratum_subscribe env i mid =
     bnd (random_hex env 4) (\<lambda>extraNonce1.
     andthen (upd_info i (\<lambda>m. m\<lparr>m_extraNonce1 := Some extraNonce1\<rparr>))
     (bnd (random_hex env 8) (\<lambda>sid.
      andthen (upd_info i (\<lambda>m. m\<lparr>m_subscriptionId := Some sid\<rparr>))
      (bnd (random_hex env 8) (\<lambda>subscriptionId.
       andthen (safeWrite i (createStratumSubscribeResponse subscriptionId mid extraNonce1))
         (ret Next))))))"

definition stratum_authorize :: "env \<Rightarrow> nat \<Rightarrow> jsval \<Rightarrow> jsval \<Rightarrow> flow pm" where
  "stratum_authorize env i mid msg =
     bnd (lift (jget msg ''params'')) (\<lambda>params.
     bnd (if truthy params then lift (jidx params 0) else ret JUndef) (\<lambda>p0.
     bnd (if truthy params then lift (jidx params 1) else ret JUndef) (\<lambda>p1.
     let workerName = (if truthy p0 then p0 else JStr ''unknown'');
         password = (if p1 \<noteq> JUndef then p1 else JNull) in
     if password \<noteq> JStr (e_password env) then
       andthen (logv workerName)
       (andthen (upd_info i (\<lambda>m. m\<lparr>m_address := workerName\<rparr>))
         (refuse i (createStratumAuthorizeResponse mid False)))
     else
       secret_shown i
       (andthen (upd_info i (\<lambda>m. m\<lparr>m_address := workerName\<rparr>))
       (andthen (upd_info i (\<lambda>m. m\<lparr>m_authorized := True\<rparr>))
       (andthen (safeWrite i (createStratumAuthorizeResponse mid True))
       (andthen (bnd (gets currentJob) (\<lambda>cj. case cj of None \<Rightarrow> ret ()
          | Some job \<Rightarrow> bnd (lift (createStratumJobNotify job)) (\<lambda>payload.
              andthen (safeWrite i payload)
                (upd_info i (\<lambda>m. m\<lparr>m_currentJobId := Some (j_job_id job)\<rparr>)))))
       (andthen (logv workerName) (ret Next))))))))) "

definition stratum_submit :: "env \<Rightarrow> nat \<Rightarrow> jsval \<Rightarrow> jsval \<Rightarrow> flow pm" where
  "stratum_submit env i mid msg =
     bnd (info i) (\<lambda>m. if \<not> m_authorized m then refuse i (createStratumSubmitResponse mid False) else
     bnd (lift (jget msg ''params'')) (\<lambda>params.
     bnd (lift (jidx params 1)) (\<lambda>jobId.
     bnd (lift (jidx params 3)) (\<lambda>ntime.
     bnd (lift (jidx params 4)) (\<lambda>nonce.
     bnd (gets currentJob) (\<lambda>cj.
     if cj = None \<or> JStr (j_job_id (the cj)) \<noteq> jobId
     then andthen (logv jobId) (refuse i (createStratumSubmitResponse mid False))
     else bnd (rate_limited env i) (\<lambda>(limited, now).
       if limited then andthen (destroy i) (ret Next)
       else if \<not> hex8_string nonce
       then andthen (logv nonce) (refuse i (createStratumSubmitResponse mid False))
       else if \<not> hex8_string ntime
       then andthen (logv ntime) (refuse i (createStratumSubmitResponse mid False))
       else bnd (lift (buildHeader112 (the cj) nonce ntime)) (\<lambda>h. case h of
         None \<Rightarrow> refuse i (createStratumSubmitResponse mid False)
       | Some header112 \<Rightarrow>
           judge_share env i now (the cj) nonce ntime header112 (createStratumSubmitResponse mid)))))))))"

text \<open>One parsed message.\<close>

definition handle_msg :: "env \<Rightarrow> nat \<Rightarrow> jsval \<Rightarrow> flow pm" where
  "handle_msg env i msg =
     bnd (lift (jget msg ''id'')) (\<lambda>mid0.
     let mid = (if mid0 \<noteq> JUndef then mid0 else JNull) in
     bnd (lift (jget msg ''method'')) (\<lambda>meth.
     andthen (upd_info i (\<lambda>m. if m_protocol m \<noteq> None then m
        else if meth = JStr ''login'' then m\<lparr>m_protocol := Some Xmrig\<rparr>
        else if meth = JStr ''mining.subscribe'' then m\<lparr>m_protocol := Some Stratum\<rparr>
        else m))
     (bnd (info i) (\<lambda>m. case m_protocol m of
        None \<Rightarrow> ret Next
      | Some Xmrig \<Rightarrow>
          if meth = JStr ''login'' then xmrig_login env i mid msg
          else if meth = JStr ''submit'' then xmrig_submit env i mid msg
          else if meth = JStr ''keepalived'' \<or> meth = JStr ''ping'' then keepalive i mid
          else ret Next
      | Some Stratum \<Rightarrow>
          if meth = JStr ''mining.subscribe'' then stratum_subscribe env i mid
          else if meth = JStr ''mining.authorize'' then stratum_authorize env i mid msg
          else if meth = JStr ''mining.submit'' then stratum_submit env i mid msg
          else ret Next))))"

section \<open>The data handler\<close>

definition is_space :: "char \<Rightarrow> bool" where
  "is_space c \<longleftrightarrow> of_char c \<in> {9, 10, 11, 12, 13, 32, 160 :: nat}"

definition trim :: "string \<Rightarrow> string" where
  "trim s = rev (dropWhile is_space (rev (dropWhile is_space s)))"

text \<open>\<open>s.split('\n')\<close>\<close>

fun split_nl :: "string \<Rightarrow> string list" where
  "split_nl [] = [[]]"
| "split_nl (c # s) = (if c = CHR 0x0A then [] # split_nl s
     else (case split_nl s of [] \<Rightarrow> [[c]] | l # ls \<Rightarrow> (c # l) # ls))"

text \<open>The loop over the complete lines; an \<open>await\<close> suspends it with the lines that are left.\<close>

fun handle_lines :: "env \<Rightarrow> nat \<Rightarrow> string list \<Rightarrow> unit pm" where
  "handle_lines env i [] = ret ()"
| "handle_lines env i (l # ls) =
     (if trim l = [] then handle_lines env i ls
      else case e_parse env (trim l) of
        None \<Rightarrow> handle_lines env i ls
      | Some msg \<Rightarrow> bnd (handle_msg env i msg) (\<lambda>fl. case fl of
          Next \<Rightarrow> handle_lines env i ls
        | Await mid \<Rightarrow> modify (\<lambda>s. s\<lparr>pending := pending s @ [(i, mid, ls)]\<rparr>)))"

definition on_data :: "env \<Rightarrow> nat \<Rightarrow> string \<Rightarrow> unit pm" where
  "on_data env i chunk = catch
     (andthen (upd_info i (\<lambda>m. m\<lparr>m_buffer := m_buffer m @ chunk\<rparr>))
     (bnd (info i) (\<lambda>m.
       if length (m_buffer m) > MAX_INPUT_BUFFER then destroy i
       else let lines = split_nl (m_buffer m) in
         andthen (upd_info i (\<lambda>m. m\<lparr>m_buffer := last lines\<rparr>)) (handle_lines env i (butlast lines)))))"

text \<open>The login at position \<open>k\<close> gets its template and goes on with its remaining lines.\<close>

definition on_template :: "env \<Rightarrow> nat \<Rightarrow> block_template option \<Rightarrow> unit pm" where
  "on_template env k template =
     bnd (gets (\<lambda>s. pending s ! k)) (\<lambda>(i, mid, ls).
     andthen (modify (\<lambda>s. s\<lparr>pending := take k (pending s) @ drop (Suc k) (pending s)\<rparr>))
       (catch (andthen (finish_login env i mid template) (handle_lines env i ls))))"

section \<open>Connections, start-up and the refresh timer\<close>

text \<open>A refused connection has no minerInfo; its destroyed socket leaves no trace in the state.\<close>

definition on_connect :: "string \<Rightarrow> unit pm" where
  "on_connect clientId = bnd (gets (\<lambda>s. length (miners s))) (\<lambda>n.
     if n \<ge> MAX_CONNECTIONS then ret ()
     else modify (\<lambda>s. s\<lparr>
       infos := infos s @ [\<lparr>m_clientId = clientId, m_writable = True, m_writableLength = 0,
         m_address = JNull, m_authorized = False, m_protocol = None, m_currentJobId = None,
         m_extraNonce1 = None, m_subscriptionId = None, m_buffer = [], m_submitTimes = []\<rparr>],
       miners := AList.update clientId (length (infos s)) (miners s)\<rparr>))"

definition on_close :: "nat \<Rightarrow> unit pm" where
  "on_close i = bnd (info i) (\<lambda>m.
     modify (\<lambda>s. s\<lparr>miners := AList.delete (m_clientId m) (miners s)\<rparr>))"

text \<open>A rejection of the asynchronous callbacks below is not handled anywhere.\<close>

definition unhandled :: "unit pm \<Rightarrow> unit pm" where
  "unhandled m = (\<lambda>s. case m s of
     (Inl e, s', a) \<Rightarrow> (Inr (), s', a @ [Unhandled e]) | (Inr x, s', a) \<Rightarrow> (Inr (), s', a))"

definition on_startup :: "env \<Rightarrow> block_template option \<Rightarrow> unit pm" where
  "on_startup env template = unhandled (case template of None \<Rightarrow> ret ()
     | Some t \<Rightarrow> bnd (new_job env t) (\<lambda>job.
         andthen (modify (\<lambda>s. s\<lparr>currentJob := Some job\<rparr>)) (initRandomX env (j_epoch job))))"

definition notify :: "job \<Rightarrow> nat \<Rightarrow> unit pm" where
  "notify job i = bnd (info i) (\<lambda>m.
     if m_authorized m \<and> m_writable m then
       catch (andthen (case m_protocol m of
           Some Xmrig \<Rightarrow> safeWrite i (createXMRigJobNotify job)
         | Some Stratum \<Rightarrow> bnd (lift (createStratumJobNotify job)) (\<lambda>payload. safeWrite i payload)
         | None \<Rightarrow> ret ())
         (upd_info i (\<lambda>m. m\<lparr>m_currentJobId := Some (j_job_id job)\<rparr>)))
     else ret ())"

fun broadcast :: "job \<Rightarrow> nat list \<Rightarrow> unit pm" where
  "broadcast job [] = ret ()"
| "broadcast job (i # is) = andthen (notify job i) (broadcast job is)"

definition on_tick :: "env \<Rightarrow> block_template option \<Rightarrow> unit pm" where
  "on_tick env template = unhandled (case template of None \<Rightarrow> ret ()
     | Some t \<Rightarrow> bnd (new_job env t) (\<lambda>job.
         bnd (gets currentJob) (\<lambda>cj.
         andthen (case cj of None \<Rightarrow> ret ()
             | Some c \<Rightarrow> if j_epoch c \<noteq> j_epoch job then initRandomX env (j_epoch job) else ret ())
         (andthen (modify (\<lambda>s. s\<lparr>currentJob := Some job\<rparr>))
         (bnd (gets (\<lambda>s. map snd (miners s))) (\<lambda>is. broadcast job is))))))"

section \<open>Events\<close>

text \<open>
  Drain says that the peer has read \<open>n\<close> bytes.  A destroyed socket delivers no data.
\<close>

datatype event =
    Connect string
  | Data nat string
  | Template nat "block_template option"
  | IdleTimeout nat
  | Close nat
  | Drain nat nat
  | Startup "block_template option"
  | Tick "block_template option"

fun enabled :: "proxy \<Rightarrow> event \<Rightarrow> bool" where
  "enabled s (Data i _) = (i < length (infos s) \<and> m_writable (infos s ! i))"
| "enabled s (Template k _) = (k < length (pending s))"
| "enabled s (IdleTimeout i) = (i < length (infos s))"
| "enabled s (Close i) = (i < length (infos s))"
| "enabled s (Drain i n) = (i < length (infos s) \<and> n \<le> m_writableLength (infos s ! i))"
| "enabled s _ = True"

fun on_event :: "env \<Rightarrow> event \<Rightarrow> unit pm" where
  "on_event env (Connect clientId) = on_connect clientId"
| "on_event env (Data i chunk) = on_data env i chunk"
| "on_event env (Template k t) = on_template env k t"
| "on_event env (IdleTimeout i) = destroy i"
| "on_event env (Close i) = on_close i"
| "on_event env (Drain i n) = upd_info i (\<lambda>m. m\<lparr>m_writableLength := m_writableLength m - n\<rparr>)"
| "on_event env (Startup t) = on_startup env t"
| "on_event env (Tick t) = on_tick env t"

inductive proxy_run :: "env \<Rightarrow> proxy \<Rightarrow> action list \<Rightarrow> bool" for env where
  run_start: "proxy_run env init_proxy []"
| run_step: "proxy_run env s tr \<Longrightarrow> enabled s ev \<Longrightarrow> on_event env ev s = (r, s', acts) \<Longrightarrow>
    proxy_run env s' (tr @ acts)"

end
