(* ===== verification/Proxy_Safety.thy ===== *)
theory Proxy_Safety
  imports Proxy_Server
begin

text \<open>
  Safety of the stratum server: a small program logic for the computations of \<open>Proxy_Server\<close>, the
  invariant of every run, one preservation lemma per operation, and the invariant's consequences
  for runs.
\<close>

section \<open>A logic for the computations\<close>

type_synonym assn = "proxy \<Rightarrow> action list \<Rightarrow> bool"

text \<open>From states and traces satisfying \<open>P\<close>, \<open>m\<close> ends in \<open>I\<close>, whether it returns or raises.\<close>

definition leads :: "assn \<Rightarrow> 'a pm \<Rightarrow> assn \<Rightarrow> bool" where
  "leads P m I \<longleftrightarrow> (\<forall>s tr. P s tr \<longrightarrow> (case m s of (r, s', a) \<Rightarrow> I s' (tr @ a)))"

abbreviation keeps :: "assn \<Rightarrow> 'a pm \<Rightarrow> bool" where
  "keeps I m \<equiv> leads I m I"

named_theorems keeps_rules \<open>preservation lemmas of the operations\<close>

lemma leadsI: "(\<And>s tr r s' a. P s tr \<Longrightarrow> m s = (r, s', a) \<Longrightarrow> I s' (tr @ a)) \<Longrightarrow> leads P m I"
  by (auto simp: leads_def split: prod.split)

lemma leadsD: "leads P m I \<Longrightarrow> P s tr \<Longrightarrow> m s = (r, s', a) \<Longrightarrow> I s' (tr @ a)"
  by (force simp: leads_def)

lemma leads_weaken: "leads P m I \<Longrightarrow> (\<And>s tr. P' s tr \<Longrightarrow> P s tr) \<Longrightarrow> leads P' m I"
  by (auto simp: leads_def)

lemma keeps_ret [keeps_rules]: "keeps I (ret x)"
  by (auto simp: leads_def ret_def)

lemma keeps_lift [keeps_rules]: "keeps I (lift r)"
  by (auto simp: leads_def lift_def)

lemma keeps_gets [keeps_rules]: "keeps I (gets f)"
  by (auto simp: leads_def gets_def)

lemma keeps_info [keeps_rules]: "keeps I (info i)"
  by (auto simp: leads_def info_def gets_def)

lemma leads_bnd:
  assumes "leads P m I" and "\<And>x. keeps I (f x)"
  shows "leads P (bnd m f) I"
proof (rule leadsI)
  fix s tr r s' a
  assume P: "P s tr" and run: "bnd m f s = (r, s', a)"
  obtain r1 s1 a1 where m: "m s = (r1, s1, a1)" by (cases "m s")
  from assms(1) P m have I1: "I s1 (tr @ a1)" by (rule leadsD)
  show "I s' (tr @ a)"
  proof (cases r1)
    case (Inl e)
    with run m I1 show ?thesis by (simp add: bnd_def)
  next
    case (Inr x)
    obtain r2 s2 a2 where f: "f x s1 = (r2, s2, a2)" by (cases "f x s1")
    from assms(2) I1 f have "I s2 ((tr @ a1) @ a2)" by (rule leadsD)
    with run m Inr f show ?thesis by (simp add: bnd_def)
  qed
qed

lemmas keeps_bnd [keeps_rules] = leads_bnd [where P = I and I = I for I]

lemma keeps_andthen [keeps_rules]: "keeps I m \<Longrightarrow> keeps I k \<Longrightarrow> keeps I (andthen m k)"
  unfolding andthen_def by (rule keeps_bnd)

lemma keeps_if [keeps_rules]: "keeps I m \<Longrightarrow> keeps I k \<Longrightarrow> keeps I (if b then m else k)"
  by simp

lemma keeps_option [keeps_rules]:
  "keeps I n \<Longrightarrow> (\<And>x. keeps I (f x)) \<Longrightarrow> keeps I (case v of None \<Rightarrow> n | Some x \<Rightarrow> f x)"
  by (cases v) simp_all

lemma keeps_catch [keeps_rules]: "leads P m I \<Longrightarrow> leads P (catch m) I"
  by (auto simp: leads_def catch_def split: prod.splits)

lemma keeps_logv [keeps_rules]: "keeps I (logv v)"
  unfolding logv_def by (rule keeps_lift)

text \<open>A computation without effect, then one that may start from its result.\<close>

lemma leads_lift_bnd:
  "(\<And>s tr. P s tr \<Longrightarrow> I s tr) \<Longrightarrow> (\<And>x. leads P (f x) I) \<Longrightarrow> leads P (bnd (lift r) f) I"
  by (cases r) (auto simp: leads_def bnd_def lift_def split: prod.splits)

lemma leads_gets_bnd:
  "(\<And>x. leads (\<lambda>s tr. P s tr \<and> x = f s) (k x) I) \<Longrightarrow> leads P (bnd (gets f) k) I"
  by (auto simp: leads_def bnd_def gets_def split: prod.splits)

section \<open>The invariant\<close>

fun performer :: "action \<Rightarrow> nat option" where
  "performer (Hashed i _ _) = Some i"
| "performer (Submitted i _) = Some i"
| "performer _ = None"

text \<open>Work done for a miner comes after the miner has shown the secret.\<close>

definition secured :: "action list \<Rightarrow> bool" where
  "secured tr \<longleftrightarrow> (\<forall>xs a ys i. tr = xs @ a # ys \<longrightarrow> performer a = Some i \<longrightarrow> PasswordOk i \<in> set xs)"

fun hashes :: "action list \<Rightarrow> (nat \<times> int) list" where
  "hashes [] = []"
| "hashes (Hashed i t _ # tr) = (i, t) # hashes tr"
| "hashes (_ # tr) = hashes tr"

definition peer_times :: "minerInfo list \<Rightarrow> nat \<Rightarrow> int list" where
  "peer_times ms = (\<lambda>i. if i < length ms then m_submitTimes (ms ! i) else [])"

text \<open>
  The budgets hold for a history \<open>h\<close> of admitted submits, and no clock reading still to come is
  before the last one.  The invariant asks for this when the clock never goes back, with every
  hash of the trace in the history.
\<close>

definition rate_part :: "env \<Rightarrow> proxy \<Rightarrow> (nat \<times> int) list \<Rightarrow> bool" where
  "rate_part env s h \<longleftrightarrow> (\<exists>now. rate_ok now (globalSubmitTimes s) (peer_times (infos s)) h \<and>
     (\<forall>k \<ge> clock_reads s. now \<le> e_clock env k))"

definition proxy_inv :: "env \<Rightarrow> nat set \<Rightarrow> assn" where
  "proxy_inv env S s tr \<longleftrightarrow>
     (\<forall>i \<in> S. i < length (infos s)) \<and>
     distinct (map fst (miners s)) \<and> length (miners s) \<le> MAX_CONNECTIONS \<and>
     (\<forall>p \<in> set (miners s). snd p < length (infos s)) \<and>
     (\<forall>p \<in> set (pending s). fst p < length (infos s) \<and> PasswordOk (fst p) \<in> set tr) \<and>
     (\<forall>m \<in> set (infos s). m_writableLength m \<le> MAX_WRITABLE_BUFFER) \<and>
     (\<forall>i < length (infos s). m_authorized (infos s ! i) \<longrightarrow> PasswordOk i \<in> set tr) \<and>
     secured tr \<and>
     (mono (e_clock env) \<longrightarrow> (\<exists>h. rate_part env s h \<and> subseq (hashes tr) h))"

text \<open>The same, where miner \<open>i\<close> has shown the secret.\<close>

definition authed :: "env \<Rightarrow> nat set \<Rightarrow> nat \<Rightarrow> assn" where
  "authed env S i s tr \<longleftrightarrow> proxy_inv env S s tr \<and> PasswordOk i \<in> set tr"

text \<open>The same, where a submit of miner \<open>i\<close> admitted at \<open>now\<close> has not been hashed yet.\<close>

definition admitted :: "env \<Rightarrow> nat set \<Rightarrow> nat \<Rightarrow> int \<Rightarrow> assn" where
  "admitted env S i now s tr \<longleftrightarrow> authed env S i s tr \<and>
     (mono (e_clock env) \<longrightarrow> (\<exists>h. rate_part env s (h @ [(i, now)]) \<and> subseq (hashes tr) h))"

section \<open>Traces\<close>

lemma hashes_append [simp]: "hashes (xs @ ys) = hashes xs @ hashes ys"
  by (induction xs rule: hashes.induct) simp_all

lemma secured_Nil [simp]: "secured []"
  by (simp add: secured_def)

lemma secured_snoc [simp]:
  "secured (tr @ [a]) \<longleftrightarrow> secured tr \<and> (\<forall>i. performer a = Some i \<longrightarrow> PasswordOk i \<in> set tr)"
proof
  assume "secured (tr @ [a])"
  then show "secured tr \<and> (\<forall>i. performer a = Some i \<longrightarrow> PasswordOk i \<in> set tr)"
    unfolding secured_def by (metis append_Cons append_assoc)
next
  assume h: "secured tr \<and> (\<forall>i. performer a = Some i \<longrightarrow> PasswordOk i \<in> set tr)"
  show "secured (tr @ [a])" unfolding secured_def
  proof (intro allI impI)
    fix xs b ys i
    assume "tr @ [a] = xs @ b # ys" and "performer b = Some i"
    with h show "PasswordOk i \<in> set xs"
      by (cases ys rule: rev_cases) (auto simp: secured_def)
  qed
qed

section \<open>Preservation, operation by operation\<close>

lemma proxy_inv_emit:
  assumes "proxy_inv env S s tr" and "performer a = None"
  shows "proxy_inv env S s (tr @ [a])"
proof -
  have "hashes [a] = []" using assms(2) by (cases a) simp_all
  with assms show ?thesis by (auto simp: proxy_inv_def rate_part_def)
qed

lemma keeps_emit: "performer a = None \<Longrightarrow> keeps (proxy_inv env S) (emit a)"
  by (auto simp: leads_def emit_def proxy_inv_emit)

lemma keeps_emit_simple [keeps_rules]:
  "keeps (proxy_inv env S) (emit (Wrote i p))" "keeps (proxy_inv env S) (emit (Destroyed i))"
  "keeps (proxy_inv env S) (emit (PasswordOk i))" "keeps (proxy_inv env S) (emit (Unhandled e))"
  by (simp_all add: keeps_emit)

text \<open>Fields the invariant does not read.\<close>

lemma keeps_modify_simple [keeps_rules]:
  "keeps (proxy_inv env S) (modify (\<lambda>s. s\<lparr>currentJob := f s\<rparr>))"
  "keeps (proxy_inv env S) (modify (\<lambda>s. s\<lparr>jobCounter := n s\<rparr>))"
  "keeps (proxy_inv env S) (modify (\<lambda>s. s\<lparr>randomxVM := v s\<rparr>))"
  by (simp_all add: leads_def modify_def proxy_inv_def rate_part_def)

lemma keeps_random_hex [keeps_rules]: "keeps (proxy_inv env S) (random_hex env n)"
  by (simp add: leads_def random_hex_def proxy_inv_def rate_part_def)

text \<open>An update of a minerInfo that authorizes only with leave and keeps the write budget.\<close>

definition mild :: "(minerInfo \<Rightarrow> minerInfo) \<Rightarrow> bool" where
  "mild f \<longleftrightarrow> (\<forall>m. m_submitTimes (f m) = m_submitTimes m \<and>
     (m_writableLength m \<le> MAX_WRITABLE_BUFFER \<longrightarrow> m_writableLength (f m) \<le> MAX_WRITABLE_BUFFER))"

lemma proxy_inv_upd:
  assumes inv: "proxy_inv env S s tr" and f: "m_submitTimes (f (infos s ! i)) = m_submitTimes (infos s ! i)"
    and w: "i < length (infos s) \<Longrightarrow> m_writableLength (f (infos s ! i)) \<le> MAX_WRITABLE_BUFFER"
    and auth: "m_authorized (f (infos s ! i)) \<Longrightarrow> m_authorized (infos s ! i) \<or> PasswordOk i \<in> set tr"
  shows "proxy_inv env S (s\<lparr>infos := (infos s)[i := f (infos s ! i)]\<rparr>) tr"
proof (cases "i < length (infos s)")
  case True
  let ?s = "s\<lparr>infos := (infos s)[i := f (infos s ! i)]\<rparr>"
  have "peer_times (infos ?s) = peer_times (infos s)"
    using True f by (auto simp: peer_times_def nth_list_update)
  moreover have "\<forall>m \<in> set (infos ?s). m_writableLength m \<le> MAX_WRITABLE_BUFFER"
    using inv w [OF True] set_update_subset_insert [of "infos s" i "f (infos s ! i)"]
    by (auto simp: proxy_inv_def)
  moreover have "\<forall>j < length (infos ?s). m_authorized (infos ?s ! j) \<longrightarrow> PasswordOk j \<in> set tr"
    using inv auth True by (auto simp: proxy_inv_def nth_list_update)
  ultimately show ?thesis using inv by (simp add: proxy_inv_def rate_part_def)
next
  case False
  then show ?thesis using inv by (simp add: list_update_beyond)
qed

lemma keeps_upd_info:
  assumes "mild f" and "\<And>m. m_authorized (f m) = m_authorized m" and "i \<in> S"
  shows "keeps (proxy_inv env S) (upd_info i f)"
proof (rule leadsI)
  fix s tr r s' a
  assume inv: "proxy_inv env S s tr" and run: "upd_info i f s = (r, s', a)"
  have w: "i < length (infos s) \<Longrightarrow> m_writableLength (f (infos s ! i)) \<le> MAX_WRITABLE_BUFFER"
    using inv assms(1) by (auto simp: mild_def proxy_inv_def)
  have "proxy_inv env S (s\<lparr>infos := (infos s)[i := f (infos s ! i)]\<rparr>) tr"
    by (rule proxy_inv_upd [where f = f and i = i, OF inv _ w]) (use assms in \<open>simp_all add: mild_def\<close>)
  with run show "proxy_inv env S s' (tr @ a)" by (auto simp: upd_info_def modify_def)
qed

lemma keeps_upd_simple [keeps_rules]:
  assumes "i \<in> S"
  shows "keeps (proxy_inv env S) (upd_info i (\<lambda>m. m\<lparr>m_writable := b\<rparr>))"
    "keeps (proxy_inv env S) (upd_info i (\<lambda>m. m\<lparr>m_address := v\<rparr>))"
    "keeps (proxy_inv env S) (upd_info i (\<lambda>m. m\<lparr>m_currentJobId := j\<rparr>))"
    "keeps (proxy_inv env S) (upd_info i (\<lambda>m. m\<lparr>m_extraNonce1 := x\<rparr>))"
    "keeps (proxy_inv env S) (upd_info i (\<lambda>m. m\<lparr>m_subscriptionId := y\<rparr>))"
    "keeps (proxy_inv env S) (upd_info i (\<lambda>m. m\<lparr>m_currentJobId := j, m_extraNonce1 := x\<rparr>))"
    "keeps (proxy_inv env S) (upd_info i (\<lambda>m. m\<lparr>m_buffer := g m\<rparr>))"
    "keeps (proxy_inv env S) (upd_info i (\<lambda>m. m\<lparr>m_writableLength := m_writableLength m - n\<rparr>))"
    "keeps (proxy_inv env S) (upd_info i (\<lambda>m. if m_protocol m \<noteq> None then m
        else if c then m\<lparr>m_protocol := p\<rparr> else if d then m\<lparr>m_protocol := q\<rparr> else m))"
  using assms by (auto intro!: keeps_upd_info simp: mild_def split: if_splits)

lemma keeps_destroy [keeps_rules]: "i \<in> S \<Longrightarrow> keeps (proxy_inv env S) (destroy i)"
  unfolding destroy_def by (intro keeps_rules)

lemma keeps_safeWrite [keeps_rules]:
  assumes "i \<in> S"
  shows "keeps (proxy_inv env S) (safeWrite i payload)"
proof (rule leadsI)
  fix s tr r s' a
  assume inv: "proxy_inv env S s tr" and run: "safeWrite i payload s = (r, s', a)"
  let ?m = "infos s ! i" and ?f = "\<lambda>m. m\<lparr>m_writableLength := m_writableLength m + byteLength payload\<rparr>"
  consider (closed) "\<not> m_writable ?m" | (over) "m_writable ?m" "m_writableLength ?m + byteLength payload > MAX_WRITABLE_BUFFER"
    | (ok) "m_writable ?m" "m_writableLength ?m + byteLength payload \<le> MAX_WRITABLE_BUFFER"
    by linarith
  then show "proxy_inv env S s' (tr @ a)"
  proof cases
    case closed
    with run inv show ?thesis by (simp add: safeWrite_def bnd_def info_def gets_def ret_def)
  next
    case over
    with run have "destroy i s = (r, s', a)"
      by (simp add: safeWrite_def bnd_def info_def gets_def split: prod.splits)
    with keeps_destroy [OF assms] inv show ?thesis by (rule leadsD)
  next
    case ok
    have "proxy_inv env S (s\<lparr>infos := (infos s)[i := ?f ?m]\<rparr>) tr"
      by (rule proxy_inv_upd [where f = ?f and i = i, OF inv]) (use ok in simp_all)
    then have "proxy_inv env S (s\<lparr>infos := (infos s)[i := ?f ?m]\<rparr>) (tr @ [Wrote i payload])"
      by (rule proxy_inv_emit) simp
    with ok run show ?thesis
      by (simp add: safeWrite_def bnd_def info_def gets_def andthen_def upd_info_def modify_def emit_def)
  qed
qed

lemma keeps_refuse [keeps_rules]: "i \<in> S \<Longrightarrow> keeps (proxy_inv env S) (refuse i payload)"
  unfolding refuse_def by (intro keeps_rules)

lemma keeps_initRandomX [keeps_rules]: "keeps (proxy_inv env S) (initRandomX env e)"
  unfolding initRandomX_def Let_def by (intro keeps_rules)

lemma keeps_pure: "(\<And>s. \<exists>r. m s = (r, s, [])) \<Longrightarrow> keeps I m"
  by (metis append_Nil2 leadsI prod.inject)

lemma keeps_new_job [keeps_rules]: "keeps (proxy_inv env S) (new_job env t)"
  unfolding new_job_def by (intro keeps_rules keeps_pure) auto

text \<open>Whatever keeps the invariant keeps it together with the secret having been shown.\<close>

lemma authed_of_inv: "keeps (proxy_inv env S) m \<Longrightarrow> keeps (authed env S i) m"
  by (auto simp: leads_def authed_def split: prod.splits)

lemma leads_password [keeps_rules]:
  assumes "leads (authed env S i) k (proxy_inv env S)"
  shows "keeps (proxy_inv env S) (secret_shown i k)"
proof (rule leadsI)
  fix s tr r s' a
  assume inv: "proxy_inv env S s tr" and run: "secret_shown i k s = (r, s', a)"
  obtain r1 s1 a1 where k: "k s = (r1, s1, a1)" by (cases "k s")
  have "authed env S i s (tr @ [PasswordOk i])"
    using inv by (simp add: authed_def proxy_inv_emit)
  with assms have "proxy_inv env S s1 ((tr @ [PasswordOk i]) @ a1)" using k by (rule leadsD)
  with run k show "proxy_inv env S s' (tr @ a)" by (simp add: secret_shown_def andthen_def bnd_def emit_def)
qed

lemma authed_weaken: "keeps (authed env S i) m \<Longrightarrow> leads (authed env S i) m (proxy_inv env S)"
  by (auto simp: leads_def authed_def split: prod.splits)

lemma keeps_authorize:
  assumes "i \<in> S"
  shows "keeps (authed env S i) (upd_info i (\<lambda>m. m\<lparr>m_authorized := True\<rparr>))"
proof (rule leadsI)
  fix s tr r s' a
  assume h: "authed env S i s tr" and run: "upd_info i (\<lambda>m. m\<lparr>m_authorized := True\<rparr>) s = (r, s', a)"
  let ?f = "\<lambda>m. m\<lparr>m_authorized := True\<rparr>"
  from h have inv: "proxy_inv env S s tr" by (simp add: authed_def)
  then have w: "i < length (infos s) \<Longrightarrow> m_writableLength (?f (infos s ! i)) \<le> MAX_WRITABLE_BUFFER"
    by (auto simp: proxy_inv_def)
  have "proxy_inv env S (s\<lparr>infos := (infos s)[i := ?f (infos s ! i)]\<rparr>) tr"
    by (rule proxy_inv_upd [where f = ?f and i = i, OF inv _ w]) (use h in \<open>simp_all add: authed_def\<close>)
  with run h show "authed env S i s' (tr @ a)" by (auto simp: upd_info_def modify_def authed_def)
qed

text \<open>Admission by the rate limiter, and the hash that uses it up.\<close>

lemma rate_part_submit:
  assumes rp: "rate_part env s h" and i: "i < length (infos s)" and clk: "mono (e_clock env)"
    and run: "rate_limited env i s = (Inr (limited, now), s', [])"
  shows "rate_part env s' (if limited then h else h @ [(i, now)])"
proof -
  let ?t = "e_clock env (clock_reads s)"
  obtain g p where call: "rateLimitedSubmit ?t (globalSubmitTimes s) (peer_times (infos s) i) = (limited, g, p)"
    and s': "s' = s\<lparr>clock_reads := Suc (clock_reads s), globalSubmitTimes := g,
            infos := (infos s)[i := (infos s ! i)\<lparr>m_submitTimes := p\<rparr>]\<rparr>" and now: "now = ?t"
    using run i by (auto simp: rate_limited_def peer_times_def Let_def split: prod.splits)
  from rp have "rate_ok ?t (globalSubmitTimes s) (peer_times (infos s)) h"
    by (auto simp: rate_part_def intro: rate_ok_later)
  then have "rate_ok ?t g ((peer_times (infos s))(i := p)) (if limited then h else h @ [(i, ?t)])"
    using call by (rule rate_ok_submit)
  moreover have "peer_times (infos s') = (peer_times (infos s))(i := p)"
    using s' i by (auto simp: peer_times_def nth_list_update)
  moreover have "?t \<le> e_clock env k" if "k \<ge> clock_reads s'" for k
    using that s' by (intro monoD [OF clk]) simp
  ultimately show ?thesis using s' now by (auto simp: rate_part_def)
qed

lemma rate_limited_returns: "\<exists>limited now s'. rate_limited env i s = (Inr (limited, now), s', [])"
  by (auto simp: rate_limited_def Let_def split: prod.splits)

lemma proxy_inv_rate:
  assumes inv: "proxy_inv env S s tr" and i: "i \<in> S"
    and run: "rate_limited env i s = (Inr (limited, now), s', [])"
  shows "proxy_inv env S s' tr"
    and "\<not> limited \<Longrightarrow> mono (e_clock env) \<Longrightarrow>
      \<exists>h. rate_part env s' (h @ [(i, now)]) \<and> subseq (hashes tr) h"
proof -
  from inv i have len: "i < length (infos s)" by (simp add: proxy_inv_def)
  obtain g p where s': "s' = s\<lparr>clock_reads := Suc (clock_reads s), globalSubmitTimes := g,
            infos := (infos s)[i := (infos s ! i)\<lparr>m_submitTimes := p\<rparr>]\<rparr>"
    using run by (auto simp: rate_limited_def Let_def split: prod.splits)
  have rate: "\<exists>h. rate_part env s' (if limited then h else h @ [(i, now)]) \<and> subseq (hashes tr) h"
    if clk: "mono (e_clock env)"
  proof -
    from inv clk obtain h where "rate_part env s h" "subseq (hashes tr) h"
      by (auto simp: proxy_inv_def)
    with rate_part_submit [OF _ len clk run] show ?thesis by blast
  qed
  then have "\<exists>h. rate_part env s' h \<and> subseq (hashes tr) h" if "mono (e_clock env)"
    using that by (auto intro: subseq_rev_drop_many split: if_splits)
  moreover have "\<forall>m \<in> set (infos s'). m_writableLength m \<le> MAX_WRITABLE_BUFFER"
    using inv len s' set_update_subset_insert [of "infos s" i "(infos s ! i)\<lparr>m_submitTimes := p\<rparr>"]
    by (auto simp: proxy_inv_def)
  moreover have "m_authorized (infos s' ! j) = m_authorized (infos s ! j)" for j
    using s' len by (cases "i = j") simp_all
  ultimately show "proxy_inv env S s' tr" using inv s' by (simp add: proxy_inv_def)
  show "\<not> limited \<Longrightarrow> mono (e_clock env) \<Longrightarrow>
      \<exists>h. rate_part env s' (h @ [(i, now)]) \<and> subseq (hashes tr) h"
    using rate by auto
qed

lemma leads_rate:
  assumes i: "i \<in> S" and lim: "keeps (authed env S i) a"
    and adm: "\<And>now. leads (admitted env S i now) (k now) (authed env S i)"
  shows "keeps (authed env S i)
    (bnd (rate_limited env i) (\<lambda>(limited, now). if limited then a else k now))"
proof (rule leadsI)
  fix s tr r s2 acts
  assume h: "authed env S i s tr"
    and run: "bnd (rate_limited env i) (\<lambda>(limited, now). if limited then a else k now) s = (r, s2, acts)"
  obtain limited now s' where rl: "rate_limited env i s = (Inr (limited, now), s', [])"
    using rate_limited_returns by blast
  from h have inv: "proxy_inv env S s tr" by (simp add: authed_def)
  note pres = proxy_inv_rate [OF inv i rl]
  from pres(1) h have authed': "authed env S i s' tr" by (simp add: authed_def)
  show "authed env S i s2 (tr @ acts)"
  proof (cases limited)
    case True
    with run rl have "a s' = (r, s2, acts)" by (auto simp: bnd_def split: prod.splits)
    with lim authed' show ?thesis by (rule leadsD)
  next
    case False
    with run rl have "k now s' = (r, s2, acts)" by (auto simp: bnd_def split: prod.splits)
    moreover have "admitted env S i now s' tr"
      using authed' pres(2) False by (auto simp: admitted_def)
    ultimately show ?thesis using adm leadsD by blast
  qed
qed

lemma admitted_authed: "admitted env S i now s tr \<Longrightarrow> authed env S i s tr"
  by (simp add: admitted_def)

lemma leads_admitted:
  "keeps (authed env S i) m \<Longrightarrow> leads (admitted env S i now) m (authed env S i)"
  using leads_weaken admitted_authed by blast

lemma leads_hash:
  assumes "\<And>x. keeps (authed env S i) (f x)"
  shows "leads (admitted env S i now) (bnd (hash_random_x env i now header112) f) (authed env S i)"
proof (rule leads_bnd [OF leadsI assms])
  fix s tr r s' a
  assume h: "admitted env S i now s tr" and run: "hash_random_x env i now header112 s = (r, s', a)"
  from h have inv: "proxy_inv env S s tr" and pw: "PasswordOk i \<in> set tr"
    by (simp_all add: admitted_def authed_def)
  have "\<exists>h. rate_part env s h \<and> subseq (hashes tr @ [(i, now)]) h" if "mono (e_clock env)"
    using h that by (auto simp: admitted_def intro: list_emb_append_mono)
  with inv pw have "proxy_inv env S s (tr @ [Hashed i now header112])"
    by (auto simp: proxy_inv_def)
  with run pw show "authed env S i s' (tr @ a)" by (auto simp: hash_random_x_def authed_def)
qed

section \<open>Preservation by the handlers\<close>

lemma keeps_submitted: "keeps (authed env S i) (emit (Submitted i b))"
  by (auto simp: leads_def emit_def authed_def proxy_inv_def rate_part_def)

text \<open>A submit is looked at only for an authorized miner, who has shown the secret.\<close>

lemma keeps_authorized_only:
  assumes i: "i \<in> S" and no: "keeps (proxy_inv env S) a" and yes: "keeps (authed env S i) k"
  shows "keeps (proxy_inv env S) (bnd (info i) (\<lambda>m. if \<not> m_authorized m then a else k))"
proof (rule leadsI)
  fix s tr r s' acts
  assume inv: "proxy_inv env S s tr"
    and run: "bnd (info i) (\<lambda>m. if \<not> m_authorized m then a else k) s = (r, s', acts)"
  show "proxy_inv env S s' (tr @ acts)"
  proof (cases "m_authorized (infos s ! i)")
    case True
    with inv i have "authed env S i s tr" by (auto simp: authed_def proxy_inv_def)
    moreover from run True have "k s = (r, s', acts)"
      by (auto simp: bnd_def info_def gets_def split: prod.splits)
    ultimately show ?thesis using leadsD [OF yes] by (auto simp: authed_def)
  next
    case False
    with run have "a s = (r, s', acts)"
      by (auto simp: bnd_def info_def gets_def split: prod.splits)
    with no inv show ?thesis by (rule leadsD)
  qed
qed

lemma leads_judge:
  assumes "i \<in> S"
  shows "leads (admitted env S i now) (judge_share env i now job nonce ntime header112 respond) (authed env S i)"
  unfolding judge_share_def Let_def
  by (intro leads_hash keeps_option keeps_if keeps_bnd keeps_andthen keeps_lift keeps_ret
      keeps_submitted authed_of_inv [OF keeps_safeWrite] assms)

lemma leads_header:
  assumes "i \<in> S"
  shows "leads (admitted env S i now)
    (bnd (lift x) (\<lambda>h. case h of None \<Rightarrow> refuse i p
       | Some header112 \<Rightarrow> judge_share env i now job nonce ntime header112 respond)) (authed env S i)"
proof (rule leads_lift_bnd [OF admitted_authed])
  fix h :: "string option"
  show "leads (admitted env S i now) (case h of None \<Rightarrow> refuse i p
       | Some header112 \<Rightarrow> judge_share env i now job nonce ntime header112 respond) (authed env S i)"
    using leads_judge [OF assms] leads_admitted [OF authed_of_inv [OF keeps_refuse [OF assms]]]
    by (cases h) simp_all
qed

lemmas authed_rules = keeps_if keeps_bnd keeps_andthen keeps_lift keeps_ret keeps_gets keeps_logv
  keeps_option authed_of_inv [OF keeps_safeWrite] authed_of_inv [OF keeps_refuse]
  authed_of_inv [OF keeps_destroy]

lemma leads_admitted_if:
  "leads P m I \<Longrightarrow> leads P k I \<Longrightarrow> leads P (if b then m else k) I"
  by simp

lemma leads_refuse_admitted:
  "i \<in> S \<Longrightarrow> leads (admitted env S i now) (andthen (logv v) (refuse i p)) (authed env S i)"
  by (intro leads_admitted authed_rules)

lemma keeps_xmrig_submit [keeps_rules]:
  "i \<in> S \<Longrightarrow> keeps (proxy_inv env S) (xmrig_submit env i mid msg)"
  unfolding xmrig_submit_def
  by (intro keeps_authorized_only keeps_ret authed_rules leads_rate leads_header)

lemma keeps_stratum_submit [keeps_rules]:
  "i \<in> S \<Longrightarrow> keeps (proxy_inv env S) (stratum_submit env i mid msg)"
  unfolding stratum_submit_def
  by (intro keeps_authorized_only keeps_refuse authed_rules leads_rate leads_header
      leads_admitted_if leads_refuse_admitted)

lemma keeps_keepalive [keeps_rules]: "i \<in> S \<Longrightarrow> keeps (proxy_inv env S) (keepalive i mid)"
  unfolding keepalive_def by (intro keeps_rules)

lemma keeps_stratum_subscribe [keeps_rules]:
  "i \<in> S \<Longrightarrow> keeps (proxy_inv env S) (stratum_subscribe env i mid)"
  unfolding stratum_subscribe_def by (intro keeps_rules)

lemma keeps_stratum_authorize [keeps_rules]:
  "i \<in> S \<Longrightarrow> keeps (proxy_inv env S) (stratum_authorize env i mid msg)"
  unfolding stratum_authorize_def Let_def
  by (intro keeps_bnd keeps_lift keeps_if keeps_ret keeps_andthen keeps_logv keeps_upd_simple(2)
      keeps_refuse leads_password authed_weaken keeps_authorize authed_rules
      authed_of_inv [OF keeps_upd_simple(2)] authed_of_inv [OF keeps_upd_simple(3)])

lemma keeps_finish_login:
  "i \<in> S \<Longrightarrow> keeps (authed env S i) (finish_login env i mid t)"
  unfolding finish_login_def
  by (intro authed_rules authed_of_inv [OF keeps_upd_simple(6)] keeps_authorize keeps_info
      authed_of_inv [OF keeps_random_hex] authed_of_inv [OF keeps_new_job]
      authed_of_inv [OF keeps_modify_simple(1)])

text \<open>A login that waits for its template has shown the secret.\<close>

definition awaits :: "env \<Rightarrow> nat set \<Rightarrow> nat \<Rightarrow> flow pm \<Rightarrow> bool" where
  "awaits env S i m \<longleftrightarrow> keeps (proxy_inv env S) m \<and>
     (\<forall>s tr s' a mid. proxy_inv env S s tr \<longrightarrow> m s = (Inr (Await mid), s', a) \<longrightarrow> PasswordOk i \<in> set (tr @ a))"

lemma awaits_never:
  assumes "keeps (proxy_inv env S) m" and "\<And>s s' a mid. m s \<noteq> (Inr (Await mid), s', a)"
  shows "awaits env S i m"
  using assms by (simp add: awaits_def)

text \<open>Computations whose only value is Next.\<close>

definition only_next :: "flow pm \<Rightarrow> bool" where
  "only_next m \<longleftrightarrow> (\<forall>s r s' a. m s = (Inr r, s', a) \<longrightarrow> r = Next)"

lemma only_next_ret: "only_next (ret Next)"
  by (simp add: only_next_def ret_def)

lemma only_next_bnd: "(\<And>x. only_next (f x)) \<Longrightarrow> only_next (bnd m f)"
  by (fastforce simp: only_next_def bnd_def split: prod.splits sum.splits)

lemma only_next_andthen: "only_next k \<Longrightarrow> only_next (andthen m k)"
  unfolding andthen_def by (rule only_next_bnd)

lemma only_next_secret: "only_next k \<Longrightarrow> only_next (secret_shown i k)"
  unfolding secret_shown_def by (rule only_next_andthen)

lemma only_next_if: "only_next a \<Longrightarrow> only_next b \<Longrightarrow> only_next (if c then a else b)"
  by simp

lemma only_next_option:
  "only_next n \<Longrightarrow> (\<And>x. only_next (f x)) \<Longrightarrow> only_next (case v of None \<Rightarrow> n | Some x \<Rightarrow> f x)"
  by (cases v) simp_all

lemma only_next_refuse: "only_next (refuse i p)"
  unfolding refuse_def by (intro only_next_andthen only_next_ret)

lemma only_next_prod: "(\<And>a b. only_next (f a b)) \<Longrightarrow> only_next (case p of (a, b) \<Rightarrow> f a b)"
  by (cases p) simp

lemmas only_next_rules = only_next_ret only_next_secret only_next_andthen only_next_if only_next_option
  only_next_refuse only_next_prod only_next_bnd

lemma only_next_handlers:
  "only_next (judge_share env i now job nonce ntime h respond)"
  "only_next (xmrig_submit env i mid msg)" "only_next (stratum_submit env i mid msg)"
  "only_next (keepalive i mid)" "only_next (stratum_subscribe env i mid)"
  "only_next (stratum_authorize env i mid msg)"
proof -
  show j: "only_next (judge_share env i now job nonce ntime h respond)"
    for now job nonce ntime h respond
    unfolding judge_share_def Let_def by (intro only_next_rules)
  show "only_next (xmrig_submit env i mid msg)" "only_next (stratum_submit env i mid msg)"
    unfolding xmrig_submit_def stratum_submit_def by (intro only_next_rules j)+
  show "only_next (keepalive i mid)" "only_next (stratum_subscribe env i mid)"
    "only_next (stratum_authorize env i mid msg)"
    unfolding keepalive_def stratum_subscribe_def stratum_authorize_def Let_def
    by (intro only_next_rules)+
qed

lemma awaits_only_next: "keeps (proxy_inv env S) m \<Longrightarrow> only_next m \<Longrightarrow> awaits env S i m"
  by (rule awaits_never) (auto simp: only_next_def)

lemma awaits_bnd:
  assumes "keeps (proxy_inv env S) m" and "\<And>x. awaits env S i (f x)"
  shows "awaits env S i (bnd m f)"
  unfolding awaits_def
proof (intro conjI allI impI)
  show "keeps (proxy_inv env S) (bnd m f)"
    using assms by (intro keeps_bnd) (simp_all add: awaits_def)
next
  fix s tr s' a mid
  assume inv: "proxy_inv env S s tr" and run: "bnd m f s = (Inr (Await mid), s', a)"
  obtain r1 s1 a1 where m: "m s = (r1, s1, a1)" by (cases "m s")
  with run obtain x a2 where x: "r1 = Inr x" "f x s1 = (Inr (Await mid), s', a2)" "a = a1 @ a2"
    by (auto simp: bnd_def split: sum.splits prod.splits)
  from assms(1) inv m have "proxy_inv env S s1 (tr @ a1)" by (rule leadsD)
  with assms(2) [of x] x(2) have "PasswordOk i \<in> set ((tr @ a1) @ a2)"
    unfolding awaits_def by blast
  with x(3) show "PasswordOk i \<in> set (tr @ a)" by simp
qed

lemma awaits_andthen:
  "keeps (proxy_inv env S) m \<Longrightarrow> awaits env S i k \<Longrightarrow> awaits env S i (andthen m k)"
  unfolding andthen_def by (rule awaits_bnd)

lemma awaits_if: "awaits env S i a \<Longrightarrow> awaits env S i b \<Longrightarrow> awaits env S i (if c then a else b)"
  by simp

lemma awaits_option:
  "awaits env S i n \<Longrightarrow> (\<And>x. awaits env S i (f x)) \<Longrightarrow>
     awaits env S i (case v of None \<Rightarrow> n | Some x \<Rightarrow> f x)"
  by (cases v) simp_all

lemma awaits_protocol:
  "awaits env S i a \<Longrightarrow> awaits env S i b \<Longrightarrow> awaits env S i (case p of Xmrig \<Rightarrow> a | Stratum \<Rightarrow> b)"
  by (cases p) simp_all

lemma awaits_secret:
  assumes "keeps (authed env S i) k"
  shows "awaits env S i (secret_shown i k)"
  using leads_password [OF authed_weaken [OF assms]]
  by (auto simp: awaits_def secret_shown_def andthen_def bnd_def emit_def split: prod.splits)

lemma awaits_xmrig_login: "i \<in> S \<Longrightarrow> awaits env S i (xmrig_login env i mid msg)"
  unfolding xmrig_login_def
  by (intro awaits_bnd keeps_lift awaits_if awaits_secret authed_rules
      awaits_only_next [OF keeps_refuse only_next_refuse] authed_of_inv [OF keeps_upd_simple(2)])

lemma awaits_handle_msg:
  assumes "i \<in> S"
  shows "awaits env S i (handle_msg env i msg)"
  unfolding handle_msg_def Let_def
  by (intro awaits_bnd awaits_andthen keeps_lift keeps_info keeps_upd_simple(9) awaits_option
      awaits_protocol awaits_if awaits_xmrig_login assms awaits_only_next [OF keeps_ret only_next_ret]
      awaits_only_next [OF keeps_xmrig_submit only_next_handlers(2)]
      awaits_only_next [OF keeps_stratum_submit only_next_handlers(3)]
      awaits_only_next [OF keeps_keepalive only_next_handlers(4)]
      awaits_only_next [OF keeps_stratum_subscribe only_next_handlers(5)]
      awaits_only_next [OF keeps_stratum_authorize only_next_handlers(6)])

lemma keeps_suspend:
  assumes aw: "awaits env S i m" and k: "keeps (proxy_inv env S) k" and i: "i \<in> S"
  shows "keeps (proxy_inv env S) (bnd m (\<lambda>fl. case fl of Next \<Rightarrow> k
    | Await mid \<Rightarrow> modify (\<lambda>s. s\<lparr>pending := pending s @ [(i, mid, ls)]\<rparr>)))"
proof (rule leadsI)
  fix s tr r s' a
  assume inv: "proxy_inv env S s tr"
    and run: "bnd m (\<lambda>fl. case fl of Next \<Rightarrow> k
      | Await mid \<Rightarrow> modify (\<lambda>s. s\<lparr>pending := pending s @ [(i, mid, ls)]\<rparr>)) s = (r, s', a)"
  obtain r1 s1 a1 where m: "m s = (r1, s1, a1)" by (cases "m s")
  from aw inv m have inv1: "proxy_inv env S s1 (tr @ a1)"
    unfolding awaits_def by (blast intro: leadsD)
  consider (raise) e where "r1 = Inl e" | (go) "r1 = Inr Next" | (await) mid where "r1 = Inr (Await mid)"
    by (metis flow.exhaust sum.exhaust)
  then show "proxy_inv env S s' (tr @ a)"
  proof cases
    case raise
    with run m inv1 show ?thesis by (simp add: bnd_def)
  next
    case go
    obtain r2 s2 a2 where k2: "k s1 = (r2, s2, a2)" by (cases "k s1")
    from k inv1 k2 have "proxy_inv env S s2 ((tr @ a1) @ a2)" by (rule leadsD)
    with go run m k2 show ?thesis by (simp add: bnd_def)
  next
    case (await mid)
    with aw inv m have "PasswordOk i \<in> set (tr @ a1)" unfolding awaits_def by blast
    with inv1 i have "proxy_inv env S (s1\<lparr>pending := pending s1 @ [(i, mid, ls)]\<rparr>) (tr @ a1)"
      by (auto simp: proxy_inv_def rate_part_def)
    with await run m show ?thesis by (simp add: bnd_def modify_def)
  qed
qed

lemma keeps_handle_lines: "i \<in> S \<Longrightarrow> keeps (proxy_inv env S) (handle_lines env i ls)"
proof (induction ls)
  case (Cons l ls)
  show ?case
  proof (cases "trim l = []")
    case False
    with Cons show ?thesis
      by (cases "e_parse env (trim l)") (simp_all add: keeps_suspend awaits_handle_msg)
  qed (use Cons in simp)
qed (simp add: keeps_ret)

lemma keeps_on_data: "i \<in> S \<Longrightarrow> keeps (proxy_inv env S) (on_data env i chunk)"
  unfolding on_data_def Let_def
  by (intro keeps_catch keeps_andthen keeps_bnd keeps_info keeps_if keeps_upd_simple(7) keeps_destroy
      keeps_handle_lines)

section \<open>Preservation by events\<close>

lemma proxy_inv_refs:
  "proxy_inv env S s tr \<longleftrightarrow> proxy_inv env {} s tr \<and> (\<forall>i \<in> S. i < length (infos s))"
  by (auto simp: proxy_inv_def)

lemma keeps_at:
  assumes "keeps (proxy_inv env {i}) m" and "proxy_inv env {} s tr" and "i < length (infos s)"
    and "m s = (r, s', a)"
  shows "proxy_inv env {} s' (tr @ a)"
proof -
  have "proxy_inv env {i} s tr" using assms(2,3) proxy_inv_refs by blast
  with assms(1) have "proxy_inv env {i} s' (tr @ a)" using assms(4) by (rule leadsD)
  then show ?thesis using proxy_inv_refs by blast
qed

lemma proxy_inv_template:
  assumes inv: "proxy_inv env {} s tr" and k: "k < length (pending s)"
    and run: "on_template env k t s = (r, s', a)"
  shows "proxy_inv env {} s' (tr @ a)"
proof -
  obtain i mid ls where p: "pending s ! k = (i, mid, ls)" by (cases "pending s ! k")
  with k have mem: "(i, mid, ls) \<in> set (pending s)" by (metis nth_mem)
  let ?s = "s\<lparr>pending := take k (pending s) @ drop (Suc k) (pending s)\<rparr>"
  let ?m = "catch (andthen (finish_login env i mid t) (handle_lines env i ls))"
  have sub: "set (take k (pending s) @ drop (Suc k) (pending s)) \<subseteq> set (pending s)"
    by (auto dest: in_set_takeD in_set_dropD)
  have pend: "\<forall>p \<in> set (pending s). fst p < length (infos s) \<and> PasswordOk (fst p) \<in> set tr"
    using inv by (simp add: proxy_inv_def)
  then have i: "i < length (infos s)" "PasswordOk i \<in> set tr" using mem by auto
  from pend sub have "\<forall>p \<in> set (pending ?s). fst p < length (infos s) \<and> PasswordOk (fst p) \<in> set tr"
    by auto
  with i inv have "authed env {i} i ?s tr"
    by (simp add: authed_def proxy_inv_def rate_part_def)
  moreover have "keeps (authed env {i} i) ?m"
    by (intro keeps_catch keeps_andthen keeps_finish_login authed_of_inv keeps_handle_lines singletonI)
  moreover have "?m ?s = (r, s', a)"
    using run p by (auto simp: on_template_def bnd_def andthen_def gets_def modify_def split: prod.splits)
  ultimately have "authed env {i} i s' (tr @ a)" using leadsD by blast
  then have "proxy_inv env {i} s' (tr @ a)" by (simp add: authed_def)
  then show ?thesis using proxy_inv_refs by blast
qed

lemma length_AList_update:
  "length (AList.update k v al) \<le> Suc (length al)"
  by (induction al) auto

lemma set_AList_update: "set (AList.update k v al) \<subseteq> insert (k, v) (set al)"
  by (induction al) auto

lemma length_AList_delete: "length (AList.delete k al) \<le> length al"
  by (simp add: AList.delete_eq)

lemma keeps_on_connect: "keeps (proxy_inv env {}) (on_connect c)"
proof (rule leadsI)
  fix s tr r s' a
  assume inv: "proxy_inv env {} s tr" and run: "on_connect c s = (r, s', a)"
  show "proxy_inv env {} s' (tr @ a)"
  proof (cases "length (miners s) \<ge> MAX_CONNECTIONS")
    case True
    with run inv show ?thesis by (simp add: on_connect_def bnd_def gets_def ret_def)
  next
    case False
    let ?al = "AList.update c (length (infos s)) (miners s)"
    obtain m where s': "s' = s\<lparr>infos := infos s @ [m], miners := ?al\<rparr>" and a: "a = []"
      and m: "\<not> m_authorized m" "m_writableLength m = 0" "m_submitTimes m = []"
      using False run by (auto simp: on_connect_def bnd_def gets_def modify_def)
    have "peer_times (infos s') = peer_times (infos s)"
      using s' m by (auto simp: peer_times_def nth_append fun_eq_iff)
    moreover have "length ?al \<le> MAX_CONNECTIONS"
      using False length_AList_update [of c "length (infos s)" "miners s"] by simp
    moreover have "\<forall>p \<in> set ?al. snd p < length (infos s')"
      using inv s' set_AList_update [of c "length (infos s)" "miners s"]
      by (fastforce simp: proxy_inv_def)
    moreover have "\<forall>i < length (infos s'). m_authorized (infos s' ! i) \<longrightarrow> PasswordOk i \<in> set tr"
      using inv s' m by (auto simp: proxy_inv_def nth_append less_Suc_eq)
    ultimately show ?thesis
      using inv s' a m by (auto simp: proxy_inv_def rate_part_def distinct_update)
  qed
qed

lemma keeps_on_close: "keeps (proxy_inv env S) (on_close i)"
proof (rule leadsI)
  fix s tr r s' a
  assume inv: "proxy_inv env S s tr" and run: "on_close i s = (r, s', a)"
  let ?al = "AList.delete (m_clientId (infos s ! i)) (miners s)"
  have s': "s' = s\<lparr>miners := ?al\<rparr>" "a = []"
    using run by (auto simp: on_close_def bnd_def info_def gets_def modify_def)
  have "set ?al \<subseteq> set (miners s)" by (auto simp: AList.delete_eq)
  moreover have "length ?al \<le> MAX_CONNECTIONS"
    using inv length_AList_delete [of "m_clientId (infos s ! i)" "miners s"] by (simp add: proxy_inv_def)
  ultimately show "proxy_inv env S s' (tr @ a)"
    using inv s' by (auto simp: proxy_inv_def rate_part_def distinct_delete)
qed

lemma keeps_unhandled: "keeps (proxy_inv env S) m \<Longrightarrow> keeps (proxy_inv env S) (unhandled m)"
proof (rule leadsI)
  fix s tr r s' a
  assume m: "keeps (proxy_inv env S) m" and inv: "proxy_inv env S s tr" and run: "unhandled m s = (r, s', a)"
  obtain r1 s1 a1 where run1: "m s = (r1, s1, a1)" by (cases "m s")
  from m inv run1 have inv1: "proxy_inv env S s1 (tr @ a1)" by (rule leadsD)
  show "proxy_inv env S s' (tr @ a)"
  proof (cases r1)
    case (Inl e)
    with run run1 have "s' = s1" "tr @ a = (tr @ a1) @ [Unhandled e]"
      by (auto simp: unhandled_def)
    with proxy_inv_emit [OF inv1, of "Unhandled e"] show ?thesis by simp
  next
    case (Inr x)
    with run run1 inv1 show ?thesis by (auto simp: unhandled_def)
  qed
qed

lemma keeps_notify: "i \<in> S \<Longrightarrow> keeps (proxy_inv env S) (notify job i)"
proof -
  assume i: "i \<in> S"
  have p: "keeps (proxy_inv env S) (case q of
           Some Xmrig \<Rightarrow> safeWrite i (createXMRigJobNotify job)
         | Some Stratum \<Rightarrow> bnd (lift (createStratumJobNotify job)) (\<lambda>payload. safeWrite i payload)
         | None \<Rightarrow> ret ())" for q
    by (cases q; cases "the q") (simp_all add: keeps_ret keeps_bnd keeps_lift keeps_safeWrite i)
  show ?thesis unfolding notify_def
    by (intro keeps_bnd keeps_info keeps_if keeps_catch keeps_andthen keeps_ret p keeps_upd_simple(3) i)
qed

lemma keeps_broadcast: "set is \<subseteq> S \<Longrightarrow> keeps (proxy_inv env S) (broadcast job is)"
  by (induction "is") (simp_all add: keeps_ret keeps_andthen keeps_notify)

lemma keeps_broadcast_all:
  "keeps (proxy_inv env {}) (bnd (gets (\<lambda>s. map snd (miners s))) (\<lambda>is. broadcast job is))"
proof (rule leads_gets_bnd, rule leadsI)
  fix "is" s tr r s' a
  assume h: "proxy_inv env {} s tr \<and> is = map snd (miners s)" and run: "broadcast job is s = (r, s', a)"
  then have "proxy_inv env (set is) s tr" by (auto simp: proxy_inv_def)
  with keeps_broadcast [OF order_refl] have "proxy_inv env (set is) s' (tr @ a)"
    using run by (rule leadsD)
  then show "proxy_inv env {} s' (tr @ a)" using proxy_inv_refs by blast
qed

lemma keeps_on_startup: "keeps (proxy_inv env S) (on_startup env t)"
  unfolding on_startup_def
  by (intro keeps_unhandled keeps_option keeps_ret keeps_bnd keeps_new_job keeps_andthen
      keeps_modify_simple(1) keeps_initRandomX)

lemma keeps_on_tick: "keeps (proxy_inv env {}) (on_tick env t)"
  unfolding on_tick_def
  by (intro keeps_unhandled keeps_option keeps_ret keeps_bnd [OF keeps_new_job] keeps_andthen
      keeps_modify_simple(1) keeps_initRandomX keeps_if keeps_bnd [OF keeps_gets] keeps_broadcast_all)

lemma on_event_inv:
  assumes inv: "proxy_inv env {} s tr" and en: "enabled s ev" and run: "on_event env ev s = (r, s', a)"
  shows "proxy_inv env {} s' (tr @ a)"
proof (cases ev)
  case (Connect c)
  with run keeps_on_connect inv show ?thesis by (auto intro: leadsD)
next
  case (Data i c)
  with run en show ?thesis using keeps_at [OF keeps_on_data inv] by auto
next
  case (Template k t)
  with run en show ?thesis using proxy_inv_template [OF inv] by auto
next
  case (IdleTimeout i)
  with run en show ?thesis using keeps_at [OF keeps_destroy inv] by auto
next
  case (Close i)
  with run keeps_on_close inv show ?thesis by (auto intro: leadsD)
next
  case (Drain i n)
  with run en show ?thesis using keeps_at [OF keeps_upd_simple(8) inv] by auto
next
  case (Startup t)
  with run keeps_on_startup inv show ?thesis by (auto intro: leadsD)
next
  case (Tick t)
  with run keeps_on_tick inv show ?thesis by (auto intro: leadsD)
qed

lemma init_proxy_inv: "proxy_inv env {} init_proxy []"
proof -
  have pt: "peer_times [] = (\<lambda>_. [])" by (simp add: peer_times_def)
  have "rate_part env init_proxy []" if "mono (e_clock env)"
  proof -
    have "\<forall>k \<ge> 0. e_clock env 0 \<le> e_clock env k" using that by (simp add: monoD)
    with rate_ok_start [of "e_clock env 0"] pt show ?thesis
      by (auto simp: rate_part_def init_proxy_def)
  qed
  then show ?thesis by (auto simp: proxy_inv_def init_proxy_def MAX_CONNECTIONS_def)
qed

text \<open>The invariant holds in every state the server reaches.\<close>

lemma proxy_run_inv: "proxy_run env s tr \<Longrightarrow> proxy_inv env {} s tr"
proof (induction rule: proxy_run.induct)
  case run_start
  show ?case by (rule init_proxy_inv)
next
  case (run_step s tr ev r s' acts)
  then show ?case by (blast intro: on_event_inv)
qed

end
