(* ===== verification/Proxy_Claims.thy ===== *)
theory Proxy_Claims
  imports Proxy_Safety
begin

text \<open>
  What the invariant of the mining proxy gives for every run of the server: who may cause work, how
  much work, and how large the server's state grows.
\<close>

section \<open>Computations that show no secret\<close>

text \<open>\<open>m\<close> records no successful comparison with the shared secret.\<close>

definition quiet :: "'a pm \<Rightarrow> bool" where
  "quiet m \<longleftrightarrow> (\<forall>s r s' a i. m s = (r, s', a) \<longrightarrow> PasswordOk i \<notin> set a)"

named_theorems quiet_rules

lemma quiet_basic [quiet_rules]:
  "quiet (ret x)" "quiet (lift r)" "quiet (gets f)" "quiet (modify g)" "quiet (info i)" "quiet (logv v)"
  "quiet (upd_info i h)" "quiet (random_hex env n)" "quiet (hash_random_x env i now hdr)"
  "quiet (emit (Wrote i p))" "quiet (emit (Destroyed i))" "quiet (emit (Submitted i b))"
  by (auto simp: quiet_def ret_def lift_def gets_def modify_def info_def logv_def upd_info_def
      random_hex_def hash_random_x_def emit_def)

lemma quiet_bnd [quiet_rules]: "quiet m \<Longrightarrow> (\<And>x. quiet (f x)) \<Longrightarrow> quiet (bnd m f)"
  by (fastforce simp: quiet_def bnd_def split: prod.splits sum.splits)

lemma quiet_andthen [quiet_rules]: "quiet m \<Longrightarrow> quiet k \<Longrightarrow> quiet (andthen m k)"
  unfolding andthen_def by (rule quiet_bnd)

lemma quiet_if [quiet_rules]:
  "(c \<Longrightarrow> quiet a) \<Longrightarrow> (\<not> c \<Longrightarrow> quiet b) \<Longrightarrow> quiet (if c then a else b)"
  by simp

lemma quiet_option [quiet_rules]:
  "quiet n \<Longrightarrow> (\<And>x. quiet (f x)) \<Longrightarrow> quiet (case v of None \<Rightarrow> n | Some x \<Rightarrow> f x)"
  by (cases v) simp_all

lemma quiet_prod [quiet_rules]: "(\<And>a b. quiet (f a b)) \<Longrightarrow> quiet (case p of (a, b) \<Rightarrow> f a b)"
  by (cases p) simp

lemma quiet_protocol [quiet_rules]:
  "quiet a \<Longrightarrow> quiet b \<Longrightarrow> quiet (case p of Xmrig \<Rightarrow> a | Stratum \<Rightarrow> b)"
  by (cases p) simp_all

lemma quiet_flow [quiet_rules]:
  "quiet a \<Longrightarrow> (\<And>x. quiet (f x)) \<Longrightarrow> quiet (case fl of Next \<Rightarrow> a | Await x \<Rightarrow> f x)"
  by (cases fl) simp_all

lemma quiet_catch [quiet_rules]: "quiet m \<Longrightarrow> quiet (catch m)"
  by (auto simp: quiet_def catch_def split: prod.splits)

lemma quiet_unhandled [quiet_rules]: "quiet m \<Longrightarrow> quiet (unhandled m)"
  by (fastforce simp: quiet_def unhandled_def split: prod.splits sum.splits)

lemma quiet_ops [quiet_rules]:
  "quiet (destroy i)" "quiet (safeWrite i p)" "quiet (refuse i p)" "quiet (rate_limited env i)"
  "quiet (initRandomX env e)" "quiet (new_job env t)"
proof -
  show d: "quiet (destroy i)" unfolding destroy_def by (intro quiet_rules)
  show w: "quiet (safeWrite i p)" unfolding safeWrite_def by (intro quiet_rules d)
  show "quiet (refuse i p)" unfolding refuse_def by (intro quiet_rules w)
  show "quiet (rate_limited env i)"
    by (auto simp: quiet_def rate_limited_def Let_def split: prod.splits)
  show "quiet (initRandomX env e)" unfolding initRandomX_def Let_def by (intro quiet_rules)
  show "quiet (new_job env t)" unfolding new_job_def
    by (intro quiet_rules) (simp add: quiet_def)
qed

text \<open>Whether a message carries the shared secret where one of the two protocols looks for it.\<close>

definition carries_secret :: "env \<Rightarrow> jsval \<Rightarrow> bool" where
  "carries_secret env msg \<longleftrightarrow> (\<exists>params. jget msg ''params'' = Inr params \<and>
     (jget params ''password'' = Inr (JStr (e_password env)) \<or>
      jidx params 1 = Inr (JStr (e_password env))))"

lemma quiet_lift_bnd: "(\<And>x. r = Inr x \<Longrightarrow> quiet (f x)) \<Longrightarrow> quiet (bnd (lift r) f)"
  by (cases r) (fastforce simp: quiet_def bnd_def lift_def split: prod.splits)+

lemma quiet_handlers:
  "quiet (judge_share env i now job nonce ntime h respond)"
  "quiet (xmrig_submit env i mid msg)" "quiet (stratum_submit env i mid msg)"
  "quiet (keepalive i mid)" "quiet (stratum_subscribe env i mid)" "quiet (finish_login env i mid t)"
proof -
  show j: "quiet (judge_share env i now job nonce ntime h respond)" for now job nonce ntime h respond
    unfolding judge_share_def Let_def by (intro quiet_rules)
  show "quiet (xmrig_submit env i mid msg)" "quiet (stratum_submit env i mid msg)"
    unfolding xmrig_submit_def stratum_submit_def by (intro quiet_rules j)+
  show "quiet (keepalive i mid)" "quiet (stratum_subscribe env i mid)" "quiet (finish_login env i mid t)"
    unfolding keepalive_def stratum_subscribe_def finish_login_def by (intro quiet_rules)+
qed

lemma quiet_xmrig_login: "\<not> carries_secret env msg \<Longrightarrow> quiet (xmrig_login env i mid msg)"
  unfolding xmrig_login_def
  by (intro quiet_lift_bnd quiet_if) (auto simp: carries_secret_def intro: quiet_rules)

lemma lift_if: "(if c then lift r else ret x) = lift (if c then r else Inr x)"
  by (simp add: lift_def ret_def)

lemma quiet_stratum_authorize:
  assumes "\<not> carries_secret env msg"
  shows "quiet (stratum_authorize env i mid msg)"
  unfolding stratum_authorize_def Let_def lift_if
  by (intro quiet_lift_bnd)
    (use assms in \<open>auto simp: carries_secret_def intro!: quiet_rules split: if_splits\<close>)

lemma quiet_handle_msg: "\<not> carries_secret env msg \<Longrightarrow> quiet (handle_msg env i msg)"
  unfolding handle_msg_def Let_def
  by (intro quiet_rules quiet_handlers quiet_xmrig_login quiet_stratum_authorize)

lemma quiet_handle_lines:
  assumes "\<And>l msg. e_parse env l = Some msg \<Longrightarrow> \<not> carries_secret env msg"
  shows "quiet (handle_lines env i ls)"
proof (induction ls)
  case (Cons l ls)
  then show ?case
    using assms by (auto intro!: quiet_rules quiet_handle_msg split: option.split)
qed (simp add: quiet_rules)

lemma quiet_notify: "quiet (notify job i)"
  unfolding notify_def by (intro quiet_rules)

lemma quiet_broadcast: "quiet (broadcast job is)"
  by (induction "is") (simp_all add: quiet_rules quiet_notify)

lemma quiet_timers:
  "quiet (on_connect c)" "quiet (on_close i)" "quiet (on_startup env t)" "quiet (on_tick env t)"
  unfolding on_connect_def on_close_def on_startup_def on_tick_def Let_def
  by (intro quiet_rules quiet_broadcast)+

lemma quiet_on_event:
  assumes "\<And>l msg. e_parse env l = Some msg \<Longrightarrow> \<not> carries_secret env msg"
  shows "quiet (on_event env ev)"
proof -
  have h: "quiet (handle_lines env i ls)" for i ls using assms by (rule quiet_handle_lines)
  have d: "quiet (on_data env i c)" "quiet (on_template env k t)" for i c k t
    unfolding on_data_def on_template_def Let_def by (intro quiet_rules quiet_handlers h)+
  show ?thesis by (cases ev) (simp_all add: d quiet_timers quiet_rules)
qed

lemma quiet_run:
  assumes "\<And>l msg. e_parse env l = Some msg \<Longrightarrow> \<not> carries_secret env msg"
    and "proxy_run env s tr"
  shows "PasswordOk i \<notin> set tr"
  using assms(2)
proof (induction rule: proxy_run.induct)
  case (run_step s tr ev r s' acts)
  moreover have "quiet (on_event env ev)" using assms(1) by (rule quiet_on_event)
  ultimately show ?case by (auto simp: quiet_def)
qed simp

section \<open>The budgets of a run\<close>

lemma length_filter_subseq: "subseq xs ys \<Longrightarrow> length (filter P xs) \<le> length (filter P ys)"
  by (intro list_emb_length [where P = "(=)"] subseq_filter)

lemma run_rate_ok:
  assumes "mono (e_clock env)" and "proxy_run env s tr"
  shows "\<exists>h now. rate_ok now (globalSubmitTimes s) (peer_times (infos s)) h \<and> subseq (hashes tr) h"
  using proxy_run_inv [OF assms(2)] assms(1) by (auto simp: proxy_inv_def rate_part_def)

lemma hash_budgets:
  assumes "mono (e_clock env)" and "proxy_run env s tr"
  shows "length (filter (\<lambda>(i, t). a \<le> t \<and> t < a + SUBMIT_RATE_WINDOW_MS) (hashes tr)) \<le> SUBMIT_RATE_MAX_GLOBAL"
    and "length (filter (\<lambda>(j, t). j = i \<and> a \<le> t \<and> t < a + PEER_SUBMIT_WINDOW_MS) (hashes tr)) \<le> PEER_SUBMIT_MAX"
proof -
  obtain h now where ok: "rate_ok now (globalSubmitTimes s) (peer_times (infos s)) h"
    and sub: "subseq (hashes tr) h"
    using run_rate_ok [OF assms] by blast
  let ?g = "\<lambda>(i, t). a \<le> t \<and> t < a + SUBMIT_RATE_WINDOW_MS"
  let ?p = "\<lambda>(j, t). j = i \<and> a \<le> t \<and> t < a + PEER_SUBMIT_WINDOW_MS"
  have "length (filter ?g h) = length (in_window SUBMIT_RATE_WINDOW_MS a (map snd h))"
    by (simp add: in_window_def filter_map o_def case_prod_beta')
  also have "\<dots> \<le> SUBMIT_RATE_MAX_GLOBAL"
    using ok by (auto simp: rate_ok_def intro: gw.tracks_budget)
  finally show "length (filter ?g (hashes tr)) \<le> SUBMIT_RATE_MAX_GLOBAL"
    using length_filter_subseq [OF sub, of ?g] by simp
  have "length (filter ?p h) = length (in_window PEER_SUBMIT_WINDOW_MS a (of_peer i h))"
    by (simp add: in_window_def of_peer_def filter_map o_def case_prod_beta' conj_commute conj_left_commute)
  also have "\<dots> \<le> PEER_SUBMIT_MAX"
    using ok by (auto simp: rate_ok_def intro: pw.tracks_budget)
  finally show "length (filter ?p (hashes tr)) \<le> PEER_SUBMIT_MAX"
    using length_filter_subseq [OF sub, of ?p] by simp
qed

section \<open>An example run\<close>

text \<open>
  The server starts with a job, a miner connects, sends a login with the secret and a share in one
  chunk, and the login's template arrives.  The hash functions are constant.
\<close>

definition demo_template :: block_template where
  "demo_template = \<lparr>t_previousblockhash = hexstr (replicate 32 0x1a), t_merkleroot = None,
     t_bits = hexstr [0x1f, 0, 0xff, 0xff], t_curtime = 1700000000, t_height = Some 7,
     t_target = Some (hexstr (replicate 32 0x0f)), t_coinbasetxn = None, t_transactions = Some []\<rparr>"

definition demo_login :: jsval where
  "demo_login = JObj [(''id'', JNum 1), (''method'', JStr ''login''),
     (''params'', JObj [(''login'', JStr ''w''), (''password'', JStr ''secret'')])]"

definition demo_submit :: jsval where
  "demo_submit = JObj [(''id'', JNum 2), (''method'', JStr ''submit''),
     (''params'', JObj [(''job_id'', JStr ''2''), (''nonce'', JStr (hexstr [0, 0, 0xab, 0xcd])),
       (''ntime'', JStr (hexstr [0x65, 0x53, 0xf1, 0])) ])]"

definition demo_env :: env where
  "demo_env = \<lparr>e_password = ''secret'', e_clock = int, e_random = (\<lambda>_ n. replicate n 7),
     e_sha256 = (\<lambda>_. replicate 32 1), e_blake2b = (\<lambda>_. replicate 32 2), e_rx_ready = (\<lambda>_. True),
     e_rx_hash = (\<lambda>_ _. Some (replicate 32 3)),
     e_parse = (\<lambda>l. if l = ''L'' then Some demo_login else if l = ''S'' then Some demo_submit else None)\<rparr>"

lemma e_parse_demo [simp]: "e_parse demo_env ''L'' = Some demo_login" "e_parse demo_env ''S'' = Some demo_submit"
  and e_clock_demo [simp]: "e_clock demo_env = int"
  by (simp_all add: demo_env_def)

lemmas pm_defs = bnd_def andthen_def ret_def lift_def gets_def modify_def emit_def info_def upd_info_def
  catch_def unhandled_def

lemma safeWrite_result:
  "\<exists>w n a. safeWrite i p s =
    (Inr (), s\<lparr>infos := (infos s)[i := (infos s ! i)\<lparr>m_writable := w, m_writableLength := n\<rparr>]\<rparr>, a)"
proof -
  let ?m = "infos s ! i"
  consider "\<not> m_writable ?m" | "m_writable ?m" "m_writableLength ?m + byteLength p > MAX_WRITABLE_BUFFER"
    | "m_writable ?m" "\<not> m_writableLength ?m + byteLength p > MAX_WRITABLE_BUFFER" by blast
  then show ?thesis
  proof cases
    case 1
    then have "safeWrite i p s = (Inr (), s, [])" by (simp add: safeWrite_def pm_defs)
    moreover have "s = s\<lparr>infos := (infos s)[i := ?m\<lparr>m_writable := m_writable ?m,
        m_writableLength := m_writableLength ?m\<rparr>]\<rparr>" by simp
    ultimately show ?thesis by metis
  next
    case 2
    then have "safeWrite i p s = (Inr (), s\<lparr>infos := (infos s)[i := ?m\<lparr>m_writable := False,
        m_writableLength := m_writableLength ?m\<rparr>]\<rparr>, [Destroyed i])"
      by (simp add: safeWrite_def destroy_def pm_defs)
    then show ?thesis by blast
  next
    case 3
    then have "safeWrite i p s = (Inr (), s\<lparr>infos := (infos s)[i := ?m\<lparr>
        m_writableLength := m_writableLength ?m + byteLength p\<rparr>]\<rparr>, [Wrote i p])"
      by (simp add: safeWrite_def pm_defs)
    moreover have "?m\<lparr>m_writableLength := n\<rparr> = ?m\<lparr>m_writable := m_writable ?m, m_writableLength := n\<rparr>" for n
      by simp
    ultimately show ?thesis by metis
  qed
qed

lemma judge_share_hashes:
  "Hashed i now h \<in> set (snd (snd (judge_share env i now job nonce ntime h respond s)))"
  by (simp add: judge_share_def bnd_def hash_random_x_def split: prod.splits)

lemma bnd_acts: "x \<in> set (snd (snd (m s))) \<Longrightarrow> x \<in> set (snd (snd (bnd m f s)))"
  by (auto simp: bnd_def split: prod.splits sum.splits)

lemma demo_job:
  "\<exists>job h. createRandomXJob sha n demo_template = Inr job \<and> j_job_id job = dec_nat n \<and>
     buildHeader112 job (JStr (hexstr [0, 0, 0xab, 0xcd])) (JStr (hexstr [0x65, 0x53, 0xf1, 0])) = Inr (Some h)"
proof -
  have z: "le_val (replicate 32 (0x0f :: byte)) \<noteq> 0"
    using replicate_Suc [of 31 "0x0f :: byte"] by simp
  have "\<exists>job. createRandomXJob sha n demo_template = Inr job \<and> j_target job = hexstr (rev (replicate 32 0x0f)) \<and>
    j_blob job = hexstr (blob_bytes (replicate 32 0x1a) (case None of None \<Rightarrow> replicate 32 0 | Some m \<Rightarrow> m)
       (t_curtime demo_template) [0xff, 0xff, 0, 0x1f])"
    by (rule createRandomXJob_hexstr [OF _ _ _ _ _ _ _ z]) (simp_all add: demo_template_def)
  then obtain job where j: "createRandomXJob sha n demo_template = Inr job"
    and b: "j_blob job = hexstr (blob_bytes (replicate 32 0x1a) (replicate 32 0) (t_curtime demo_template) [0xff, 0xff, 0, 0x1f])"
    by auto
  show ?thesis using j job_fields(1) [OF j] buildHeader112_hexstr [OF b] by simp
qed

text \<open>The state after the job, the connection and the login line.\<close>

definition demo_miner :: minerInfo where
  "demo_miner = \<lparr>m_clientId = ''a'', m_writable = True, m_writableLength = 0, m_address = JStr ''w'',
     m_authorized = False, m_protocol = Some Xmrig, m_currentJobId = None, m_extraNonce1 = None,
     m_subscriptionId = None, m_buffer = [], m_submitTimes = []\<rparr>"

definition demo_state :: "job \<Rightarrow> proxy" where
  "demo_state job = \<lparr>jobCounter = 1, currentJob = Some job, miners = [(''a'', 0)], infos = [demo_miner],
     randomxVM = Some (replicate 32 1), globalSubmitTimes = [],
     pending = [(0, JNum 1, [''S''])], clock_reads = 0, draws = 0\<rparr>"

lemma demo_run_login: "\<exists>job. proxy_run demo_env (demo_state job) [PasswordOk 0]"
proof -
  obtain job where j: "createRandomXJob (e_sha256 demo_env) (Suc 0) demo_template = Inr job"
    using demo_job by blast
  have 1: "on_event demo_env (Startup (Some demo_template)) init_proxy = (Inr (),
      init_proxy\<lparr>jobCounter := 1, currentJob := Some job, randomxVM := Some (replicate 32 1)\<rparr>, [])" (is "_ = (_, ?s1, _)")
    using j by (simp add: on_startup_def pm_defs new_job_def init_proxy_def initRandomX_def
        getEpochSeedHash_def demo_env_def)
  let ?s2 = "(demo_state job)\<lparr>pending := [],
      infos := [demo_miner\<lparr>m_address := JNull, m_protocol := None\<rparr>]\<rparr>"
  have 2: "on_event demo_env (Connect ''a'') ?s1 = (Inr (), ?s2, [])"
    by (simp add: on_connect_def pm_defs MAX_CONNECTIONS_def init_proxy_def demo_state_def demo_miner_def)
  have 3: "on_event demo_env (Data 0 [CHR ''L'', CHR 0x0A, CHR ''S'', CHR 0x0A]) ?s2 =
      (Inr (), demo_state job, [PasswordOk 0])"
    by (simp add: on_data_def pm_defs MAX_INPUT_BUFFER_def Let_def demo_state_def demo_miner_def trim_def
        is_space_def demo_env_def handle_msg_def demo_login_def xmrig_login_def secret_shown_def js_or_def)
  have "proxy_run demo_env ?s1 ([] @ [])"
    by (rule run_step [OF run_start _ 1]) simp
  then have "proxy_run demo_env ?s2 (([] @ []) @ [])"
    by (rule run_step [OF _ _ 2]) simp
  then have "proxy_run demo_env (demo_state job) ((([] @ []) @ []) @ [PasswordOk 0])"
    by (rule run_step [OF _ _ 3]) (simp add: demo_state_def demo_miner_def)
  then show ?thesis by auto
qed

text \<open>The login's template arrives, and the share that waited is hashed.\<close>

lemma demo_run: "\<exists>s tr t h. proxy_run demo_env s tr \<and> Hashed 0 t h \<in> set tr"
proof -
  obtain job0 where run: "proxy_run demo_env (demo_state job0) [PasswordOk 0]"
    using demo_run_login by blast
  obtain job hd112 where j: "createRandomXJob (e_sha256 demo_env) (Suc (Suc 0)) demo_template = Inr job"
    and jid: "j_job_id job = ''2''"
    and h: "buildHeader112 job (JStr (hexstr [0, 0, 0xab, 0xcd])) (JStr (hexstr [0x65, 0x53, 0xf1, 0])) = Inr (Some hd112)"
    using demo_job [of "e_sha256 demo_env" "Suc (Suc 0)"] by (auto simp: dec_nat.simps hex_digit_def hex_digits_def)
  let ?s = "(demo_state job0)\<lparr>pending := []\<rparr>"
  have "\<exists>s' a. finish_login demo_env 0 (JNum 1) (Some demo_template) ?s = (Inr (), s', a) \<and>
      currentJob s' = Some job \<and> clock_reads s' = 0 \<and> globalSubmitTimes s' = [] \<and> length (infos s') = 1 \<and>
      m_authorized (infos s' ! 0) \<and> m_protocol (infos s' ! 0) = Some Xmrig \<and> m_submitTimes (infos s' ! 0) = []"
  proof -
    let ?m = "demo_miner\<lparr>m_currentJobId := Some ''2'', m_extraNonce1 := Some (hexstr (e_random demo_env 0 4))\<rparr>"
    let ?t = "?s\<lparr>draws := 1, jobCounter := Suc (Suc 0), infos := [?m], currentJob := Some job\<rparr>"
    let ?p = "createXMRigLoginResponse (JNum 1) (hexstr (e_random demo_env 0 4)) job"
    obtain w n b where sw: "safeWrite 0 ?p ?t =
        (Inr (), ?t\<lparr>infos := (infos ?t)[0 := (infos ?t ! 0)\<lparr>m_writable := w, m_writableLength := n\<rparr>]\<rparr>, b)"
      using safeWrite_result by blast
    show ?thesis
      using j jid sw by (simp add: finish_login_def pm_defs random_hex_def new_job_def demo_state_def
          demo_miner_def logv_def)
  qed
  then obtain s' a where fl: "finish_login demo_env 0 (JNum 1) (Some demo_template) ?s = (Inr (), s', a)"
    and c: "currentJob s' = Some job" "clock_reads s' = 0" "globalSubmitTimes s' = []" "length (infos s') = 1"
     "m_authorized (infos s' ! 0)" "m_protocol (infos s' ! 0) = Some Xmrig" "m_submitTimes (infos s' ! 0) = []"
    by blast
  have "Hashed 0 0 hd112 \<in> set (snd (snd (handle_msg demo_env 0 demo_submit s')))"
    using c h jid judge_share_hashes [of 0 0 hd112]
    by (simp add: handle_msg_def pm_defs demo_submit_def xmrig_submit_def rate_limited_def rateLimitedSubmit_def
        Let_def SUBMIT_RATE_MAX_GLOBAL_def PEER_SUBMIT_MAX_def e_clock_demo)
  then have "Hashed 0 0 hd112 \<in> set (snd (snd (handle_lines demo_env 0 [''S''] s')))"
    by (simp add: trim_def is_space_def bnd_acts e_parse_demo)
  then have "Hashed 0 0 hd112 \<in> set (snd (snd (on_event demo_env (Template 0 (Some demo_template)) (demo_state job0))))"
    using fl by (auto simp: on_template_def pm_defs demo_state_def simp del: handle_lines.simps split: prod.splits)
  then obtain r s2 acts where "on_event demo_env (Template 0 (Some demo_template)) (demo_state job0) = (r, s2, acts)"
    and "Hashed 0 0 hd112 \<in> set acts"
    by (metis prod.collapse)
  with run_step [OF run, of "Template 0 (Some demo_template)"] show ?thesis
    by (fastforce simp: demo_state_def)
qed

section \<open>Properties of every run\<close>

text \<open>
  C1. In every run of the proxy on a clock that never goes back, the RandomX hashes computed in any
  window of one second number at most 40, and those computed for one connection in any window of
  five seconds number at most 100: a peer cannot make the proxy exceed its hash budgets, whatever
  it sends and however its messages interleave with the other peers', the logins and the timer.
\<close>

theorem hash_budget:
  assumes "mono (e_clock env)" and "proxy_run env s tr"
  shows "length (filter (\<lambda>(i, t). a \<le> t \<and> t < a + 1000) (hashes tr)) \<le> 40 \<and>
    length (filter (\<lambda>(j, t). j = i \<and> a \<le> t \<and> t < a + 5000) (hashes tr)) \<le> 100"
  using hash_budgets(1) [OF assms, where a = a] hash_budgets(2) [OF assms, where a = a and i = i]
  by (simp add: SUBMIT_RATE_WINDOW_MS_def SUBMIT_RATE_MAX_GLOBAL_def PEER_SUBMIT_WINDOW_MS_def PEER_SUBMIT_MAX_def)

lemma mono_demo_clock: "mono (e_clock demo_env)"
  by (simp add: mono_def)

lemma hashes_nonempty: "Hashed i t h \<in> set tr \<Longrightarrow> hashes tr \<noteq> []"
proof (induction tr)
  case (Cons a tr)
  then show ?case by (cases a) auto
qed simp

theorem hash_budget_witness:
  "\<exists>s tr. mono (e_clock demo_env) \<and> proxy_run demo_env s tr \<and> hashes tr \<noteq> [] \<and>
    length (filter (\<lambda>(i, t). 0 \<le> t \<and> t < 0 + 1000) (hashes tr)) \<le> 40 \<and>
    length (filter (\<lambda>(j, t). j = 0 \<and> 0 \<le> t \<and> t < 0 + 5000) (hashes tr)) \<le> 100"
proof -
  obtain s tr where run: "proxy_run demo_env s tr" and "hashes tr \<noteq> []"
    using demo_run hashes_nonempty by blast
  with hash_budget [OF mono_demo_clock run, of 0 0] mono_demo_clock show ?thesis by blast
qed

text \<open>
  C2. In every run of the proxy, whenever a hash is computed or a block is sent to the node on behalf
  of a connection, that connection has earlier passed the comparison with the shared secret.  Work
  is never done for a peer that has not shown the secret, also when the login is still waiting for
  its template or the connection was replaced under the same client identifier; and if no line that a
  peer can send carries the secret where the protocols look for it, there is no work at all.
\<close>

theorem work_needs_secret:
  assumes "proxy_run env s (before @ act # after)" and "performer act = Some i"
  shows "PasswordOk i \<in> set before \<and> (\<exists>l msg. e_parse env l = Some msg \<and> carries_secret env msg)"
proof -
  have ok: "PasswordOk i \<in> set before"
    using proxy_run_inv [OF assms(1)] assms(2) by (auto simp: proxy_inv_def secured_def)
  moreover have "\<exists>l msg. e_parse env l = Some msg \<and> carries_secret env msg"
  proof (rule ccontr)
    assume "\<not> ?thesis"
    then have "PasswordOk i \<notin> set (before @ act # after)" using quiet_run [OF _ assms(1)] by blast
    then show False using ok by simp
  qed
  ultimately show ?thesis ..
qed

theorem work_needs_secret_witness:
  "\<exists>s before t h after. proxy_run demo_env s (before @ Hashed 0 t h # after) \<and> PasswordOk 0 \<in> set before \<and>
     (\<exists>l msg. e_parse demo_env l = Some msg \<and> carries_secret demo_env msg)"
proof -
  obtain s tr t h where "proxy_run demo_env s tr" and "Hashed 0 t h \<in> set tr"
    using demo_run by blast
  then obtain before after where run: "proxy_run demo_env s (before @ Hashed 0 t h # after)"
    by (metis split_list)
  moreover have "PasswordOk 0 \<in> set before \<and> (\<exists>l msg. e_parse demo_env l = Some msg \<and> carries_secret demo_env msg)"
    by (rule work_needs_secret [OF run]) simp
  ultimately show ?thesis by blast
qed

text \<open>
  C4. In every run of the proxy the table of connections has at most 32 entries with distinct client
  identifiers, each naming an existing connection, and no connection has more than 16 MiB of output
  waiting for its peer.
\<close>

theorem proxy_bounded:
  assumes "proxy_run env s tr"
  shows "length (miners s) \<le> 32 \<and> distinct (map fst (miners s)) \<and>
    (\<forall>p \<in> set (miners s). snd p < length (infos s)) \<and>
    (\<forall>m \<in> set (infos s). m_writableLength m \<le> 16 * 1024 * 1024)"
  using proxy_run_inv [OF assms] by (simp add: proxy_inv_def MAX_CONNECTIONS_def MAX_WRITABLE_BUFFER_def)

theorem proxy_bounded_witness:
  "\<exists>s tr. proxy_run demo_env s tr \<and> hashes tr \<noteq> [] \<and> length (miners s) \<le> 32"
proof -
  obtain s tr where "proxy_run demo_env s tr" and "hashes tr \<noteq> []"
    using demo_run hashes_nonempty by blast
  with proxy_bounded show ?thesis by blast
qed

end
