(* ===== verification/Backup.thy ===== *)
theory Backup
  imports Js_Core "HOL-Library.AList" "HOL-Library.Multiset"
begin

text \<open>
  The backup script \<open>contrib/admin/backup.js\<close>: taking a backup, pruning old ones, listing and
  restoring, and the dispatch on the command line.

  The part of Node's \<open>path\<close> and \<open>fs\<close> modules that the script uses is modelled on POSIX paths: a
  file system is an association list from absolute paths to files and directories with their
  modification times.  Every operation of the operating system may fail: \<open>b_fail\<close> gives, for each
  tick of the run, the message of the exception raised there, and a failed operation changes
  nothing.  Clock readings, the two renderings of dates and JSON.parse are parameters.
\<close>

section \<open>Paths\<close>

text \<open>\<open>s.split('/')\<close>\<close>

fun split_sep :: "string \<Rightarrow> string list" where
  "split_sep [] = [[]]"
| "split_sep (c # s) = (if c = CHR ''/'' then [] # split_sep s
     else (case split_sep s of [] \<Rightarrow> [[c]] | l # ls \<Rightarrow> (c # l) # ls))"

text \<open>Normalisation: empty and dot segments vanish, a double dot removes the segment before it.\<close>

fun norm_segs :: "string list \<Rightarrow> string list \<Rightarrow> string list" where
  "norm_segs acc [] = rev acc"
| "norm_segs acc (s # ss) =
     (if s = [] \<or> s = ''.'' then norm_segs acc ss
      else if s = ''..'' then norm_segs (tl acc) ss
      else norm_segs (s # acc) ss)"

definition path_of :: "string list \<Rightarrow> string" where
  "path_of segs = (if segs = [] then ''/'' else concat (map (\<lambda>s. CHR ''/'' # s) segs))"

text \<open>\<open>path.join(a, b)\<close> and \<open>path.resolve(a, b)\<close> for an absolute path \<open>a\<close>\<close>

definition path_join :: "string \<Rightarrow> string \<Rightarrow> string" where
  "path_join a b = path_of (norm_segs [] (split_sep a @ split_sep b))"

definition path_resolve :: "string \<Rightarrow> string \<Rightarrow> string" where
  "path_resolve a b = path_of (norm_segs [] (if take 1 b = ''/'' then split_sep b else split_sep a @ split_sep b))"

definition path_parent :: "string \<Rightarrow> string" where
  "path_parent p = path_of (butlast (norm_segs [] (split_sep p)))"

definition startsWith :: "string \<Rightarrow> string \<Rightarrow> bool" where
  "startsWith s t \<longleftrightarrow> take (length t) s = t"

section \<open>The file system\<close>

datatype fnode = FFile string int | FDir int

type_synonym fs = "(string \<times> fnode) list"

fun mtime :: "fnode \<Rightarrow> int" where
  "mtime (FFile _ t) = t"
| "mtime (FDir t) = t"

definition is_dir :: "fs \<Rightarrow> string \<Rightarrow> bool" where
  "is_dir fs p \<longleftrightarrow> (case map_of fs p of Some (FDir _) \<Rightarrow> True | _ \<Rightarrow> False)"

text \<open>Creating an entry changes the modification time of its directory.\<close>

definition fs_touch :: "int \<Rightarrow> string \<Rightarrow> fs \<Rightarrow> fs" where
  "fs_touch t d fs = (if is_dir fs d then AList.update d (FDir t) fs else fs)"

definition fs_write :: "int \<Rightarrow> string \<Rightarrow> string \<Rightarrow> fs \<Rightarrow> string + fs" where
  "fs_write t p content fs = (case map_of fs p of
     Some (FDir _) \<Rightarrow> Inl ''EISDIR''
   | Some (FFile _ _) \<Rightarrow> Inr (AList.update p (FFile content t) fs)
   | None \<Rightarrow> if is_dir fs (path_parent p)
       then Inr (AList.update p (FFile content t) (fs_touch t (path_parent p) fs)) else Inl ''ENOENT'')"

definition fs_mkdir :: "int \<Rightarrow> string \<Rightarrow> fs \<Rightarrow> string + fs" where
  "fs_mkdir t p fs = (case map_of fs p of
     Some (FDir _) \<Rightarrow> Inr fs
   | Some (FFile _ _) \<Rightarrow> Inl ''EEXIST''
   | None \<Rightarrow> Inr (AList.update p (FDir t) (fs_touch t (path_parent p) fs)))"

text \<open>\<open>mkdirSync(p, { recursive: true })\<close>: every missing directory on the way to \<open>p\<close>.\<close>

fun fs_mkdirs :: "int \<Rightarrow> string list \<Rightarrow> string list \<Rightarrow> fs \<Rightarrow> string + fs" where
  "fs_mkdirs t done [] fs = Inr fs"
| "fs_mkdirs t done (s # ss) fs =
     ebind (fs_mkdir t (path_of (done @ [s])) fs) (fs_mkdirs t (done @ [s]) ss)"

text \<open>The names of the entries of a directory.\<close>

definition fs_names :: "string \<Rightarrow> fs \<Rightarrow> string list" where
  "fs_names d fs = map (\<lambda>(p, _). drop (length d + 1) p)
     (filter (\<lambda>(p, _). startsWith p (d @ ''/'') \<and> CHR ''/'' \<notin> set (drop (length d + 1) p)
        \<and> drop (length d + 1) p \<noteq> []) fs)"

text \<open>\<open>rmSync(p, { recursive: true, force: true })\<close>\<close>

definition fs_remove :: "int \<Rightarrow> string \<Rightarrow> fs \<Rightarrow> fs" where
  "fs_remove t p fs = (if map_of fs p = None then fs
     else filter (\<lambda>(q, _). q \<noteq> p \<and> \<not> startsWith q (p @ ''/'')) (fs_touch t (path_parent p) fs))"

section \<open>Computations\<close>

record date =
  d_year :: int
  d_month :: int
  d_day :: int
  d_hour :: int
  d_minute :: int
  d_second :: int

record benv =
  b_dirname :: string
  b_fail :: "nat \<Rightarrow> string option"
  b_ms :: "nat \<Rightarrow> int"
  b_date :: "nat \<Rightarrow> date"
  b_iso :: "nat \<Rightarrow> string"
  b_locale :: "int \<Rightarrow> string"
  b_parse :: "string \<Rightarrow> jsval option"

record bst =
  files :: fs
  tick :: nat
  console :: "string list"

type_synonym 'a bm = "bst \<Rightarrow> (string + 'a) \<times> bst"

definition bret :: "'a \<Rightarrow> 'a bm" where
  "bret x = (\<lambda>s. (Inr x, s))"

definition bbnd :: "'a bm \<Rightarrow> ('a \<Rightarrow> 'b bm) \<Rightarrow> 'b bm" where
  "bbnd m f = (\<lambda>s. case m s of (Inl e, s') \<Rightarrow> (Inl e, s') | (Inr x, s') \<Rightarrow> f x s')"

definition bthen :: "'a bm \<Rightarrow> 'b bm \<Rightarrow> 'b bm" where
  "bthen m k = bbnd m (\<lambda>_. k)"

definition btry :: "'a bm \<Rightarrow> (string \<Rightarrow> 'a bm) \<Rightarrow> 'a bm" where
  "btry m h = (\<lambda>s. case m s of (Inl e, s') \<Rightarrow> h e s' | (Inr x, s') \<Rightarrow> (Inr x, s'))"

definition bsay :: "string \<Rightarrow> unit bm" where
  "bsay l = (\<lambda>s. (Inr (), s\<lparr>console := console s @ [l]\<rparr>))"

definition bfiles :: "(fs \<Rightarrow> 'a) \<Rightarrow> 'a bm" where
  "bfiles f = (\<lambda>s. (Inr (f (files s)), s))"

definition bclock :: "(nat \<Rightarrow> 'a) \<Rightarrow> 'a bm" where
  "bclock f = (\<lambda>s. (Inr (f (tick s)), s\<lparr>tick := Suc (tick s)\<rparr>))"

text \<open>An operation of the operating system, at the time of its tick.\<close>

definition bio :: "benv \<Rightarrow> (int \<Rightarrow> fs \<Rightarrow> string + 'a \<times> fs) \<Rightarrow> 'a bm" where
  "bio env f = (\<lambda>s. let t = tick s; s' = s\<lparr>tick := Suc t\<rparr> in
     case b_fail env t of Some e \<Rightarrow> (Inl e, s')
     | None \<Rightarrow> (case f (b_ms env t) (files s) of Inl e \<Rightarrow> (Inl e, s') | Inr (x, fs') \<Rightarrow> (Inr x, s'\<lparr>files := fs'\<rparr>)))"

definition upd :: "string + fs \<Rightarrow> string + unit \<times> fs" where
  "upd r = ebind r (\<lambda>fs. Inr ((), fs))"

definition existsSync :: "string \<Rightarrow> bool bm" where
  "existsSync p = bfiles (\<lambda>fs. map_of fs p \<noteq> None)"

definition mkdirSync :: "benv \<Rightarrow> string \<Rightarrow> unit bm" where
  "mkdirSync env p = bio env (\<lambda>t fs. upd (fs_mkdirs t [] (norm_segs [] (split_sep p)) fs))"

definition writeFileSync :: "benv \<Rightarrow> string \<Rightarrow> string \<Rightarrow> unit bm" where
  "writeFileSync env p content = bio env (\<lambda>t fs. upd (fs_write t p content fs))"

definition appendFileSync :: "benv \<Rightarrow> string \<Rightarrow> string \<Rightarrow> unit bm" where
  "appendFileSync env p content = bio env (\<lambda>t fs. upd
     (fs_write t p ((case map_of fs p of Some (FFile c _) \<Rightarrow> c | _ \<Rightarrow> []) @ content) fs))"

definition copyFileSync :: "benv \<Rightarrow> string \<Rightarrow> string \<Rightarrow> unit bm" where
  "copyFileSync env src dst = bio env (\<lambda>t fs. case map_of fs src of
     Some (FFile c _) \<Rightarrow> upd (fs_write t dst c fs) | Some (FDir _) \<Rightarrow> Inl ''EISDIR'' | None \<Rightarrow> Inl ''ENOENT'')"

definition statSync :: "benv \<Rightarrow> string \<Rightarrow> fnode bm" where
  "statSync env p = bio env (\<lambda>t fs. case map_of fs p of Some n \<Rightarrow> Inr (n, fs) | None \<Rightarrow> Inl ''ENOENT'')"

definition readFileSync :: "benv \<Rightarrow> string \<Rightarrow> string bm" where
  "readFileSync env p = bio env (\<lambda>t fs. case map_of fs p of
     Some (FFile c _) \<Rightarrow> Inr (c, fs) | Some (FDir _) \<Rightarrow> Inl ''EISDIR'' | None \<Rightarrow> Inl ''ENOENT'')"

definition readdirSync :: "benv \<Rightarrow> string \<Rightarrow> string list bm" where
  "readdirSync env p = bio env (\<lambda>t fs. if is_dir fs p then Inr (fs_names p fs, fs) else Inl ''ENOENT'')"

definition rmSync :: "benv \<Rightarrow> string \<Rightarrow> unit bm" where
  "rmSync env p = bio env (\<lambda>t fs. Inr ((), fs_remove t p fs))"

section \<open>Names\<close>

definition BACKUP_DIR :: "benv \<Rightarrow> string" where
  "BACKUP_DIR env = path_join (b_dirname env) ''backups''"

definition KEEP_BACKUPS :: nat where "KEEP_BACKUPS = 10"

definition filesToBackup :: "string list" where
  "filesToBackup = [''stratum-proxy-pool.js'', ''stratum-proxy-fixed.js'',
     ''server-stratum-proxy-pool.js'', ''current_proxy.js'']"

definition is_digit :: "char \<Rightarrow> bool" where
  "is_digit c \<longleftrightarrow> 48 \<le> (of_char c :: nat) \<and> (of_char c :: nat) \<le> 57"

text \<open>\<open>/^backup_\d{8}_\d{6}$/.test(name)\<close>\<close>

definition isSafeBackupName :: "string \<Rightarrow> bool" where
  "isSafeBackupName name \<longleftrightarrow> length name = 22 \<and> take 7 name = ''backup_'' \<and>
     list_all is_digit (take 8 (drop 7 name)) \<and> name ! 15 = CHR ''_'' \<and> list_all is_digit (drop 16 name)"

definition isAllowedFileName :: "string \<Rightarrow> bool" where
  "isAllowedFileName name \<longleftrightarrow> name \<in> set filesToBackup"

definition timestamp_of :: "date \<Rightarrow> string" where
  "timestamp_of d = dec_int (d_year d) @ padStart 2 (dec_int (d_month d)) @ padStart 2 (dec_int (d_day d)) @
     ''_'' @ padStart 2 (dec_int (d_hour d)) @ padStart 2 (dec_int (d_minute d)) @ padStart 2 (dec_int (d_second d))"

definition getTimestamp :: "benv \<Rightarrow> string bm" where
  "getTimestamp env = bclock (\<lambda>t. timestamp_of (b_date env t))"

section \<open>Logging and the backup directory\<close>

definition log :: "benv \<Rightarrow> string \<Rightarrow> unit bm" where
  "log env msg = bbnd (bclock (b_iso env)) (\<lambda>ts.
     let m = ''['' @ ts @ ''] '' @ msg in
     bthen (bsay m) (appendFileSync env (path_join (BACKUP_DIR env) ''backup.log'') (m @ [CHR 0x0A])))"

definition ensureBackupDir :: "benv \<Rightarrow> unit bm" where
  "ensureBackupDir env = bbnd (existsSync (BACKUP_DIR env)) (\<lambda>ex.
     if \<not> ex then bthen (mkdirSync env (BACKUP_DIR env)) (log env (''Created backup directory: '' @ BACKUP_DIR env))
     else bret ())"

section \<open>Pruning\<close>

text \<open>The entries with their modification times.\<close>

fun stat_all :: "benv \<Rightarrow> string list \<Rightarrow> (string \<times> int) list bm" where
  "stat_all env [] = bret []"
| "stat_all env (e # es) =
     bbnd (statSync env (path_join (BACKUP_DIR env) e)) (\<lambda>n.
     bbnd (stat_all env es) (\<lambda>r. bret ((e, mtime n) # r)))"

text \<open>\<open>.sort((a, b) => b.time - a.time)\<close>, which is stable\<close>

definition newest_first :: "(string \<times> int) list \<Rightarrow> (string \<times> int) list" where
  "newest_first bs = sort_key (\<lambda>b. - snd b) bs"

fun delete_all :: "benv \<Rightarrow> (string \<times> int) list \<Rightarrow> unit bm" where
  "delete_all env [] = bret ()"
| "delete_all env (b # bs) =
     (let backupPath = path_resolve (BACKUP_DIR env) (fst b) in
      bthen (if \<not> startsWith backupPath (BACKUP_DIR env @ ''/'')
             then log env (''Skipping out-of-bounds path during cleanup: '' @ backupPath)
             else bthen (rmSync env backupPath) (log env (''Removed old backup: '' @ fst b)))
        (delete_all env bs))"

definition cleanOldBackups :: "benv \<Rightarrow> unit bm" where
  "cleanOldBackups env = btry
     (bbnd (readdirSync env (BACKUP_DIR env)) (\<lambda>entries.
      bbnd (stat_all env (filter isSafeBackupName entries)) (\<lambda>stats.
      let backupDirs = newest_first stats in
      if length backupDirs > KEEP_BACKUPS then delete_all env (drop KEEP_BACKUPS backupDirs) else bret ())))
     (\<lambda>e. log env (''Error cleaning old backups: '' @ e))"

section \<open>Taking a backup\<close>

fun backup_files :: "benv \<Rightarrow> string \<Rightarrow> string list \<Rightarrow> nat \<Rightarrow> nat \<Rightarrow> (nat \<times> nat) bm" where
  "backup_files env backupPath [] ok failed = bret (ok, failed)"
| "backup_files env backupPath (f # fs) ok failed =
     (let srcPath = path_join (b_dirname env) f; dstPath = path_join backupPath f in
      bbnd (existsSync srcPath) (\<lambda>ex.
      bbnd (if ex then
              btry (bthen (copyFileSync env srcPath dstPath)
                   (bbnd (statSync env srcPath) (\<lambda>n.
                    bthen (log env (''Backed up: '' @ f @ '' ('' @
                       dec_nat (case n of FFile c _ \<Rightarrow> length c | FDir _ \<Rightarrow> 0) @ '' bytes)''))
                      (bret (ok + 1, failed)))))
                (\<lambda>e. bthen (log env (''Failed to backup '' @ f @ '': '' @ e)) (bret (ok, failed + 1)))
            else bthen (log env (''File not found, skipping: '' @ f)) (bret (ok, failed)))
        (\<lambda>(ok', failed'). backup_files env backupPath fs ok' failed')))"

fun manifest_files :: "benv \<Rightarrow> string \<Rightarrow> string list \<Rightarrow> jsval list bm" where
  "manifest_files env backupPath [] = bret []"
| "manifest_files env backupPath (f # fs) =
     bbnd (existsSync (path_join (b_dirname env) f)) (\<lambda>ex.
     bbnd (existsSync (path_join backupPath f)) (\<lambda>bu.
     bbnd (manifest_files env backupPath fs) (\<lambda>r.
       bret (JObj [(''name'', JStr f), (''exists'', JBool ex), (''backedUp'', JBool bu)] # r))))"

text \<open>\<open>JSON.stringify(v, null, 2)\<close>\<close>

fun pretty :: "nat \<Rightarrow> jsval \<Rightarrow> string" where
  "pretty n (JArr vs) = (if vs = [] then ''[]'' else
     ''['' @ js_join '','' (map (\<lambda>v. CHR 0x0A # replicate (n + 2) CHR '' '' @ pretty (n + 2) v) vs)
       @ CHR 0x0A # replicate n CHR '' '' @ '']'')"
| "pretty n (JObj m) = (if m = [] then ''{}'' else
     ''{'' @ js_join '','' (map (\<lambda>(k, v). CHR 0x0A # replicate (n + 2) CHR '' '' @ json_string k @ '': '' @ pretty (n + 2) v) m)
       @ CHR 0x0A # replicate n CHR '' '' @ ''}'')"
| "pretty n v = stringify v"

datatype backup_result = BackupDone string jsval | BackupFailed string

definition performBackup :: "benv \<Rightarrow> backup_result bm" where
  "performBackup env =
     bthen (ensureBackupDir env)
     (bbnd (getTimestamp env) (\<lambda>timestamp.
      let backupPath = path_join (BACKUP_DIR env) (''backup_'' @ timestamp) in
      btry
        (bthen (mkdirSync env backupPath)
        (bthen (log env (''Starting backup to: '' @ backupPath))
        (bbnd (backup_files env backupPath filesToBackup 0 0) (\<lambda>(successCount, failCount).
         bbnd (manifest_files env backupPath filesToBackup) (\<lambda>fs.
         let manifest = JObj [(''timestamp'', JStr timestamp), (''files'', JArr fs),
               (''totalFiles'', JNum (int (length filesToBackup))),
               (''successCount'', JNum (int successCount)), (''failCount'', JNum (int failCount))] in
         bthen (writeFileSync env (path_join backupPath ''manifest.json'') (pretty 0 manifest))
         (bthen (log env (''Backup completed. Success: '' @ dec_nat successCount @ '', Failed: '' @ dec_nat failCount))
         (bthen (cleanOldBackups env) (bret (BackupDone backupPath manifest)))))))))
        (\<lambda>e. bthen (log env (''Backup failed: '' @ e)) (bret (BackupFailed e)))))"

section \<open>Listing\<close>

definition manifest_info :: "benv \<Rightarrow> string \<Rightarrow> string bm" where
  "manifest_info env p = bbnd (existsSync p) (\<lambda>ex. if \<not> ex then bret [] else
     btry (bbnd (readFileSync env p) (\<lambda>c. case b_parse env c of
         None \<Rightarrow> (\<lambda>s. (Inl ''SyntaxError'', s))
       | Some mf \<Rightarrow> (\<lambda>s. (case ebind (jget mf ''successCount'') (\<lambda>a. ebind (jget mf ''totalFiles'') (\<lambda>b.
             ebind (js_ToString a) (\<lambda>x. ebind (js_ToString b) (\<lambda>y. Inr ('' | Files: '' @ x @ ''/'' @ y))))) of
           Inl _ \<Rightarrow> Inl ''TypeError'' | Inr x \<Rightarrow> Inr x, s))))
       (\<lambda>_. bret []))"

fun list_lines :: "benv \<Rightarrow> nat \<Rightarrow> (string \<times> int) list \<Rightarrow> unit bm" where
  "list_lines env i [] = bret ()"
| "list_lines env i (b # bs) =
     bbnd (manifest_info env (path_join (path_join (BACKUP_DIR env) (fst b)) ''manifest.json'')) (\<lambda>inf.
     bthen (bsay (dec_nat (i + 1) @ ''. '' @ fst b @ inf @ '' | '' @ b_locale env (snd b)))
       (list_lines env (i + 1) bs))"

definition listBackups :: "benv \<Rightarrow> unit bm" where
  "listBackups env = bthen (ensureBackupDir env) (btry
     (bbnd (readdirSync env (BACKUP_DIR env)) (\<lambda>entries.
      bbnd (stat_all env (filter (\<lambda>e. startsWith e ''backup_'') entries)) (\<lambda>stats.
      let backupDirs = newest_first stats in
      bthen (bsay (CHR 0x0A # ''Available backups:''))
      (bthen (bsay ''-----------------'')
      (bthen (if backupDirs = [] then bsay ''No backups found.'' else list_lines env 0 backupDirs)
        (bsay []))))))
     (\<lambda>e. bsay (''Error listing backups: '' @ e)))"

section \<open>Restoring\<close>

definition restoreFile :: "benv \<Rightarrow> string \<Rightarrow> string \<Rightarrow> unit bm" where
  "restoreFile env backupName fileName = bthen (ensureBackupDir env)
     (if \<not> isSafeBackupName backupName then
        bsay (''Invalid backup name (must match backup_YYYYMMDD_HHMMSS): '' @ backupName)
      else if \<not> isAllowedFileName fileName then
        bsay (''Invalid file name (must be one of: '' @ js_join '', '' filesToBackup @ ''): '' @ fileName)
      else
        let backupPath = path_resolve (BACKUP_DIR env) backupName;
            srcPath = path_resolve backupPath fileName;
            dstPath = path_resolve (b_dirname env) fileName in
        if \<not> startsWith backupPath (BACKUP_DIR env @ ''/'') then
          bsay (''Backup path escapes backup directory: '' @ backupPath)
        else if \<not> startsWith srcPath (backupPath @ ''/'') then
          bsay (''Source path escapes backup directory: '' @ srcPath)
        else if \<not> startsWith dstPath (b_dirname env @ ''/'') then
          bsay (''Destination path escapes script directory: '' @ dstPath)
        else bbnd (existsSync backupPath) (\<lambda>exb. if \<not> exb then bsay (''Backup not found: '' @ backupName)
        else bbnd (existsSync srcPath) (\<lambda>exs. if \<not> exs then bsay (''File not found in backup: '' @ fileName)
        else btry
          (bthen (bbnd (existsSync dstPath) (\<lambda>exd. if exd then
               bthen (copyFileSync env dstPath (dstPath @ ''.restore_backup''))
                 (bsay (''Backed up current file to: '' @ dstPath @ ''.restore_backup''))
               else bret ()))
          (bthen (copyFileSync env srcPath dstPath)
          (bthen (bsay (''Successfully restored '' @ fileName @ '' from '' @ backupName))
            (log env (''Restored '' @ fileName @ '' from '' @ backupName)))))
          (\<lambda>e. bsay (''Failed to restore '' @ fileName @ '': '' @ e)))))"

section \<open>The command line\<close>

fun index_of :: "string \<Rightarrow> string list \<Rightarrow> nat option" where
  "index_of a [] = None"
| "index_of a (x # xs) = (if x = a then Some 0 else map_option Suc (index_of a xs))"

definition nth_arg :: "string list \<Rightarrow> nat \<Rightarrow> string" where
  "nth_arg args i = (if i < length args then args ! i else [])"

definition help_text :: string where
  "help_text = js_join [CHR 0x0A] [[], ''RCPU Backup Script'', ''=================='', [], ''Usage:'',
     ''  node backup.js           - Perform immediate backup'',
     ''  node backup.js --help    - Show this help'',
     ''  node backup.js --list    - List all backups'',
     ''  node backup.js --restore <backup_name> <file> - Restore a specific file'', [],
     ''Examples:'', ''  node backup.js'', ''  node backup.js --list'',
     ''  node backup.js --restore backup_20260726_150000 stratum-proxy-pool.js'', []]"

text \<open>A missing argument is undefined, which is as falsy as an empty one.\<close>

definition main :: "benv \<Rightarrow> string list \<Rightarrow> unit bm" where
  "main env args =
     (if ''--help'' \<in> set args \<or> ''-h'' \<in> set args then bsay help_text
      else if ''--list'' \<in> set args \<or> ''-l'' \<in> set args then listBackups env
      else if ''--restore'' \<in> set args \<or> ''-r'' \<in> set args then
        (let restoreIndex = (case index_of ''--restore'' args of Some i \<Rightarrow> i | None \<Rightarrow> the (index_of ''-r'' args));
             backupName = nth_arg args (restoreIndex + 1); fileName = nth_arg args (restoreIndex + 2) in
         if backupName \<noteq> [] \<and> fileName \<noteq> [] then restoreFile env backupName fileName
         else bsay ''Usage: node backup.js --restore <backup_name> <file>'')
      else bthen (performBackup env) (bret ()))"

section \<open>Lemmas on paths\<close>

text \<open>A name of one directory entry.\<close>

definition good_seg :: "string \<Rightarrow> bool" where
  "good_seg s \<longleftrightarrow> s \<noteq> [] \<and> s \<noteq> ''.'' \<and> s \<noteq> ''..'' \<and> CHR ''/'' \<notin> set s"

lemma split_sep_nonempty [simp]: "split_sep s \<noteq> []"
  by (cases s) (auto split: list.split)

lemma split_sep_single: "CHR ''/'' \<notin> set s \<Longrightarrow> split_sep s = [s]"
  by (induction s) auto

lemma split_sep_append: "CHR ''/'' \<notin> set s \<Longrightarrow> split_sep (s @ CHR ''/'' # t) = s # split_sep t"
  by (induction s) auto

lemma split_sep_slash: "split_sep (CHR ''/'' # t) = [] # split_sep t"
  by simp

lemma split_sep_path:
  "list_all good_seg segs \<Longrightarrow> segs \<noteq> [] \<Longrightarrow> split_sep (path_of segs) = [] # segs"
proof (induction segs)
  case (Cons s ss)
  then have s: "CHR ''/'' \<notin> set s" by (simp add: good_seg_def)
  show ?case
  proof (cases "ss = []")
    case True
    then show ?thesis using s by (simp add: path_of_def split_sep_single)
  next
    case False
    then obtain u us where ss: "ss = u # us" by (cases ss) auto
    have "split_sep (path_of ss) = [] # ss" using Cons False by simp
    then have "split_sep (u @ concat (map (\<lambda>s. CHR ''/'' # s) us)) = u # us" by (simp add: ss path_of_def)
    then show ?thesis using s by (simp add: ss path_of_def split_sep_append)
  qed
qed simp

lemma norm_good: "list_all good_seg segs \<Longrightarrow> norm_segs acc (segs @ rest) = norm_segs (rev segs @ acc) rest"
  by (induction segs arbitrary: acc) (auto simp: good_seg_def)

lemma norm_path:
  "list_all good_seg segs \<Longrightarrow> norm_segs [] (split_sep (path_of segs) @ rest) = norm_segs (rev segs) rest"
proof (cases "segs = []")
  case True
  then show ?thesis by (simp add: path_of_def)
qed (simp add: split_sep_path norm_good)

lemma norm_path_nil: "list_all good_seg segs \<Longrightarrow> norm_segs [] (split_sep (path_of segs)) = segs"
  using norm_path [of segs "[]"] by simp

lemma join_good:
  assumes "list_all good_seg segs" and "good_seg n"
  shows "path_join (path_of segs) n = path_of (segs @ [n])"
  using assms by (simp add: path_join_def norm_path split_sep_single good_seg_def)

lemma resolve_good:
  assumes "list_all good_seg segs" and "good_seg n"
  shows "path_resolve (path_of segs) n = path_of (segs @ [n])"
proof -
  have "take 1 n \<noteq> ''/''" using assms(2) by (cases n) (auto simp: good_seg_def)
  then show ?thesis using assms by (simp add: path_resolve_def norm_path split_sep_single good_seg_def)
qed

lemma parent_good:
  assumes "list_all good_seg segs" and "good_seg n"
  shows "path_parent (path_of (segs @ [n])) = path_of segs"
  using assms by (simp add: path_parent_def norm_path_nil)

lemma path_of_snoc: "segs \<noteq> [] \<Longrightarrow> path_of (segs @ [n]) = path_of segs @ ''/'' @ n"
  by (simp add: path_of_def)

lemma path_of_inj:
  assumes "list_all good_seg a" and "list_all good_seg b" and "path_of a = path_of b"
  shows "a = b"
  using norm_path_nil assms by metis

lemma startsWith_append [simp]: "startsWith (t @ s) t"
  by (simp add: startsWith_def)

lemma path_under:
  "segs \<noteq> [] \<Longrightarrow> startsWith (path_of (segs @ [n])) (path_of segs @ ''/'')"
  by (simp add: path_of_snoc startsWith_def)

section \<open>Lemmas on names\<close>

lemma isSafe_split:
  assumes "isSafeBackupName n"
  shows "n = ''backup_'' @ take 8 (drop 7 n) @ ''_'' @ drop 16 n"
proof -
  have l: "length n = 22" "take 7 n = ''backup_''" "n ! 15 = CHR ''_''" using assms by (auto simp: isSafeBackupName_def)
  have "n = take 7 n @ drop 7 n" by simp
  also have "drop 7 n = take 8 (drop 7 n) @ drop 15 n" using append_take_drop_id [of 8 "drop 7 n"] by simp
  also have "drop 15 n = n ! 15 # drop 16 n" using Cons_nth_drop_Suc [of 15 n] l(1) by simp
  finally show ?thesis using l by simp
qed

lemma digit_not_sep: "is_digit c \<Longrightarrow> c \<noteq> CHR ''/''"
  by (auto simp: is_digit_def)

lemma isSafe_good: "isSafeBackupName n \<Longrightarrow> good_seg n"
proof -
  assume h: "isSafeBackupName n"
  have "CHR ''/'' \<notin> set (take 8 (drop 7 n))" "CHR ''/'' \<notin> set (drop 16 n)"
    using h digit_not_sep by (auto simp: isSafeBackupName_def list_all_iff)
  then have "CHR ''/'' \<notin> set n" by (subst isSafe_split [OF h]) simp
  moreover have "length n = 22" using h by (simp add: isSafeBackupName_def)
  ultimately show ?thesis by (auto simp: good_seg_def)
qed

lemma allowed_good:
  assumes "isAllowedFileName f"
  shows "good_seg f" and "good_seg (f @ ''.restore_backup'')"
  using assms by (auto simp: isAllowedFileName_def filesToBackup_def good_seg_def)

text \<open>The script's directory is an absolute path without dots.\<close>

definition dir_ok :: "string list \<Rightarrow> benv \<Rightarrow> bool" where
  "dir_ok segs env \<longleftrightarrow> list_all good_seg segs \<and> segs \<noteq> [] \<and> b_dirname env = path_of segs"

lemma good_names: "good_seg ''backups''" "good_seg ''backup.log''" "good_seg ''manifest.json''"
  by (simp_all add: good_seg_def)

lemma BACKUP_DIR_path: "dir_ok segs env \<Longrightarrow> BACKUP_DIR env = path_of (segs @ [''backups''])"
  by (simp add: BACKUP_DIR_def dir_ok_def join_good good_names)

lemma dir_paths:
  assumes "dir_ok segs env" and "good_seg n"
  shows "path_join (b_dirname env) n = path_of (segs @ [n])"
    and "path_resolve (b_dirname env) n = path_of (segs @ [n])"
    and "path_join (BACKUP_DIR env) n = path_of (segs @ [''backups'', n])"
    and "path_resolve (BACKUP_DIR env) n = path_of (segs @ [''backups'', n])"
proof -
  have g: "list_all good_seg (segs @ [''backups''])" using assms by (simp add: dir_ok_def good_names)
  show "path_join (b_dirname env) n = path_of (segs @ [n])" "path_resolve (b_dirname env) n = path_of (segs @ [n])"
    using assms by (simp_all add: dir_ok_def join_good resolve_good)
  show "path_join (BACKUP_DIR env) n = path_of (segs @ [''backups'', n])"
    "path_resolve (BACKUP_DIR env) n = path_of (segs @ [''backups'', n])"
    using join_good [OF g assms(2)] resolve_good [OF g assms(2)] by (simp_all add: BACKUP_DIR_path [OF assms(1)])
qed

section \<open>What an operation leaves alone\<close>

text \<open>\<open>m\<close> changes no entry outside \<open>P\<close>, whatever fails.\<close>

definition confined :: "(string \<Rightarrow> bool) \<Rightarrow> 'a bm \<Rightarrow> bool" where
  "confined P m \<longleftrightarrow> (\<forall>s r s'. m s = (r, s') \<longrightarrow> (\<forall>p. \<not> P p \<longrightarrow> map_of (files s') p = map_of (files s) p))"

lemma confinedD: "confined P m \<Longrightarrow> m s = (r, s') \<Longrightarrow> \<not> P p \<Longrightarrow> map_of (files s') p = map_of (files s) p"
  by (simp add: confined_def)

named_theorems confined_rules

lemma confined_basic [confined_rules]:
  "confined P (bret x)" "confined P (bsay l)" "confined P (bfiles f)" "confined P (bclock g)"
  "confined P (existsSync q)"
  by (auto simp: confined_def bret_def bsay_def bfiles_def bclock_def existsSync_def)

lemma confined_bbnd [confined_rules]: "confined P m \<Longrightarrow> (\<And>x. confined P (f x)) \<Longrightarrow> confined P (bbnd m f)"
  by (fastforce simp: confined_def bbnd_def split: prod.splits sum.splits)

lemma confined_bthen [confined_rules]: "confined P m \<Longrightarrow> confined P k \<Longrightarrow> confined P (bthen m k)"
  by (simp add: bthen_def confined_bbnd)

lemma confined_btry [confined_rules]: "confined P m \<Longrightarrow> (\<And>e. confined P (h e)) \<Longrightarrow> confined P (btry m h)"
  by (fastforce simp: confined_def btry_def split: prod.splits sum.splits)

lemma confined_if [confined_rules]:
  "(c \<Longrightarrow> confined P a) \<Longrightarrow> (\<not> c \<Longrightarrow> confined P b) \<Longrightarrow> confined P (if c then a else b)"
  by simp

lemma confined_prod [confined_rules]: "(\<And>a b. confined P (f a b)) \<Longrightarrow> confined P (case x of (a, b) \<Rightarrow> f a b)"
  by (cases x) simp

lemma confined_bio:
  assumes "\<And>t fs x fs' p. f t fs = Inr (x, fs') \<Longrightarrow> \<not> P p \<Longrightarrow> map_of fs' p = map_of fs p"
  shows "confined P (bio env f)"
  using assms by (auto simp: confined_def bio_def Let_def split: option.splits sum.splits prod.splits)

lemma confined_mono: "confined P m \<Longrightarrow> (\<And>p. P p \<Longrightarrow> Q p) \<Longrightarrow> confined Q m"
  unfolding confined_def by blast

lemma fs_touch_other: "p \<noteq> d \<Longrightarrow> map_of (fs_touch t d fs) p = map_of fs p"
  by (simp add: fs_touch_def update_conv')

lemma fs_write_other:
  "fs_write t q c fs = Inr fs' \<Longrightarrow> p \<noteq> q \<Longrightarrow> p \<noteq> path_parent q \<Longrightarrow> map_of fs' p = map_of fs p"
  by (auto simp: fs_write_def update_conv' fs_touch_other split: option.splits fnode.splits if_splits)

lemma upd_Inr [simp]: "upd r = Inr (x, fs') \<longleftrightarrow> r = Inr fs'"
  by (cases r) (auto simp: upd_def)

lemma confined_write:
  assumes "P q" and "P (path_parent q)"
  shows "confined P (writeFileSync env q c)" "confined P (appendFileSync env q c)" "confined P (copyFileSync env src q)"
  unfolding writeFileSync_def appendFileSync_def copyFileSync_def
  by (rule confined_bio; use assms in \<open>auto dest!: fs_write_other split: option.splits fnode.splits\<close>)+

lemma confined_read [confined_rules]:
  "confined P (statSync env q)" "confined P (readFileSync env q)" "confined P (readdirSync env q)"
  unfolding statSync_def readFileSync_def readdirSync_def
  by (rule confined_bio; auto split: option.splits fnode.splits if_splits)+

lemma fs_mkdir_other:
  "fs_mkdir t q fs = Inr fs' \<Longrightarrow> p \<noteq> q \<Longrightarrow> p \<noteq> path_parent q \<Longrightarrow> map_of fs' p = map_of fs p"
  by (auto simp: fs_mkdir_def update_conv' fs_touch_other split: option.splits fnode.splits)

lemma fs_mkdirs_other:
  assumes "fs_mkdirs t ds ss fs = Inr fs'" and "list_all good_seg (ds @ ss)" and "\<And>k. p \<noteq> path_of (take k (ds @ ss))"
  shows "map_of fs' p = map_of fs p"
  using assms
proof (induction ss arbitrary: ds fs)
  case (Cons s ss)
  then obtain fs1 where 1: "fs_mkdir t (path_of (ds @ [s])) fs = Inr fs1" and 2: "fs_mkdirs t (ds @ [s]) ss fs1 = Inr fs'"
    by auto
  have "p \<noteq> path_of (ds @ [s])" "p \<noteq> path_of ds"
    using Cons.prems(3) [of "Suc (length ds)"] Cons.prems(3) [of "length ds"] by auto
  then have "map_of fs1 p = map_of fs p"
    using fs_mkdir_other [OF 1] parent_good [of ds s] Cons.prems(2) by simp
  moreover have "map_of fs' p = map_of fs1 p"
    by (rule Cons.IH [OF 2]) (use Cons.prems(2,3) in auto)
  ultimately show ?case by simp
qed simp

lemma confined_mkdir:
  assumes "list_all good_seg segs" and "\<And>k. P (path_of (take k segs))"
  shows "confined P (mkdirSync env (path_of segs))"
  unfolding mkdirSync_def
proof (rule confined_bio)
  fix t fs x fs' p
  assume h: "upd (fs_mkdirs t [] (norm_segs [] (split_sep (path_of segs))) fs) = Inr (x, fs')" and p: "\<not> P p"
  then have "fs_mkdirs t [] segs fs = Inr fs'" using assms(1) by (simp add: norm_path_nil)
  then show "map_of fs' p = map_of fs p"
    using fs_mkdirs_other [of t "[]" segs fs fs' p] assms p by auto
qed

lemma map_of_filter_key: "map_of (filter (\<lambda>(q, _). Q q) al) p = (if Q p then map_of al p else None)"
  by (induction al) auto

lemma fs_remove_other:
  "p \<noteq> q \<Longrightarrow> \<not> startsWith p (q @ ''/'') \<Longrightarrow> p \<noteq> path_parent q \<Longrightarrow> map_of (fs_remove t q fs) p = map_of fs p"
  using map_of_filter_key [of "\<lambda>p. p \<noteq> q \<and> \<not> startsWith p (q @ ''/'')" "fs_touch t (path_parent q) fs" p]
  by (simp add: fs_remove_def fs_touch_other)

lemma confined_rm:
  assumes "P q" and "P (path_parent q)" and "\<And>p. startsWith p (q @ ''/'') \<Longrightarrow> P p"
  shows "confined P (rmSync env q)"
  unfolding rmSync_def
proof (rule confined_bio)
  fix t fs x fs' p
  assume "Inr ((), fs_remove t q fs) = Inr (x, fs')" and "\<not> P p"
  moreover from \<open>\<not> P p\<close> have "p \<noteq> q" "\<not> startsWith p (q @ ''/'')" "p \<noteq> path_parent q" using assms by auto
  ultimately show "map_of fs' p = map_of fs p" by (auto simp: fs_remove_other)
qed

section \<open>Restoring touches only the script's own files\<close>

text \<open>
  The log file with its directory, and the directories on the way to it, which the script makes when
  they are missing.
\<close>

definition log_paths :: "string list \<Rightarrow> string \<Rightarrow> bool" where
  "log_paths segs p \<longleftrightarrow> p = path_of (segs @ [''backups'', ''backup.log'']) \<or>
     (\<exists>k. p = path_of (take k (segs @ [''backups''])))"

lemma log_paths_dirs:
  "log_paths segs (path_of (segs @ [''backups'']))" "log_paths segs (path_of segs)"
  unfolding log_paths_def
  by (rule disjI2, rule exI [of _ "Suc (length segs)"], simp) (rule disjI2, rule exI [of _ "length segs"], simp)

lemma confined_log:
  assumes "dir_ok segs env" and "\<And>p. log_paths segs p \<Longrightarrow> P p"
  shows "confined P (log env msg)"
proof -
  have g: "list_all good_seg (segs @ [''backups''])" using assms(1) by (simp add: dir_ok_def good_names)
  have q: "path_join (BACKUP_DIR env) ''backup.log'' = path_of ((segs @ [''backups'']) @ [''backup.log''])"
    using dir_paths(3) [OF assms(1) good_names(2)] by simp
  have par: "path_parent (path_join (BACKUP_DIR env) ''backup.log'') = path_of (segs @ [''backups''])"
    unfolding q by (rule parent_good [OF g good_names(2)])
  have "P (path_join (BACKUP_DIR env) ''backup.log'')" "P (path_parent (path_join (BACKUP_DIR env) ''backup.log''))"
    unfolding par using q log_paths_dirs by (auto intro!: assms(2) simp: log_paths_def)
  then show ?thesis unfolding log_def Let_def by (intro confined_rules confined_write)
qed

lemma confined_ensure:
  assumes "dir_ok segs env" and "\<And>p. log_paths segs p \<Longrightarrow> P p"
  shows "confined P (ensureBackupDir env)"
proof -
  have "list_all good_seg (segs @ [''backups''])" using assms(1) by (simp add: dir_ok_def good_names)
  then have "confined P (mkdirSync env (BACKUP_DIR env))"
    unfolding BACKUP_DIR_path [OF assms(1)]
  proof (rule confined_mkdir)
    show "P (path_of (take k (segs @ [''backups''])))" for k
      by (rule assms(2)) (unfold log_paths_def, blast)
  qed
  then show ?thesis unfolding ensureBackupDir_def by (intro confined_rules confined_log [OF assms])
qed

definition restore_paths :: "string list \<Rightarrow> string \<Rightarrow> bool" where
  "restore_paths segs p \<longleftrightarrow> log_paths segs p \<or>
     (\<exists>f \<in> set filesToBackup. p = path_of (segs @ [f]) \<or> p = path_of (segs @ [f @ ''.restore_backup'']))"

lemma confined_restore:
  assumes ok: "dir_ok segs env"
  shows "confined (restore_paths segs) (restoreFile env backupName fileName)"
proof -
  let ?P = "restore_paths segs"
  have l: "\<And>p. log_paths segs p \<Longrightarrow> ?P p" by (simp add: restore_paths_def)
  have g: "list_all good_seg segs" "segs \<noteq> []" using ok by (simp_all add: dir_ok_def)
  have w: "confined ?P (copyFileSync env src (path_resolve (b_dirname env) fileName @ sfx))"
    if "isAllowedFileName fileName" "sfx = [] \<or> sfx = ''.restore_backup''" for src sfx
  proof -
    have gf: "good_seg fileName" "good_seg (fileName @ sfx)" using allowed_good [OF that(1)] that(2) by auto
    have e: "path_resolve (b_dirname env) fileName @ sfx = path_of (segs @ [fileName @ sfx])"
      using dir_paths(2) [OF ok gf(1)] g(2) by (simp add: path_of_def)
    have "?P (path_of (segs @ [fileName @ sfx]))" using that by (auto simp: restore_paths_def isAllowedFileName_def)
    moreover have "?P (path_parent (path_of (segs @ [fileName @ sfx])))"
      unfolding parent_good [OF g(1) gf(2)] by (intro l log_paths_dirs)
    ultimately show ?thesis unfolding e by (rule confined_write)
  qed
  have w0: "confined ?P (copyFileSync env src (path_resolve (b_dirname env) fileName))"
    if "isAllowedFileName fileName" for src using w [OF that, of "[]"] by simp
  show ?thesis unfolding restoreFile_def Let_def
    by (intro confined_rules confined_ensure [OF ok l] confined_log [OF ok l] w w0)
      (simp_all add: confined_rules)
qed

text \<open>Pruning.\<close>

definition under :: "string list \<Rightarrow> string \<Rightarrow> string \<Rightarrow> bool" where
  "under segs n p \<longleftrightarrow> p = path_of (segs @ [''backups'', n]) \<or> startsWith p (path_of (segs @ [''backups'', n]) @ ''/'')"

lemma confined_delete_all:
  assumes ok: "dir_ok segs env" and "\<forall>b \<in> set bs. isSafeBackupName (fst b)"
  shows "confined (\<lambda>p. log_paths segs p \<or> (\<exists>b \<in> set bs. under segs (fst b) p)) (delete_all env bs)"
  using assms(2)
proof (induction bs)
  case (Cons b bs)
  let ?P = "\<lambda>p. log_paths segs p \<or> (\<exists>b \<in> set (b # bs). under segs (fst b) p)"
  have gb: "good_seg (fst b)" using Cons.prems isSafe_good by simp
  have e: "path_resolve (BACKUP_DIR env) (fst b) = path_of ((segs @ [''backups'']) @ [fst b])"
    using dir_paths(4) [OF ok gb] by simp
  have g: "list_all good_seg (segs @ [''backups''])" using ok by (simp add: dir_ok_def good_names)
  have "confined ?P (rmSync env (path_resolve (BACKUP_DIR env) (fst b)))"
    unfolding e using log_paths_dirs parent_good [OF g gb]
    by (intro confined_rm) (auto simp: under_def)
  moreover have "confined ?P (delete_all env bs)"
    by (rule confined_mono [OF Cons.IH]) (use Cons.prems in auto)
  ultimately show ?case unfolding delete_all.simps Let_def
    by (intro confined_rules confined_log [OF ok]) simp_all
qed (simp add: confined_rules)

lemma newest_first_set: "set (newest_first bs) = set bs"
  by (simp add: newest_first_def)

lemma stat_all_names: "stat_all env es s = (Inr r, s') \<Longrightarrow> map fst r = es"
proof (induction es arbitrary: s s' r)
  case (Cons e es)
  then show ?case
    by (auto simp: bbnd_def bret_def split: prod.splits sum.splits)
qed (simp add: bret_def)

section \<open>Pruning keeps the newest backups\<close>

text \<open>The safe entries of the backup directory with their modification times, and those to delete.\<close>

definition stats_of :: "benv \<Rightarrow> fs \<Rightarrow> (string \<times> int) list" where
  "stats_of env fs = map (\<lambda>n. (n, mtime (the (map_of fs (path_join (BACKUP_DIR env) n)))))
     (filter isSafeBackupName (fs_names (BACKUP_DIR env) fs))"

definition prunable :: "benv \<Rightarrow> fs \<Rightarrow> (string \<times> int) list" where
  "prunable env fs = drop KEEP_BACKUPS (newest_first (stats_of env fs))"

lemma stat_all_result:
  "stat_all env es s = (r, s') \<Longrightarrow> files s' = files s \<and>
    (\<forall>x. r = Inr x \<longrightarrow> x = map (\<lambda>n. (n, mtime (the (map_of (files s) (path_join (BACKUP_DIR env) n))))) es)"
proof (induction es arbitrary: s s' r)
  case (Cons e es)
  then show ?case
    by (fastforce simp: bbnd_def bret_def statSync_def bio_def Let_def split: prod.splits sum.splits option.splits)
qed (auto simp: bret_def)

lemma readdir_result:
  "readdirSync env d s = (r, s') \<Longrightarrow> files s' = files s \<and> (\<forall>x. r = Inr x \<longrightarrow> x = fs_names d (files s))"
  by (auto simp: readdirSync_def bio_def Let_def split: option.splits if_splits)

lemma prunable_safe: "b \<in> set (prunable env fs) \<Longrightarrow> isSafeBackupName (fst b)"
proof -
  assume "b \<in> set (prunable env fs)"
  then have "b \<in> set (stats_of env fs)"
    unfolding prunable_def by (metis in_set_dropD newest_first_set)
  then show ?thesis by (auto simp: stats_of_def)
qed

text \<open>The body of the try block runs one of three ways.\<close>

lemma clean_confined:
  assumes ok: "dir_ok segs env" and run: "cleanOldBackups env s = (r, s')"
    and p: "\<not> log_paths segs p" "\<forall>b \<in> set (prunable env (files s)). \<not> under segs (fst b) p"
  shows "map_of (files s') p = map_of (files s) p"
proof -
  let ?P = "\<lambda>p. log_paths segs p \<or> (\<exists>b \<in> set (prunable env (files s)). under segs (fst b) p)"
  have np: "\<not> ?P p" using p by blast
  have lg: "confined ?P (log env m)" for m by (rule confined_log [OF ok]) simp
  have del: "confined ?P (delete_all env (prunable env (files s)))"
    by (rule confined_delete_all [OF ok]) (simp add: prunable_safe)
  have ret: "confined ?P (bret ())" by (rule confined_basic)
  obtain r1 s1 where 1: "readdirSync env (BACKUP_DIR env) s = (r1, s1)" by (cases "readdirSync env (BACKUP_DIR env) s")
  have f1: "files s1 = files s" using readdir_result [OF 1] by simp
  let ?body = "bbnd (readdirSync env (BACKUP_DIR env)) (\<lambda>entries.
      bbnd (stat_all env (filter isSafeBackupName entries)) (\<lambda>stats.
      let backupDirs = newest_first stats in
      if length backupDirs > KEEP_BACKUPS then delete_all env (drop KEEP_BACKUPS backupDirs) else bret ()))"
  have body: "map_of (files t') p = map_of (files s) p" if "?body s = (q, t')" for q t'
  proof (cases r1)
    case (Inl e)
    with that 1 f1 show ?thesis by (auto simp: bbnd_def)
  next
    case (Inr entries)
    with readdir_result [OF 1] have en: "entries = fs_names (BACKUP_DIR env) (files s)" by simp
    obtain r2 s2 where 2: "stat_all env (filter isSafeBackupName entries) s1 = (r2, s2)"
      by (cases "stat_all env (filter isSafeBackupName entries) s1")
    have f2: "files s2 = files s" and st: "r2 = Inr x \<Longrightarrow> x = stats_of env (files s)" for x
      using stat_all_result [OF 2] f1 en by (auto simp: stats_of_def)
    show ?thesis
    proof (cases r2)
      case (Inl e)
      with that 1 2 Inr f2 show ?thesis by (auto simp: bbnd_def)
    next
      case (Inr x)
      with st have x: "x = stats_of env (files s)" by simp
      have "(if length (newest_first x) > KEEP_BACKUPS then delete_all env (prunable env (files s)) else bret ()) s2 = (q, t')"
        using that 1 2 Inr \<open>r1 = Inr entries\<close> x by (auto simp: bbnd_def Let_def prunable_def split: if_splits)
      moreover have "confined ?P (if length (newest_first x) > KEEP_BACKUPS then delete_all env (prunable env (files s)) else bret ())"
        by (intro confined_if del ret)
      ultimately have "map_of (files t') p = map_of (files s2) p" using np by (blast intro: confinedD)
      then show ?thesis using f2 by simp
    qed
  qed
  obtain q t' where q: "?body s = (q, t')" by (cases "?body s")
  show ?thesis
  proof (cases q)
    case (Inl e)
    then have "log env (''Error cleaning old backups: '' @ e) t' = (r, s')"
      using run q by (simp add: cleanOldBackups_def btry_def)
    then have "map_of (files s') p = map_of (files t') p" using lg np by (blast intro: confinedD)
    then show ?thesis using body [OF q] by simp
  next
    case (Inr x)
    then show ?thesis using run q body [OF q] by (simp add: cleanOldBackups_def btry_def)
  qed
qed

lemma sorted_drop_count:
  assumes "sorted (map f xs)" and "b \<in> set (drop k xs)"
  shows "k \<le> length (filter (\<lambda>a. f a \<le> f b) xs)"
proof -
  have "k < length xs" using assms(2) by (cases "k < length xs") auto
  have "\<forall>a \<in> set (take k xs). f a \<le> f b"
  proof
    fix a assume "a \<in> set (take k xs)"
    moreover have "sorted (map f (take k xs) @ map f (drop k xs))" using assms(1) by (metis append_take_drop_id map_append)
    ultimately show "f a \<le> f b" using assms(2) by (auto simp: sorted_append)
  qed
  then have "filter (\<lambda>a. f a \<le> f b) (take k xs) = take k xs" by (simp add: filter_id_conv)
  then have "length (filter (\<lambda>a. f a \<le> f b) (take k xs @ drop k xs)) \<ge> length (take k xs)"
    unfolding filter_append by simp
  with \<open>k < length xs\<close> show ?thesis by simp
qed

text \<open>An entry is deleted only when ten entries are at least as new.\<close>

lemma prunable_old:
  assumes "b \<in> set (prunable env fs)"
  shows "10 \<le> length (filter (\<lambda>a. snd b \<le> snd a) (stats_of env fs))"
proof -
  let ?L = "newest_first (stats_of env fs)"
  have "10 \<le> length (filter (\<lambda>a. - snd a \<le> - snd b) ?L)"
    using sorted_drop_count [of "\<lambda>b. - snd b" ?L b 10] assms
    by (simp add: prunable_def KEEP_BACKUPS_def newest_first_def)
  moreover have "mset ?L = mset (stats_of env fs)" by (simp add: newest_first_def)
  then have "mset (filter (\<lambda>a. snd b \<le> snd a) ?L) = mset (filter (\<lambda>a. snd b \<le> snd a) (stats_of env fs))"
    by (simp only: mset_filter)
  then have "length (filter (\<lambda>a. snd b \<le> snd a) ?L) = length (filter (\<lambda>a. snd b \<le> snd a) (stats_of env fs))"
    by (rule mset_eq_length)
  ultimately show ?thesis by simp
qed

section \<open>Runs without faults\<close>

definition nofail :: "benv \<Rightarrow> bool" where
  "nofail env \<longleftrightarrow> (\<forall>t. b_fail env t = None)"

text \<open>The entry \<open>d/n\<close>, where \<open>n\<close> is a name.\<close>

definition child :: "string \<Rightarrow> string \<Rightarrow> bool" where
  "child d p \<longleftrightarrow> startsWith p (d @ ''/'') \<and> CHR ''/'' \<notin> set (drop (length d + 1) p) \<and> drop (length d + 1) p \<noteq> []"

lemma fs_names_child: "fs_names d fs = map (\<lambda>(p, _). drop (length d + 1) p) (filter (\<lambda>(p, _). child d p) fs)"
  by (simp add: fs_names_def child_def conj_ac)

lemma child_name: "child d p \<Longrightarrow> p = d @ ''/'' @ drop (length d + 1) p"
  unfolding child_def startsWith_def by (metis append_assoc append_take_drop_id length_append_singleton Suc_eq_plus1)

lemma fs_names_mem: "n \<in> set (fs_names d fs) \<Longrightarrow> d @ ''/'' @ n \<in> fst ` set fs"
proof -
  assume "n \<in> set (fs_names d fs)"
  then obtain p v where "(p, v) \<in> set fs" "child d p" "n = drop (length d + 1) p" by (auto simp: fs_names_child)
  with child_name [of d p] show ?thesis by (metis fst_conv image_eqI)
qed

lemma fs_names_update:
  assumes "k \<in> fst ` set fs \<or> \<not> (child d k \<and> Q (drop (length d + 1) k))"
  shows "filter Q (fs_names d (AList.update k v fs)) = filter Q (fs_names d fs)"
  using assms
proof (induction fs)
  case (Cons a fs)
  obtain p w where a: "a = (p, w)" by (cases a)
  show ?case
  proof (cases "p = k")
    case True
    then show ?thesis by (simp add: a fs_names_child)
  next
    case False
    with Cons.prems have "k \<in> fst ` set fs \<or> \<not> (child d k \<and> Q (drop (length d + 1) k))" by (auto simp: a)
    from Cons.IH [OF this] False show ?thesis by (simp add: a fs_names_child)
  qed
qed (auto simp: fs_names_child)

lemma fs_names_touch: "fs_names d (fs_touch t q fs) = fs_names d fs"
proof (cases "is_dir fs q")
  case True
  then have "q \<in> fst ` set fs" by (auto simp: is_dir_def split: option.splits dest: map_of_SomeD) (metis fst_conv image_eqI map_of_SomeD)
  then have "filter (\<lambda>_. True) (fs_names d (AList.update q (FDir t) fs)) = filter (\<lambda>_. True) (fs_names d fs)"
    by (intro fs_names_update) simp
  with True show ?thesis by (simp add: fs_touch_def)
qed (simp add: fs_touch_def)

lemma child_not_below: "child d p \<Longrightarrow> CHR ''/'' \<notin> set n \<Longrightarrow> \<not> startsWith p (d @ ''/'' @ n @ ''/'')"
proof
  assume c: "child d p" and n: "CHR ''/'' \<notin> set n" and s: "startsWith p (d @ ''/'' @ n @ ''/'')"
  obtain m where p: "p = d @ ''/'' @ m" and m: "CHR ''/'' \<notin> set m" using c child_name by (metis child_def)
  have "take (length n + 1) m = n @ ''/''" using s by (simp add: p startsWith_def)
  then have "CHR ''/'' \<in> set m" by (metis in_set_conv_decomp in_set_takeD)
  with m show False by simp
qed

lemma fs_names_remove:
  assumes "CHR ''/'' \<notin> set n"
  shows "fs_names d (fs_remove t (d @ ''/'' @ n) fs) = filter (\<lambda>m. m \<noteq> n) (fs_names d fs)"
proof (cases "map_of fs (d @ ''/'' @ n) = None")
  case True
  then have "n \<notin> set (fs_names d fs)" using fs_names_mem [of n d fs] by (auto simp: map_of_eq_None_iff)
  then have "filter (\<lambda>m. m \<noteq> n) (fs_names d fs) = fs_names d fs" by (intro filter_True) auto
  with True show ?thesis by (simp add: fs_remove_def)
next
  case False
  have "fs_names d (filter (\<lambda>(q, _). q \<noteq> d @ ''/'' @ n \<and> \<not> startsWith q ((d @ ''/'' @ n) @ ''/'')) al) =
      filter (\<lambda>m. m \<noteq> n) (fs_names d al)" for al
  proof (induction al)
    case (Cons a al)
    obtain q v where a: "a = (q, v)" by (cases a)
    have "child d q \<Longrightarrow> q = d @ ''/'' @ n \<longleftrightarrow> drop (length d + 1) q = n" using child_name by fastforce
    moreover have "child d q \<Longrightarrow> \<not> startsWith q (d @ ''/'' @ n @ ''/'')" by (rule child_not_below [OF _ assms])
    ultimately show ?case using Cons by (cases "child d q") (simp_all add: fs_names_child a)
  qed (simp add: fs_names_child)
  with False show ?thesis by (auto simp: fs_remove_def fs_names_touch)
qed

definition log_ok :: "string list \<Rightarrow> fs \<Rightarrow> bool" where
  "log_ok segs fs \<longleftrightarrow> is_dir fs (path_of (segs @ [''backups''])) \<and> \<not> is_dir fs (path_of (segs @ [''backups'', ''backup.log'']))"

lemma is_dir_update: "is_dir (AList.update k v fs) p = (if p = k then (case v of FDir _ \<Rightarrow> True | _ \<Rightarrow> False) else is_dir fs p)"
  by (auto simp: is_dir_def update_conv' split: fnode.splits option.splits)

lemma is_dir_touch [simp]: "is_dir (fs_touch t q fs) p = is_dir fs p"
  by (auto simp: fs_touch_def is_dir_update)

lemma path_neq: "list_all good_seg a \<Longrightarrow> list_all good_seg b \<Longrightarrow> a \<noteq> b \<Longrightarrow> path_of a \<noteq> path_of b"
  using path_of_inj by blast

lemma log_run:
  assumes ok: "dir_ok segs env" and nf: "nofail env" and lo: "log_ok segs (files s)"
  shows "\<exists>s'. log env m s = (Inr (), s') \<and> log_ok segs (files s') \<and>
    filter isSafeBackupName (fs_names (BACKUP_DIR env) (files s')) = filter isSafeBackupName (fs_names (BACKUP_DIR env) (files s)) \<and>
    (\<forall>p. is_dir (files s) p \<longrightarrow> is_dir (files s') p)"
proof -
  let ?d = "segs @ [''backups'']"
  let ?q = "path_of (?d @ [''backup.log''])" and ?D = "path_of ?d"
  have g: "list_all good_seg ?d" "?d \<noteq> []" using ok by (auto simp: dir_ok_def good_names)
  have q: "path_join (BACKUP_DIR env) ''backup.log'' = ?q" "path_parent ?q = ?D" "BACKUP_DIR env = ?D"
    using dir_paths(3) [OF ok good_names(2)] parent_good [OF g(1) good_names(2)] BACKUP_DIR_path [OF ok] by simp_all
  have ne: "?q \<noteq> ?D" using g good_names by (intro path_neq) auto
  have qs: "?q = ?D @ ''/'' @ ''backup.log''" using path_of_snoc [OF g(2)] by simp
  have ns: "\<not> (child ?D ?q \<and> isSafeBackupName (drop (length ?D + 1) ?q))"
    unfolding qs by (simp add: isSafeBackupName_def)
  let ?ts = "b_iso env (tick s)"
  let ?m = "''['' @ ?ts @ ''] '' @ m"
  let ?t = "b_ms env (Suc (tick s))"
  obtain fs' where w: "fs_write ?t ?q ((case map_of (files s) ?q of Some (FFile c _) \<Rightarrow> c | _ \<Rightarrow> []) @ ?m @ [CHR 0x0A]) (files s) = Inr fs'"
    and fs': "fs' = AList.update ?q (FFile ((case map_of (files s) ?q of Some (FFile c _) \<Rightarrow> c | _ \<Rightarrow> []) @ ?m @ [CHR 0x0A]) ?t)
        (if map_of (files s) ?q = None then fs_touch ?t ?D (files s) else files s)"
    using lo q(2) by (auto simp: fs_write_def log_ok_def is_dir_def split: option.splits fnode.splits)
  have run: "log env m s = (Inr (), s\<lparr>tick := Suc (Suc (tick s)), console := console s @ [?m], files := fs'\<rparr>)"
    using w nf by (simp add: log_def bbnd_def bthen_def bclock_def bsay_def Let_def appendFileSync_def bio_def q(1) nofail_def upd_def)
  have "log_ok segs fs'" using lo ne by (auto simp: fs' log_ok_def is_dir_update)
  moreover have "filter isSafeBackupName (fs_names ?D fs') = filter isSafeBackupName (fs_names ?D (files s))"
    unfolding fs' using ns by (subst fs_names_update) (auto simp: fs_names_touch)
  moreover have "is_dir fs' p" if "is_dir (files s) p" for p
    using that lo by (auto simp: fs' is_dir_update log_ok_def)
  ultimately show ?thesis using run q(3) by auto
qed

lemma is_dir_remove:
  "is_dir (fs_remove t q fs) p \<longleftrightarrow> is_dir fs p \<and> (map_of fs q = None \<or> (p \<noteq> q \<and> \<not> startsWith p (q @ ''/'')))"
proof -
  have "is_dir (filter (\<lambda>(r, _). r \<noteq> q \<and> \<not> startsWith r (q @ ''/'')) al) p \<longleftrightarrow>
      is_dir al p \<and> p \<noteq> q \<and> \<not> startsWith p (q @ ''/'')" for al
    by (simp add: is_dir_def map_of_filter_key)
  then show ?thesis by (auto simp: fs_remove_def)
qed

lemma delete_all_run:
  assumes ok: "dir_ok segs env" and nf: "nofail env"
  shows "log_ok segs (files s) \<Longrightarrow> \<forall>b \<in> set bs. isSafeBackupName (fst b) \<Longrightarrow>
    \<exists>s'. delete_all env bs s = (Inr (), s') \<and> log_ok segs (files s') \<and>
      filter isSafeBackupName (fs_names (BACKUP_DIR env) (files s')) =
      filter (\<lambda>m. m \<notin> fst ` set bs) (filter isSafeBackupName (fs_names (BACKUP_DIR env) (files s)))"
proof (induction bs arbitrary: s)
  case (Cons b bs)
  let ?D = "BACKUP_DIR env" and ?n = "fst b"
  have g: "segs @ [''backups''] \<noteq> []" "good_seg ?n" using Cons.prems isSafe_good by auto
  have D: "?D = path_of (segs @ [''backups''])" by (rule BACKUP_DIR_path [OF ok])
  have q: "path_resolve ?D ?n = ?D @ ''/'' @ ?n"
    using dir_paths(4) [OF ok g(2)] path_of_snoc [OF g(1), of ?n] by (simp add: D)
  let ?s1 = "s\<lparr>tick := Suc (tick s), files := fs_remove (b_ms env (tick s)) (?D @ ''/'' @ ?n) (files s)\<rparr>"
  have rm: "rmSync env (path_resolve ?D ?n) s = (Inr (), ?s1)"
    using nf by (simp add: rmSync_def bio_def Let_def nofail_def q)
  have "log_ok segs (files ?s1)"
    using Cons.prems(1) by (auto simp: log_ok_def is_dir_remove D startsWith_def dest: arg_cong [where f = length])
  then obtain s2 where lg: "log env (''Removed old backup: '' @ ?n) ?s1 = (Inr (), s2)" and l2: "log_ok segs (files s2)"
    and n2: "filter isSafeBackupName (fs_names ?D (files s2)) = filter isSafeBackupName (fs_names ?D (files ?s1))"
    using log_run [OF ok nf, of ?s1] by blast
  obtain s3 where d: "delete_all env bs s2 = (Inr (), s3)" and l3: "log_ok segs (files s3)"
    and n3: "filter isSafeBackupName (fs_names ?D (files s3)) =
      filter (\<lambda>m. m \<notin> fst ` set bs) (filter isSafeBackupName (fs_names ?D (files s2)))"
    using Cons.IH [OF l2] Cons.prems(2) by auto
  have "startsWith (path_resolve ?D ?n) (?D @ ''/'')" by (simp add: q startsWith_def)
  then have "delete_all env (b # bs) s = (Inr (), s3)"
    using rm lg d by (simp add: bthen_def bbnd_def Let_def)
  moreover have "fs_names ?D (files ?s1) = filter (\<lambda>m. m \<noteq> ?n) (fs_names ?D (files s))"
    using g(2) fs_names_remove [of ?n ?D "b_ms env (tick s)" "files s"] by (simp add: good_seg_def)
  ultimately show ?case using l3 n3 n2 by (auto intro!: filter_cong simp: conj_ac)
qed (simp add: bret_def filter_id_conv)

lemma stat_all_run:
  assumes "nofail env"
  shows "\<forall>e \<in> set es. map_of (files s) (path_join (BACKUP_DIR env) e) \<noteq> None \<Longrightarrow>
    \<exists>r s'. stat_all env es s = (Inr r, s')"
proof (induction es arbitrary: s)
  case (Cons e es)
  let ?s1 = "s\<lparr>tick := Suc (tick s)\<rparr>"
  obtain n where "map_of (files s) (path_join (BACKUP_DIR env) e) = Some n" using Cons.prems by auto
  then have 1: "statSync env (path_join (BACKUP_DIR env) e) s = (Inr n, ?s1)"
    using assms by (simp add: statSync_def bio_def Let_def nofail_def)
  obtain r s' where "stat_all env es ?s1 = (Inr r, s')" using Cons.IH [of ?s1] Cons.prems by auto
  with 1 show ?case by (simp add: bbnd_def bret_def)
qed (simp add: bret_def)

text \<open>Without faults, at most ten backups are left.\<close>

lemma clean_count:
  assumes ok: "dir_ok segs env" and nf: "nofail env" and lo: "log_ok segs (files s)"
  shows "\<exists>s'. cleanOldBackups env s = (Inr (), s') \<and>
    length (filter isSafeBackupName (fs_names (BACKUP_DIR env) (files s'))) \<le> 10"
proof -
  let ?D = "BACKUP_DIR env"
  let ?N = "filter isSafeBackupName (fs_names ?D (files s))"
  let ?s1 = "s\<lparr>tick := Suc (tick s)\<rparr>"
  have D: "?D = path_of (segs @ [''backups''])" by (rule BACKUP_DIR_path [OF ok])
  have 1: "readdirSync env ?D s = (Inr (fs_names ?D (files s)), ?s1)"
    using nf lo by (simp add: readdirSync_def bio_def Let_def nofail_def log_ok_def D)
  have "\<forall>e \<in> set ?N. map_of (files ?s1) (path_join ?D e) \<noteq> None"
  proof
    fix e assume e: "e \<in> set ?N"
    then have "path_join ?D e = ?D @ ''/'' @ e"
      using dir_paths(3) [OF ok isSafe_good, of e] path_of_snoc [of "segs @ [''backups'']" e] by (simp add: D)
    moreover have "?D @ ''/'' @ e \<in> fst ` set (files s)" using e by (intro fs_names_mem) simp
    ultimately show "map_of (files ?s1) (path_join ?D e) \<noteq> None" by (simp add: map_of_eq_None_iff)
  qed
  then obtain r s2 where 2: "stat_all env ?N ?s1 = (Inr r, s2)" using stat_all_run [OF nf] by blast
  have f2: "files s2 = files s" and r: "map fst r = ?N" using stat_all_result [OF 2] stat_all_names [OF 2] by auto
  let ?L = "newest_first r"
  have perm: "mset (map fst ?L) = mset ?N" unfolding r [symmetric] mset_map by (simp add: newest_first_def)
  show ?thesis
  proof (cases "length ?L > KEEP_BACKUPS")
    case False
    then have "cleanOldBackups env s = (Inr (), s2)"
      using 1 2 by (simp add: cleanOldBackups_def btry_def bbnd_def bret_def Let_def)
    moreover have "length ?N \<le> 10" using False r by (simp add: newest_first_def KEEP_BACKUPS_def flip: length_map [of fst r])
    ultimately show ?thesis using f2 by auto
  next
    case True
    have "set (map fst ?L) = set ?N" using perm by (rule mset_eq_setD)
    then have "\<forall>b \<in> set (drop KEEP_BACKUPS ?L). isSafeBackupName (fst b)"
      by (auto dest!: in_set_dropD simp: set_eq_iff image_iff)
    moreover have "log_ok segs (files s2)" using lo f2 by simp
    ultimately obtain s3 where 3: "delete_all env (drop KEEP_BACKUPS ?L) s2 = (Inr (), s3)"
      and n: "filter isSafeBackupName (fs_names ?D (files s3)) = filter (\<lambda>m. m \<notin> fst ` set (drop KEEP_BACKUPS ?L)) ?N"
      using delete_all_run [OF ok nf] f2 by metis
    have "cleanOldBackups env s = (Inr (), s3)"
      using 1 2 3 True by (simp add: cleanOldBackups_def btry_def bbnd_def Let_def)
    moreover have "length (filter (\<lambda>m. m \<notin> fst ` set (drop KEEP_BACKUPS ?L)) ?N) \<le> 10"
    proof -
      let ?Q = "\<lambda>m. m \<notin> fst ` set (drop KEEP_BACKUPS ?L)"
      have "length (filter ?Q ?N) = size (filter_mset ?Q (mset (map fst ?L)))" by (simp only: perm flip: mset_filter size_mset)
      also have "\<dots> = length (filter ?Q (map fst ?L))" by (metis mset_filter size_mset)
      also have "map fst ?L = map fst (take KEEP_BACKUPS ?L) @ map fst (drop KEEP_BACKUPS ?L)"
        by (metis append_take_drop_id map_append)
      also have "length (filter ?Q \<dots>) = length (filter ?Q (map fst (take KEEP_BACKUPS ?L)))" by (auto simp: filter_empty_conv)
      also have "\<dots> \<le> KEEP_BACKUPS" using length_filter_le [of ?Q "map fst (take KEEP_BACKUPS ?L)"] by simp
      finally show ?thesis by (simp add: KEEP_BACKUPS_def)
    qed
    ultimately show ?thesis using n by auto
  qed
qed

text \<open>Copying a file.\<close>

lemma copy_run:
  assumes "nofail env" and "map_of (files s) src = Some (FFile c t)"
    and "\<not> is_dir (files s) q" and "is_dir (files s) (path_parent q)"
  shows "\<exists>s'. copyFileSync env src q s = (Inr (), s') \<and>
    map_of (files s') q = Some (FFile c (b_ms env (tick s))) \<and>
    (\<forall>p. p \<noteq> q \<and> p \<noteq> path_parent q \<longrightarrow> map_of (files s') p = map_of (files s) p) \<and>
    (\<forall>p. is_dir (files s') p = is_dir (files s) p)"
proof -
  obtain fs' where w: "fs_write (b_ms env (tick s)) q c (files s) = Inr fs'"
    and q: "map_of fs' q = Some (FFile c (b_ms env (tick s)))" and d: "\<And>p. is_dir fs' p = is_dir (files s) p"
    using assms(3,4) by (auto simp: fs_write_def is_dir_def [of _ q] is_dir_update update_conv' split: option.splits fnode.splits)
  then have "copyFileSync env src q s = (Inr (), s\<lparr>tick := Suc (tick s), files := fs'\<rparr>)"
    using assms(1,2) by (simp add: copyFileSync_def bio_def Let_def nofail_def upd_def)
  then show ?thesis using q d fs_write_other [OF w] by auto
qed

lemma not_log_path:
  assumes "list_all good_seg segs" and "good_seg n" and "n \<noteq> ''backups''"
  shows "\<not> log_paths segs (path_of (segs @ [n]))"
proof -
  have "segs @ [n] \<noteq> take k (segs @ [''backups''])" for k
  proof
    assume e: "segs @ [n] = take k (segs @ [''backups''])"
    then have "length (segs @ [n]) = length (take k (segs @ [''backups'']))" by (rule arg_cong)
    then have "length segs < k" by (auto split: if_splits)
    then have "take k (segs @ [''backups'']) = segs @ [''backups'']" by simp
    with e have "segs @ [n] = segs @ [''backups'']" by (rule trans)
    with assms(3) show False by simp
  qed
  moreover have "list_all good_seg (take k (segs @ [''backups'']))" for k
    using assms(1) good_names by (auto simp: list_all_iff dest: in_set_takeD)
  moreover have "path_of (segs @ [n]) \<noteq> path_of (segs @ [''backups'', ''backup.log''])"
    using assms(1,2) good_names by (intro path_neq) auto
  ultimately show ?thesis using assms(1,2) path_neq [of "segs @ [n]"] by (auto simp: log_paths_def)
qed

text \<open>A restore of a stored file puts its contents in place and keeps the contents it replaces.\<close>

definition content :: "fs \<Rightarrow> string \<Rightarrow> string option" where
  "content fs p = (case map_of fs p of Some (FFile c _) \<Rightarrow> Some c | _ \<Rightarrow> None)"

definition restore_ready :: "string list \<Rightarrow> string \<Rightarrow> string \<Rightarrow> fs \<Rightarrow> bool" where
  "restore_ready segs b f fs \<longleftrightarrow> log_ok segs fs \<and> is_dir fs (path_of segs) \<and>
     map_of fs (path_of (segs @ [''backups'', b])) \<noteq> None \<and>
     \<not> is_dir fs (path_of (segs @ [f])) \<and> \<not> is_dir fs (path_of (segs @ [f @ ''.restore_backup'']))"

lemma allowed_not_backups: "isAllowedFileName f \<Longrightarrow> f \<noteq> ''backups'' \<and> f @ ''.restore_backup'' \<noteq> ''backups''"
  by (auto simp: isAllowedFileName_def filesToBackup_def)

lemma restore_body:
  assumes ok: "dir_ok segs env" and nf: "nofail env" and al: "isAllowedFileName f" and b: "isSafeBackupName b"
    and rdy: "restore_ready segs b f (files s)"
    and src: "content (files s) (path_of (segs @ [''backups'', b, f])) = Some c"
  defines "D \<equiv> path_of (segs @ [f])" and "R \<equiv> path_of (segs @ [f @ ''.restore_backup''])"
    and "S \<equiv> path_of (segs @ [''backups'', b, f])"
  shows "\<exists>s2. bthen (bbnd (existsSync D) (\<lambda>exd. if exd then bthen (copyFileSync env D R) (bsay m) else bret ()))
      (copyFileSync env S D) s = (Inr (), s2) \<and> content (files s2) D = Some c \<and>
      (\<forall>x. content (files s) D = Some x \<longrightarrow> content (files s2) R = Some x) \<and> log_ok segs (files s2)"
proof -
  have g: "list_all good_seg segs" "good_seg f" "good_seg (f @ ''.restore_backup'')" "good_seg b"
    using ok allowed_good [OF al] isSafe_good [OF b] by (simp_all add: dir_ok_def)
  have par: "path_parent D = path_of segs" "path_parent R = path_of segs"
    using parent_good [OF g(1,2)] parent_good [OF g(1,3)] by (simp_all add: D_def R_def)
  have ne: "D \<noteq> R" "S \<noteq> D" "S \<noteq> R" "D \<noteq> path_of segs" "R \<noteq> path_of segs" "S \<noteq> path_of segs"
    unfolding D_def R_def S_def by (rule path_neq; use g good_names in simp)+
  obtain t where S: "map_of (files s) S = Some (FFile c t)"
    using src by (auto simp: content_def S_def split: option.splits fnode.splits)
  have dirs: "is_dir (files s) (path_of segs)" "\<not> is_dir (files s) D" "\<not> is_dir (files s) R" "log_ok segs (files s)"
    using rdy by (simp_all add: restore_ready_def D_def R_def)
  have second: "\<exists>s2. copyFileSync env S D s1 = (Inr (), s2) \<and> content (files s2) D = Some c \<and>
      content (files s2) R = content (files s1) R \<and> log_ok segs (files s2)"
    if "map_of (files s1) S = Some (FFile c t)" "\<And>p. is_dir (files s1) p = is_dir (files s) p" for s1
  proof -
    have "\<not> is_dir (files s1) D" "is_dir (files s1) (path_parent D)" using that(2) dirs par by auto
    then show ?thesis using copy_run [OF nf that(1), of D] that(2) dirs(4) ne par by (auto simp: content_def log_ok_def)
  qed
  show ?thesis
  proof (cases "map_of (files s) D")
    case None
    obtain s2 where "copyFileSync env S D s = (Inr (), s2)" "content (files s2) D = Some c" "log_ok segs (files s2)"
      using second [OF S] by blast
    then show ?thesis using None by (simp add: bthen_def bbnd_def existsSync_def bfiles_def bret_def content_def)
  next
    case (Some n)
    then obtain x u where n: "n = FFile x u" using dirs(2) by (cases n) (auto simp: is_dir_def)
    have "map_of (files s) D = Some (FFile x u)" using Some n by simp
    from copy_run [OF nf this dirs(3)] obtain s1 where 1: "copyFileSync env D R s = (Inr (), s1)"
      "content (files s1) R = Some x" "map_of (files s1) S = Some (FFile c t)" "\<And>p. is_dir (files s1) p = is_dir (files s) p"
      using dirs(1) par ne S by (auto simp: content_def)
    obtain s2 where "copyFileSync env S D (s1\<lparr>console := console s1 @ [m]\<rparr>) = (Inr (), s2)" "content (files s2) D = Some c"
      "content (files s2) R = Some x" "log_ok segs (files s2)"
      using second [of "s1\<lparr>console := console s1 @ [m]\<rparr>"] 1 by auto
    then show ?thesis using Some n 1 by (simp add: bthen_def bbnd_def existsSync_def bfiles_def bsay_def content_def)
  qed
qed

lemma bthen_assoc: "bthen a (bthen b k) = bthen (bthen a b) k"
  by (auto simp: bthen_def bbnd_def fun_eq_iff split: prod.splits sum.splits)

lemma bthen_run: "m s = (Inr x, s') \<Longrightarrow> bthen m k s = k s'"
  by (simp add: bthen_def bbnd_def)

lemma bsay_run: "bsay l s = (Inr (), s\<lparr>console := console s @ [l]\<rparr>)"
  by (simp add: bsay_def)

lemma btry_run: "m s = (Inr x, s') \<Longrightarrow> btry m h s = (Inr x, s')"
  by (simp add: btry_def)

lemma bbnd_exists: "bbnd (existsSync q) f s = f (map_of (files s) q \<noteq> None) s"
  by (simp add: bbnd_def existsSync_def bfiles_def)

lemma restore_run:
  assumes ok: "dir_ok segs env" and nf: "nofail env" and al: "isAllowedFileName f" and b: "isSafeBackupName b"
    and rdy: "restore_ready segs b f (files s)"
    and src: "content (files s) (path_of (segs @ [''backups'', b, f])) = Some c"
  shows "\<exists>s'. restoreFile env b f s = (Inr (), s') \<and> content (files s') (path_of (segs @ [f])) = Some c \<and>
    (\<forall>x. content (files s) (path_of (segs @ [f])) = Some x \<longrightarrow>
      content (files s') (path_of (segs @ [f @ ''.restore_backup''])) = Some x)"
proof -
  let ?D = "path_of (segs @ [f])" and ?R = "path_of (segs @ [f @ ''.restore_backup''])"
  let ?S = "path_of (segs @ [''backups'', b, f])" and ?B = "path_of (segs @ [''backups'', b])"
  have g: "list_all good_seg segs" "segs \<noteq> []" "good_seg f" "good_seg (f @ ''.restore_backup'')" "good_seg b"
    using ok allowed_good [OF al] isSafe_good [OF b] by (simp_all add: dir_ok_def)
  have gB: "list_all good_seg (segs @ [''backups'', b])" using g good_names by simp
  have p: "path_resolve (BACKUP_DIR env) b = ?B" "path_resolve (b_dirname env) f = ?D" "path_resolve ?B f = ?S" "?D @ ''.restore_backup'' = ?R"
    using dir_paths [OF ok] g resolve_good [OF gB g(3)] by (simp_all add: path_of_snoc)
  have st: "startsWith ?B (BACKUP_DIR env @ ''/'')" "startsWith ?S (?B @ ''/'')" "startsWith ?D (b_dirname env @ ''/'')"
    using path_under [of "segs @ [''backups'']" b] path_under [of "segs @ [''backups'', b]" f] path_under [of segs f] g(2) ok
    by (simp_all add: BACKUP_DIR_path [OF ok] dir_ok_def)
  have e: "ensureBackupDir env s = (Inr (), s)"
    using rdy by (auto simp: ensureBackupDir_def restore_ready_def log_ok_def is_dir_def BACKUP_DIR_path [OF ok] existsSync_def
        bfiles_def bbnd_def bret_def split: option.splits)
  obtain s2 where r: "bthen (bbnd (existsSync ?D) (\<lambda>exd. if exd then bthen (copyFileSync env ?D ?R)
        (bsay (''Backed up current file to: '' @ ?R)) else bret ())) (copyFileSync env ?S ?D) s = (Inr (), s2)"
    and c: "content (files s2) ?D = Some c" "\<forall>x. content (files s) ?D = Some x \<longrightarrow> content (files s2) ?R = Some x" "log_ok segs (files s2)"
    using restore_body [OF ok nf al b rdy src] by blast
  let ?s3 = "s2\<lparr>console := console s2 @ [''Successfully restored '' @ f @ '' from '' @ b]\<rparr>"
  obtain s4 where l: "log env (''Restored '' @ f @ '' from '' @ b) ?s3 = (Inr (), s4)"
    using log_run [OF ok nf, of ?s3] c(3) by auto
  have keep: "content (files s4) (path_of (segs @ [n])) = content (files s2) (path_of (segs @ [n]))"
    if "good_seg n" "n \<noteq> ''backups''" for n
    using confinedD [OF confined_log [OF ok, of "log_paths segs"] l not_log_path [OF g(1) that]] by (simp add: content_def)
  have body: "bthen (bbnd (existsSync ?D) (\<lambda>exd. if exd then bthen (copyFileSync env ?D ?R)
        (bsay (''Backed up current file to: '' @ ?R)) else bret ()))
      (bthen (copyFileSync env ?S ?D) (bthen (bsay (''Successfully restored '' @ f @ '' from '' @ b))
        (log env (''Restored '' @ f @ '' from '' @ b)))) s = (Inr (), s4)"
    by (subst bthen_assoc, subst bthen_run, rule r, subst bthen_run, rule bsay_run) (rule l)
  have ex: "(map_of (files s) ?B \<noteq> None) = True" "(map_of (files s) ?S \<noteq> None) = True"
    using rdy src by (auto simp: restore_ready_def content_def split: option.splits)
  have "restoreFile env b f s = (Inr (), s4)"
    unfolding restoreFile_def p Let_def
    by (subst bthen_run, rule e) (simp only: al b st ex bbnd_exists not_True_eq_False if_False, rule btry_run, rule body)
  then show ?thesis using c keep g allowed_not_backups [OF al] by auto
qed

end
