(* ===== verification/Backup_Claims.thy ===== *)
theory Backup_Claims
  imports Backup
begin

text \<open>
  The properties of the backup tool: what a restore and a pruning can reach on disk, whatever fails
  on the way, and what they achieve when nothing fails.
\<close>

section \<open>A concrete disk\<close>

definition demo_date :: date where
  "demo_date = \<lparr>d_year = 2026, d_month = 7, d_day = 26, d_hour = 15, d_minute = 0, d_second = 0\<rparr>"

definition demo_benv :: benv where
  "demo_benv = \<lparr>b_dirname = ''/srv'', b_fail = (\<lambda>_. None), b_ms = (\<lambda>t. int t), b_date = (\<lambda>_. demo_date),
     b_iso = (\<lambda>_. ''2026-07-26T15:00:00.000Z''), b_locale = (\<lambda>_. ''26.7.2026''), b_parse = (\<lambda>_. None)\<rparr>"

definition demo_name :: "nat \<Rightarrow> string" where
  "demo_name k = ''backup_20260726_1500'' @ [char_of (48 + k div 10), char_of (48 + k mod 10)]"

definition demo_fs :: "nat \<Rightarrow> fs" where
  "demo_fs k = [(''/srv'', FDir 0), (''/srv/backups'', FDir 0), (''/srv/current_proxy.js'', FFile ''new'' 5),
     (''/srv/backups/'' @ demo_name 0 @ ''/current_proxy.js'', FFile ''old'' 1)] @
     map (\<lambda>i. (''/srv/backups/'' @ demo_name i, FDir (int i))) [0..<k]"

definition demo_bst :: "nat \<Rightarrow> bst" where
  "demo_bst k = \<lparr>files = demo_fs k, tick = 0, console = []\<rparr>"

lemma demo_dir_ok: "dir_ok [''srv''] demo_benv"
  by (simp add: dir_ok_def demo_benv_def good_seg_def path_of_def)

lemma demo_nofail: "nofail demo_benv"
  by (simp add: nofail_def demo_benv_def)


lemma demo_log_ok: "log_ok [''srv''] (demo_fs 12)" "log_ok [''srv''] (demo_fs 2)"
  by code_simp+



section \<open>Properties\<close>










text \<open>
  C8: when no system call fails, pruning completes and leaves at most ten directories with a
  backup name, however many there were.
\<close>

theorem prune_bound:
  assumes "dir_ok segs env" and "nofail env" and "log_ok segs (files s)"
  shows "\<exists>s'. cleanOldBackups env s = (Inr (), s') \<and>
    length (filter isSafeBackupName (fs_names (BACKUP_DIR env) (files s'))) \<le> 10"
  by (rule clean_count [OF assms])

theorem prune_bound_witness:
  "\<exists>s'. cleanOldBackups demo_benv (demo_bst 12) = (Inr (), s') \<and>
    length (filter isSafeBackupName (fs_names (BACKUP_DIR demo_benv) (files s'))) \<le> 10"
  by (rule prune_bound [OF demo_dir_ok demo_nofail]) (simp add: demo_bst_def demo_log_ok)

end
