(* ===== verification/Cpp_Int.thy ===== *)
theory Cpp_Int
  imports Rcpu_Prelude "HOL-Library.Signed_Division" "HOL-Library.Monad_Syntax"
begin

text \<open>
  Machine integers of the C++ sources. A signed integer is an \<^typ>\<open>int\<close> and every signed operation
  of the source goes through \<open>i64\<close> or \<open>i32\<close>, whose result is \<open>None\<close> when the exact value does not
  fit: signed overflow has no defined result. A failed \<open>assert\<close> is \<open>None\<close> too. Division truncates
  towards zero (\<open>sdiv\<close>).
\<close>

definition INT64_MAX :: int where "INT64_MAX = 9223372036854775807"
definition INT64_MIN :: int where "INT64_MIN = -9223372036854775808"
definition INT32_MAX :: int where "INT32_MAX = 2147483647"
definition INT32_MIN :: int where "INT32_MIN = -2147483648"

lemmas int_limits = INT64_MAX_def INT64_MIN_def INT32_MAX_def INT32_MIN_def

definition i64 :: "int \<Rightarrow> int option" where
  "i64 x = (if INT64_MIN \<le> x \<and> x \<le> INT64_MAX then Some x else None)"

definition i32 :: "int \<Rightarrow> int option" where
  "i32 x = (if INT32_MIN \<le> x \<and> x \<le> INT32_MAX then Some x else None)"

definition assertion :: "bool \<Rightarrow> unit option" where
  "assertion b = (if b then Some () else None)"

lemma i64_Some [simp]: "INT64_MIN \<le> x \<Longrightarrow> x \<le> INT64_MAX \<Longrightarrow> i64 x = Some x"
  by (simp add: i64_def)

lemma i32_Some [simp]: "INT32_MIN \<le> x \<Longrightarrow> x \<le> INT32_MAX \<Longrightarrow> i32 x = Some x"
  by (simp add: i32_def)

lemma i64_eq_Some: "i64 x = Some y \<longleftrightarrow> y = x \<and> INT64_MIN \<le> x \<and> x \<le> INT64_MAX"
  by (auto simp: i64_def)

lemma i32_eq_Some: "i32 x = Some y \<longleftrightarrow> y = x \<and> INT32_MIN \<le> x \<and> x \<le> INT32_MAX"
  by (auto simp: i32_def)

lemma assertion_True [simp]: "b \<Longrightarrow> assertion b = Some ()"
  by (simp add: assertion_def)

lemma assertion_Some: "assertion b = Some u \<longleftrightarrow> b"
  by (simp add: assertion_def)

text \<open>Truncating division.\<close>

lemma sdiv_nonneg: "0 \<le> a \<Longrightarrow> 0 < b \<Longrightarrow> a sdiv b = a div b" for a b :: int
  by (cases "a = 0") (simp_all add: signed_divide_int_def)

lemma sdiv_neg: "a \<le> 0 \<Longrightarrow> 0 < b \<Longrightarrow> a sdiv b = - ((- a) div b)" for a b :: int
  by (cases "a = 0") (simp_all add: signed_divide_int_def)

lemma sdiv_mono:
  fixes a b c :: int
  assumes "a \<le> b" and "0 < c"
  shows "a sdiv c \<le> b sdiv c"
proof (cases "0 \<le> a")
  case True
  then show ?thesis using assms by (simp add: sdiv_nonneg zdiv_mono1)
next
  case False
  show ?thesis
  proof (cases "0 \<le> b")
    case True
    have "a sdiv c \<le> 0" "0 \<le> b sdiv c"
      using False True assms by (simp_all add: sdiv_neg sdiv_nonneg pos_imp_zdiv_nonneg_iff)
    then show ?thesis by linarith
  next
    case F: False
    then show ?thesis using False assms by (simp add: sdiv_neg zdiv_mono1)
  qed
qed

lemma zdiv_le_self: "0 \<le> a \<Longrightarrow> 0 < c \<Longrightarrow> a div c \<le> a" for a c :: int
  using zdiv_mono2 [of a 1 c] by simp

lemma le_zdiv_iff: "0 < h \<Longrightarrow> x \<le> m div h \<longleftrightarrow> x * h \<le> m" for h x m :: int
proof
  assume h: "0 < h" and "x \<le> m div h"
  then have "x * h \<le> m div h * h" by simp
  also have "\<dots> \<le> m" using h pos_mod_sign [of h m] div_mult_mod_eq [of m h] by linarith
  finally show "x * h \<le> m" .
next
  assume h: "0 < h" and "x * h \<le> m"
  then have "x * h div h \<le> m div h" by (intro zdiv_mono1)
  then show "x \<le> m div h" using h by simp
qed

lemma sdiv_abs_le: "0 < c \<Longrightarrow> \<bar>a sdiv c\<bar> \<le> \<bar>a\<bar>" for a c :: int
  using zdiv_le_self [of "\<bar>a\<bar>" c] pos_imp_zdiv_nonneg_iff [of c "\<bar>a\<bar>"]
  by (cases "0 \<le> a") (simp_all add: sdiv_nonneg sdiv_neg)

text \<open>A multiple of the divisor moves the quotient by its factor, as long as the sign stays.\<close>

lemma sdiv_add_mult:
  fixes a b k :: int
  assumes "0 < b" and "0 \<le> k" and "0 \<le> a \<or> a + k * b \<le> 0"
  shows "(a + k * b) sdiv b = a sdiv b + k"
proof (cases "0 \<le> a")
  case True
  then show ?thesis using assms by (simp add: sdiv_nonneg)
next
  case False
  then have h: "a + k * b \<le> 0" using assms(3) by simp
  have "(- (a + k * b)) div b = (- a + (- k) * b) div b" by simp
  also have "\<dots> = - k + (- a) div b" using assms(1) by (subst div_mult_self1) auto
  finally show ?thesis using False h assms(1) by (simp add: sdiv_neg)
qed

end
