(* ===== verification/Arith_Uint.thy ===== *)
theory Arith_Uint
  imports Rcpu_Prelude
begin

text \<open>
  The multi-word integers of \<open>arith_uint256.h\<close> and \<open>arith_uint256.cpp\<close>: base_uint with its
  assignment, complement, negation, addition, subtraction, both multiplications, shifts, division,
  comparisons and bits().

  A base_uint is the list of its 32-bit limbs \<open>pn\<close>, least significant first; its WIDTH is the
  length of the list (8 for arith_uint256, 16 for arith_uint512).  The value \<open>val\<close> is the
  abstraction: every operation is shown to compute the corresponding function on values modulo
  \<open>2 ^ (32 * WIDTH)\<close>.  A thrown uint_error is None.
\<close>

unbundle bit_operations_syntax

section \<open>Limbs and values\<close>

type_synonym u32 = "32 word"
type_synonym u64 = "64 word"
type_synonym base_uint = "u32 list"

fun val :: "base_uint \<Rightarrow> nat" where
  "val [] = 0"
| "val (x # xs) = unat x + 2 ^ 32 * val xs"

section \<open>Operations of the header\<close>

text \<open>\<open>base_uint(uint64_t b)\<close> and \<open>operator=(uint64_t b)\<close> at width \<open>n\<close>\<close>

definition of_u64 :: "nat \<Rightarrow> u64 \<Rightarrow> base_uint" where
  "of_u64 n b = (replicate n 0)[0 := ucast b, 1 := ucast (drop_bit 32 b)]"

text \<open>\<open>from(b)\<close>: the low limbs of an integer of another width.\<close>

definition from_width :: "nat \<Rightarrow> base_uint \<Rightarrow> base_uint" where
  "from_width n b = map (\<lambda>i. if i < min n (length b) then b ! i else 0) [0..<n]"

definition compl :: "base_uint \<Rightarrow> base_uint" where
  "compl pn = map NOT pn"

text \<open>\<open>while (i < WIDTH && ++pn[i] == 0) i++\<close>\<close>

fun incr :: "base_uint \<Rightarrow> base_uint" where
  "incr [] = []"
| "incr (x # xs) = (if x + 1 = 0 then (x + 1) # incr xs else (x + 1) # xs)"

definition neg :: "base_uint \<Rightarrow> base_uint" where
  "neg pn = incr (compl pn)"

text \<open>The loop of \<open>operator+=\<close> with its 64-bit carry.\<close>

fun add_loop :: "u64 \<Rightarrow> base_uint \<Rightarrow> base_uint \<Rightarrow> base_uint" where
  "add_loop carry (x # xs) (y # ys) =
     (let n = carry + ucast x + ucast y in ucast (n AND 0xffffffff) # add_loop (drop_bit 32 n) xs ys)"
| "add_loop carry xs _ = xs"

definition add :: "base_uint \<Rightarrow> base_uint \<Rightarrow> base_uint" where
  "add a b = add_loop 0 a b"

definition sub :: "base_uint \<Rightarrow> base_uint \<Rightarrow> base_uint" where
  "sub a b = add a (neg b)"

definition GetLow64 :: "base_uint \<Rightarrow> u64" where
  "GetLow64 pn = ucast (pn ! 0) OR push_bit 32 (ucast (pn ! 1))"

section \<open>Shifts\<close>

definition shl_step :: "nat \<Rightarrow> nat \<Rightarrow> base_uint \<Rightarrow> nat \<Rightarrow> base_uint \<Rightarrow> base_uint" where
  "shl_step k shift a i pn =
     (let pn' = (if i + k + 1 < length a \<and> shift \<noteq> 0
                 then pn[i + k + 1 := pn ! (i + k + 1) OR drop_bit (32 - shift) (a ! i)] else pn)
      in if i + k < length a then pn'[i + k := pn' ! (i + k) OR push_bit shift (a ! i)] else pn')"

definition shl :: "base_uint \<Rightarrow> nat \<Rightarrow> base_uint" where
  "shl a shift = fold (shl_step (shift div 32) (shift mod 32) a) [0..<length a] (replicate (length a) 0)"

definition shr_step :: "nat \<Rightarrow> nat \<Rightarrow> base_uint \<Rightarrow> nat \<Rightarrow> base_uint \<Rightarrow> base_uint" where
  "shr_step k shift a i pn =
     (let pn' = (if k + 1 \<le> i \<and> shift \<noteq> 0
                 then pn[i - k - 1 := pn ! (i - k - 1) OR push_bit (32 - shift) (a ! i)] else pn)
      in if k \<le> i then pn'[i - k := pn' ! (i - k) OR drop_bit shift (a ! i)] else pn')"

definition shr :: "base_uint \<Rightarrow> nat \<Rightarrow> base_uint" where
  "shr a shift = fold (shr_step (shift div 32) (shift mod 32) a) [0..<length a] (replicate (length a) 0)"

section \<open>Multiplication\<close>

text \<open>\<open>operator*=(uint32_t b32)\<close>\<close>

fun mul32_loop :: "u64 \<Rightarrow> u32 \<Rightarrow> base_uint \<Rightarrow> base_uint" where
  "mul32_loop carry b32 [] = []"
| "mul32_loop carry b32 (x # xs) =
     (let n = carry + ucast b32 * ucast x in ucast (n AND 0xffffffff) # mul32_loop (drop_bit 32 n) b32 xs)"

definition mul32 :: "base_uint \<Rightarrow> u32 \<Rightarrow> base_uint" where
  "mul32 a b32 = mul32_loop 0 b32 a"

text \<open>
  The inner loop of \<open>operator*=(const base_uint& b)\<close> on the limbs of the accumulator from position
  \<open>j\<close> on, and the outer loop over \<open>j\<close>.
\<close>

fun mul_row :: "u64 \<Rightarrow> u32 \<Rightarrow> base_uint \<Rightarrow> base_uint \<Rightarrow> base_uint" where
  "mul_row carry p (x # xs) (y # ys) =
     (let n = carry + ucast x + ucast p * ucast y in ucast (n AND 0xffffffff) # mul_row (drop_bit 32 n) p xs ys)"
| "mul_row carry p xs _ = xs"

definition mul :: "base_uint \<Rightarrow> base_uint \<Rightarrow> base_uint" where
  "mul pn b = fold (\<lambda>j a. take j a @ mul_row 0 (pn ! j) (drop j a) b) [0..<length pn] (replicate (length pn) 0)"

section \<open>Comparison, bits and division\<close>

fun CompareTo_rev :: "base_uint \<Rightarrow> base_uint \<Rightarrow> int" where
  "CompareTo_rev (x # xs) (y # ys) = (if x < y then -1 else if x > y then 1 else CompareTo_rev xs ys)"
| "CompareTo_rev _ _ = 0"

definition CompareTo :: "base_uint \<Rightarrow> base_uint \<Rightarrow> int" where
  "CompareTo a b = CompareTo_rev (rev a) (rev b)"

definition EqualTo :: "base_uint \<Rightarrow> u64 \<Rightarrow> bool" where
  "EqualTo pn b \<longleftrightarrow> list_all (\<lambda>w. w = 0) (drop 2 pn) \<and>
     (ucast (pn ! 1) :: u64) = drop_bit 32 b \<and> (ucast (pn ! 0) :: u64) = b AND 0xffffffff"

fun top_bit :: "nat \<Rightarrow> u32 \<Rightarrow> nat" where
  "top_bit 0 w = 1"
| "top_bit (Suc nbits) w = (if w AND push_bit (Suc nbits) 1 \<noteq> 0 then Suc nbits + 1 else top_bit nbits w)"

fun bits_from :: "nat \<Rightarrow> base_uint \<Rightarrow> nat" where
  "bits_from 0 pn = 0"
| "bits_from (Suc pos) pn = (if pn ! pos \<noteq> 0 then 32 * pos + top_bit 31 (pn ! pos) else bits_from pos pn)"

definition bits :: "base_uint \<Rightarrow> nat" where
  "bits pn = bits_from (length pn) pn"

text \<open>One round of the division loop: the remainder, the shifted divisor and the quotient.\<close>

definition div_round :: "nat \<Rightarrow> base_uint \<times> base_uint \<times> base_uint \<Rightarrow> base_uint \<times> base_uint \<times> base_uint" where
  "div_round shift = (\<lambda>(num, dv, pn).
     let (num', pn') = (if CompareTo num dv \<ge> 0
           then (sub num dv, pn[shift div 32 := pn ! (shift div 32) OR push_bit (shift mod 32) 1])
           else (num, pn))
     in (num', shr dv 1, pn'))"

fun div_loop :: "nat \<Rightarrow> base_uint \<times> base_uint \<times> base_uint \<Rightarrow> base_uint" where
  "div_loop 0 st = snd (snd (div_round 0 st))"
| "div_loop (Suc shift) st = div_loop shift (div_round (Suc shift) st)"

definition div_uint :: "base_uint \<Rightarrow> base_uint \<Rightarrow> base_uint option" where
  "div_uint num dv =
     (let num_bits = bits num; div_bits = bits dv in
      if div_bits = 0 then None
      else if div_bits > num_bits then Some (replicate (length num) 0)
      else let shift = num_bits - div_bits in
        Some (div_loop shift (num, shl dv shift, replicate (length num) 0)))"

section \<open>Values\<close>

lemma val_append: "val (a @ b) = val a + 2 ^ (32 * length a) * val b"
  by (induction a) (simp_all add: algebra_simps power_add)

lemma u32_bound: "unat (x :: u32) < 4294967296"
  using unsigned_less [of x] by simp

lemma u64_bound: "unat (x :: u64) < 18446744073709551616"
  using unsigned_less [of x] by simp

lemma val_bound: "val a < 2 ^ (32 * length a)"
proof (induction a)
  case (Cons x xs)
  then have "2 ^ 32 * (val xs + 1) \<le> 2 ^ 32 * 2 ^ (32 * length xs)"
    unfolding Suc_eq_plus1 [symmetric] Suc_le_eq [symmetric] by (rule mult_le_mono2)
  moreover have "unat x + 2 ^ 32 * val xs < 2 ^ 32 * (val xs + 1)" using u32_bound [of x] by simp
  ultimately have "val (x # xs) < 2 ^ 32 * 2 ^ (32 * length xs)" unfolding val.simps by linarith
  then show ?case by (simp add: power_add)
qed simp

lemma val_replicate_0 [simp]: "val (replicate n 0) = 0"
  by (induction n) simp_all

lemma val_inj: "length a = length b \<Longrightarrow> val a = val b \<Longrightarrow> a = b"
proof (induction a b rule: list_induct2)
  case (Cons x xs y ys)
  then have e: "unat x + 2 ^ 32 * val xs = unat y + 2 ^ 32 * val ys" by simp
  then have "(unat x + 2 ^ 32 * val xs) mod 2 ^ 32 = (unat y + 2 ^ 32 * val ys) mod 2 ^ 32" by simp
  then have "unat x = unat y" using u32_bound [of x] u32_bound [of y] by simp
  with e Cons.IH show ?case by (simp add: word_unat_eq_iff)
qed simp

lemma mod_mult_step: "r < b \<Longrightarrow> r + b * (k mod M) = (r + b * k) mod (b * M)" for r b k M :: nat
  by (simp add: mod_mult2_eq)

text \<open>The low 32 bits and the carry of a 64-bit sum.\<close>

lemma unat_low32: "unat (ucast (n AND 0xffffffff) :: u32) = unat (n :: u64) mod 2 ^ 32"
proof -
  have m: "n AND 0xffffffff = take_bit 32 n" by (simp add: take_bit_eq_mask mask_eq_exp_minus_1)
  have "unat (ucast (take_bit 32 n) :: u32) = unat (take_bit 32 n) mod 2 ^ 32"
    by (simp add: unsigned_ucast_eq take_bit_eq_mod)
  also have "unat (take_bit 32 n) = unat n mod 2 ^ 32"
    unfolding unsigned_take_bit_eq by (rule take_bit_eq_mod)
  finally show ?thesis unfolding m by simp
qed

lemma unat_high32: "unat (drop_bit 32 (n :: u64)) = unat n div 2 ^ 32"
  unfolding unat_drop_bit_eq by (rule drop_bit_eq_div)

lemma unat_u64_of_u32 [simp]: "unat (ucast (x :: u32) :: u64) = unat x"
  using u32_bound [of x] by (simp add: unsigned_ucast_eq take_bit_eq_mod)

section \<open>Addition and multiplication compute on values\<close>

text \<open>One limb of a carrying loop.\<close>

lemma carry_step:
  "unat (ucast (n AND 0xffffffff) :: u32) + 2 ^ 32 * ((unat (drop_bit 32 (n :: u64)) + k) mod 2 ^ m) =
    (unat n + 2 ^ 32 * k) mod 2 ^ (32 + m)"
proof -
  have "unat n mod 2 ^ 32 + 2 ^ 32 * ((unat n div 2 ^ 32 + k) mod 2 ^ m) =
      (unat n mod 2 ^ 32 + 2 ^ 32 * (unat n div 2 ^ 32 + k)) mod (2 ^ 32 * 2 ^ m)"
    by (rule mod_mult_step) simp
  also have "unat n mod 2 ^ 32 + 2 ^ 32 * (unat n div 2 ^ 32 + k) = unat n + 2 ^ 32 * k"
    using mod_mult_div_eq [of "unat n" "2 ^ 32"] by (simp only: distrib_left add.assoc [symmetric])
  finally show ?thesis unfolding unat_low32 unat_high32 power_add .
qed

lemma mult_u32_le: "unat (p :: u32) * unat (y :: u32) \<le> 18446744065119617025"
proof -
  have "unat p * unat y \<le> 4294967295 * 4294967295"
    using u32_bound [of y] u32_bound [of p] by (intro mult_le_mono) simp_all
  then show ?thesis by simp
qed

text \<open>The 64-bit multiply-accumulate of the loops does not wrap.\<close>

lemma unat_muladd:
  assumes "unat (c :: u64) < 2 ^ 32"
  shows "unat (c + ucast (x :: u32) + ucast (p :: u32) * ucast (y :: u32)) = unat c + unat x + unat p * unat y"
    and "unat (drop_bit 32 (c + ucast x + ucast p * ucast y)) < 2 ^ 32"
proof -
  have b: "unat c + unat x + unat p * unat y < 18446744073709551616"
    using assms u32_bound [of x] mult_u32_le [of p y] by simp
  then have "unat p * unat y < 18446744073709551616" "unat c + unat x < 18446744073709551616" by linarith+
  with b show e: "unat (c + ucast x + ucast p * ucast y) = unat c + unat x + unat p * unat y"
    by (simp add: unat_word_ariths)
  show "unat (drop_bit 32 (c + ucast x + ucast p * ucast y)) < 2 ^ 32"
    unfolding unat_high32 using u64_bound [of "c + ucast x + ucast p * ucast y"]
    by (simp add: less_mult_imp_div_less)
qed

lemma length_add_loop [simp]: "length (add_loop c a b) = length a"
  by (induction c a b rule: add_loop.induct) (simp_all add: Let_def)

lemma val_add_loop:
  "length a = length b \<Longrightarrow> unat c < 2 ^ 32 \<Longrightarrow>
    val (add_loop c a b) = (unat c + val a + val b) mod 2 ^ (32 * length a)"
proof (induction a b arbitrary: c rule: list_induct2)
  case (Cons x xs y ys)
  have e: "c + ucast x + ucast y = c + ucast x + ucast (1 :: u32) * ucast y" by simp
  show ?case
    using Cons.IH [OF unat_muladd(2) [OF Cons.prems, of x 1 y]]
      carry_step [of "c + ucast x + ucast y" "val xs + val ys" "32 * length xs"]
      unat_muladd(1) [OF Cons.prems, of x 1 y]
    by (simp add: Let_def e algebra_simps)
qed simp

lemma length_add [simp]: "length (add a b) = length a"
  by (simp add: add_def)

lemma val_add: "length a = length b \<Longrightarrow> val (add a b) = (val a + val b) mod 2 ^ (32 * length a)"
  by (simp add: add_def val_add_loop)

lemma val_mul32_loop:
  "unat c < 2 ^ 32 \<Longrightarrow> val (mul32_loop c b a) = (unat c + unat b * val a) mod 2 ^ (32 * length a)"
proof (induction a arbitrary: c)
  case (Cons x xs)
  let ?n = "c + ucast b * ucast x"
  have n: "unat ?n = unat c + unat b * unat x" and c: "unat (drop_bit 32 ?n) < 2 ^ 32"
    using unat_muladd [OF Cons.prems, of 0 b x] by simp_all
  have "val (mul32_loop c b (x # xs)) = (unat ?n + 2 ^ 32 * (unat b * val xs)) mod 2 ^ (32 + 32 * length xs)"
    using Cons.IH [OF c] carry_step [of ?n "unat b * val xs" "32 * length xs"] by (simp add: Let_def)
  then show ?case unfolding n by (simp add: algebra_simps)
qed simp

lemma length_mul32 [simp]: "length (mul32 a b) = length a"
proof -
  have "length (mul32_loop c b a) = length a" for c
    by (induction a arbitrary: c) (simp_all add: Let_def)
  then show ?thesis by (simp add: mul32_def)
qed

lemma val_mul32: "val (mul32 a b) = (unat b * val a) mod 2 ^ (32 * length a)"
  by (simp add: mul32_def val_mul32_loop)

lemma length_mul_row [simp]: "length (mul_row c p xs ys) = length xs"
  by (induction c p xs ys rule: mul_row.induct) (simp_all add: Let_def)

lemma val_mul_row:
  "unat c < 2 ^ 32 \<Longrightarrow> length xs \<le> length ys \<Longrightarrow>
    val (mul_row c p xs ys) = (unat c + val xs + unat p * val ys) mod 2 ^ (32 * length xs)"
proof (induction xs arbitrary: c ys)
  case (Cons x xs)
  then obtain y ys' where ys: "ys = y # ys'" and len: "length xs \<le> length ys'" by (cases ys) auto
  let ?n = "c + ucast x + ucast p * ucast y"
  have n: "unat ?n = unat c + unat x + unat p * unat y" and c: "unat (drop_bit 32 ?n) < 2 ^ 32"
    using unat_muladd [OF Cons.prems(1)] by simp_all
  have "val (mul_row c p (x # xs) ys) =
      (unat ?n + 2 ^ 32 * (val xs + unat p * val ys')) mod 2 ^ (32 + 32 * length xs)"
    using Cons.IH [OF c len] carry_step [of ?n "val xs + unat p * val ys'" "32 * length xs"]
    by (simp add: ys Let_def add.assoc)
  then show ?case unfolding n by (simp add: ys algebra_simps)
qed simp

lemma unat_minus_1_u32: "unat (- 1 :: u32) = 4294967295"
  by (simp add: unsigned_minus_1_eq_mask mask_eq_exp_minus_1)

lemma length_incr [simp]: "length (incr a) = length a"
  by (induction a) auto

lemma val_incr: "val (incr a) = (val a + 1) mod 2 ^ (32 * length a)"
proof (induction a)
  case (Cons x xs)
  show ?case
  proof (cases "x + 1 = 0")
    case True
    then have "x = - 1" by (metis add.inverse_inverse eq_neg_iff_add_eq_0)
    then have x: "unat x = 4294967295" by (simp add: unat_minus_1_u32)
    have "0 + 2 ^ 32 * ((val xs + 1) mod 2 ^ (32 * length xs)) =
        (0 + 2 ^ 32 * (val xs + 1)) mod (2 ^ 32 * 2 ^ (32 * length xs))"
      by (rule mod_mult_step) simp
    with Cons x True show ?thesis by (simp add: power_add algebra_simps)
  next
    case False
    then have x: "unat (x + 1) = unat x + 1" by (metis add.commute unatSuc Suc_eq_plus1)
    then have "val (x # xs) + 1 = val ((x + 1) # xs)" by simp
    moreover have "\<dots> < 2 ^ (32 * length (x # xs))" using val_bound [of "(x + 1) # xs"] by simp
    ultimately show ?thesis using False by (simp del: val.simps)
  qed
qed simp

lemma length_compl [simp]: "length (compl a) = length a"
  by (simp add: compl_def)

lemma val_compl: "val (compl a) + val a + 1 = 2 ^ (32 * length a)"
proof (induction a)
  case (Cons x xs)
  have "NOT x = - 1 - x" by (simp add: not_eq_complement)
  moreover have "unat (- 1 - x) = unat (- 1 :: u32) - unat x" by (rule unat_sub) simp
  ultimately have "unat (NOT x) + unat x + 1 = 2 ^ 32" using u32_bound [of x] by (simp add: unat_minus_1_u32)
  moreover have "2 ^ 32 * (val (compl xs) + val xs + 1) = (2 ^ 32 * 2 ^ (32 * length xs) :: nat)"
    using Cons by simp
  ultimately show ?case by (simp add: compl_def power_add distrib_left)
qed (simp add: compl_def)

lemma length_neg [simp]: "length (neg a) = length a"
  by (simp add: neg_def)

lemma val_neg: "val (neg a) = (2 ^ (32 * length a) - val a) mod 2 ^ (32 * length a)"
proof -
  have "val (compl a) + 1 = 2 ^ (32 * length a) - val a" using val_compl [of a] by simp
  then show ?thesis by (simp add: neg_def val_incr)
qed

lemma length_sub [simp]: "length (sub a b) = length a"
  by (simp add: sub_def)

lemma val_sub:
  assumes "length a = length b"
  shows "val (sub a b) = (val a + (2 ^ (32 * length a) - val b)) mod 2 ^ (32 * length a)"
  using assms by (simp add: sub_def val_add val_neg mod_add_right_eq)

lemma val_sub_le:
  assumes "length a = length b" and "val b \<le> val a"
  shows "val (sub a b) = val a - val b"
proof -
  have "val a + (2 ^ (32 * length a) - val b) = (val a - val b) + 2 ^ (32 * length a)"
    using val_bound [of b] assms by simp
  moreover have "val a - val b < 2 ^ (32 * length a)" using val_bound [of a] by simp
  ultimately show ?thesis using val_sub [OF assms(1)] by simp
qed

lemma mul_rows:
  assumes "length b = length pn" and "n \<le> length pn"
  defines "a \<equiv> fold (\<lambda>j a. take j a @ mul_row 0 (pn ! j) (drop j a) b) [0..<n] (replicate (length pn) 0)"
  shows "length a = length pn \<and> val a = (val (take n pn) * val b) mod 2 ^ (32 * length pn)"
  using assms(2) unfolding a_def
proof (induction n)
  case (Suc n)
  let ?a = "fold (\<lambda>j a. take j a @ mul_row 0 (pn ! j) (drop j a) b) [0..<n] (replicate (length pn) 0)"
  from Suc have la: "length ?a = length pn" and va: "val ?a = (val (take n pn) * val b) mod 2 ^ (32 * length pn)"
    by auto
  have sp: "val (take n ?a) + 2 ^ (32 * n) * val (drop n ?a) = val ?a"
    using val_append [of "take n ?a" "drop n ?a"] la Suc.prems by simp
  have "val (take n ?a @ mul_row 0 (pn ! n) (drop n ?a) b) =
      val (take n ?a) + 2 ^ (32 * n) * ((val (drop n ?a) + unat (pn ! n) * val b) mod 2 ^ (32 * (length pn - n)))"
    using la Suc.prems assms(1) by (simp add: val_append val_mul_row)
  also have "\<dots> = (val (take n ?a) + 2 ^ (32 * n) * (val (drop n ?a) + unat (pn ! n) * val b)) mod
      (2 ^ (32 * n) * 2 ^ (32 * (length pn - n)))"
    using val_bound [of "take n ?a"] la Suc.prems by (intro mod_mult_step) simp
  also have "2 ^ (32 * n) * 2 ^ (32 * (length pn - n)) = (2 :: nat) ^ (32 * length pn)"
    using Suc.prems by (simp flip: power_add distrib_left)
  also have "val (take n ?a) + 2 ^ (32 * n) * (val (drop n ?a) + unat (pn ! n) * val b) =
      val ?a + 2 ^ (32 * n) * unat (pn ! n) * val b"
    using sp by (simp add: distrib_left)
  also have "\<dots> mod 2 ^ (32 * length pn) =
      (val (take n pn) * val b + 2 ^ (32 * n) * unat (pn ! n) * val b) mod 2 ^ (32 * length pn)"
    unfolding va by (simp add: mod_add_left_eq)
  also have "val (take n pn) * val b + 2 ^ (32 * n) * unat (pn ! n) * val b = val (take (Suc n) pn) * val b"
    using Suc.prems by (simp add: take_Suc_conv_app_nth val_append algebra_simps)
  finally show ?case using la Suc.prems by simp
qed simp

lemma length_mul [simp]: "length b = length a \<Longrightarrow> length (mul a b) = length a"
  using mul_rows [of b a "length a"] by (simp add: mul_def)

lemma val_mul: "length b = length a \<Longrightarrow> val (mul a b) = (val a * val b) mod 2 ^ (32 * length a)"
  using mul_rows [of b a "length a"] by (simp add: mul_def)

section \<open>Comparisons\<close>

lemma CompareTo_snoc:
  "CompareTo (xs @ [x]) (ys @ [y]) = (if x < y then -1 else if x > y then 1 else CompareTo xs ys)"
  by (simp add: CompareTo_def)

lemma CompareTo_val:
  "length a = length b \<Longrightarrow>
    CompareTo a b = (if val a < val b then -1 else if val a > val b then 1 else 0)"
proof (induction a arbitrary: b rule: rev_induct)
  case (snoc x xs)
  then obtain ys y where b: "b = ys @ [y]" and len: "length xs = length ys"
    by (cases b rule: rev_cases) auto
  let ?M = "2 ^ (32 * length ys) :: nat"
  have lt: "val xs + ?M * m < val ys + ?M * n" if "m < n" for m n
  proof -
    have "val xs + ?M * m < ?M * (m + 1)" using val_bound [of xs] len by simp
    also have "\<dots> \<le> ?M * n" using that by (intro mult_le_mono2) simp
    finally show ?thesis by simp
  qed
  have gt: "val ys + ?M * m < val xs + ?M * n" if "m < n" for m n
  proof -
    have "val ys + ?M * m < ?M * (m + 1)" using val_bound [of ys] by simp
    also have "\<dots> \<le> ?M * n" using that by (intro mult_le_mono2) simp
    finally show ?thesis by simp
  qed
  show ?case
    using lt [of "unat x" "unat y"] gt [of "unat y" "unat x"] snoc.IH [OF len] len
    by (auto simp: b CompareTo_snoc val_append word_less_nat_alt not_less_iff_gr_or_eq)
qed (simp add: CompareTo_def)

lemmas CompareTo_simps = CompareTo_val

lemma CompareTo_gt [simp]: "length a = length b \<Longrightarrow> CompareTo a b > 0 \<longleftrightarrow> val a > val b"
  and CompareTo_lt [simp]: "length a = length b \<Longrightarrow> CompareTo a b < 0 \<longleftrightarrow> val a < val b"
  and CompareTo_ge [simp]: "length a = length b \<Longrightarrow> CompareTo a b \<ge> 0 \<longleftrightarrow> val a \<ge> val b"
  and CompareTo_le [simp]: "length a = length b \<Longrightarrow> CompareTo a b \<le> 0 \<longleftrightarrow> val a \<le> val b"
  by (simp_all add: CompareTo_val)

section \<open>Shifts compute on values\<close>

lemma bit_u32_lt: "bit (x :: u32) n \<Longrightarrow> n < 32"
  using bit_imp_le_length by fastforce

lemma bit_unat [simp]: "bit (unat (x :: u32)) n \<longleftrightarrow> bit x n"
  by (auto simp: bit_unsigned_iff)

lemma bit_val: "bit (val a) n \<longleftrightarrow> n div 32 < length a \<and> bit (a ! (n div 32)) (n mod 32)"
proof (induction a arbitrary: n)
  case (Cons x xs)
  have "val (x # xs) = unat x + push_bit 32 (val xs)" by (simp add: push_bit_eq_mult)
  moreover have "bit (unat x + push_bit 32 (val xs)) n \<longleftrightarrow> bit (unat x) n \<or> bit (push_bit 32 (val xs)) n"
    by (rule bit_disjunctive_add_iff) (auto simp: bit_push_bit_iff_nat dest: bit_u32_lt)
  ultimately have b: "bit (val (x # xs)) n \<longleftrightarrow> bit x n \<or> bit (push_bit 32 (val xs)) n"
    by (simp del: val.simps)
  show ?case
  proof (cases "n < 32")
    case True
    with b show ?thesis by (simp add: bit_push_bit_iff_nat del: val.simps)
  next
    case False
    then obtain m where n: "n = m + 32" by (metis add.commute le_add_diff_inverse not_less)
    then have "n div 32 = Suc (m div 32)" "n mod 32 = m mod 32" by simp_all
    moreover have "\<not> bit x n" using False bit_u32_lt by blast
    moreover have "bit (push_bit 32 (val xs)) n \<longleftrightarrow> bit (val xs) m" by (simp add: n bit_push_bit_iff_nat)
    ultimately show ?thesis unfolding b Cons.IH [of m] by simp
  qed
qed simp

lemma bit_nat_bound: "bit v n \<Longrightarrow> (2 :: nat) ^ n \<le> v"
  by (metis bit_iff_odd div_less even_zero not_less)

lemma val_eqI:
  assumes "\<And>n. n < 32 * length a \<Longrightarrow> bit (a ! (n div 32)) (n mod 32) \<longleftrightarrow> bit v n" and "v < 2 ^ (32 * length a)"
  shows "val a = v"
proof (rule bit_eqI)
  fix n
  have "n < 32 * length a" if "bit v n"
  proof -
    have "2 ^ n < (2 :: nat) ^ (32 * length a)"
      using bit_nat_bound [OF that] assms(2) by (rule le_less_trans)
    then show ?thesis by simp
  qed
  moreover have "n div 32 < length a \<longleftrightarrow> n < 32 * length a"
    by (simp add: div_less_iff_less_mult mult.commute)
  ultimately show "bit (val a) n \<longleftrightarrow> bit v n"
    using assms(1) [of n] by (auto simp: bit_val)
qed

lemma shl_step_bit:
  assumes "length pn = length a" and "t < length a" and "i < length a" and "shift < 32"
  shows "bit (shl_step k shift a i pn ! t) b \<longleftrightarrow> bit (pn ! t) b \<or>
    (t = i + k + 1 \<and> shift \<noteq> 0 \<and> bit (a ! i) (32 - shift + b)) \<or>
    (t = i + k \<and> shift \<le> b \<and> b < 32 \<and> bit (a ! i) (b - shift))"
  using assms
  by (auto simp: shl_step_def Let_def nth_list_update bit_or_iff bit_drop_bit_eq bit_push_bit_iff)

lemma length_shl_step [simp]: "length (shl_step k shift a i pn) = length pn"
  by (simp add: shl_step_def Let_def)

lemma shl_fold_bit:
  fixes k :: nat
  assumes "m \<le> length a" and "t < length a" and "shift < 32"
  defines "p \<equiv> fold (shl_step k shift a) [0..<m] (replicate (length a) 0)"
  shows "length p = length a \<and> (bit (p ! t) b \<longleftrightarrow>
    (\<exists>i < m. (t = i + k + 1 \<and> shift \<noteq> 0 \<and> bit (a ! i) (32 - shift + b)) \<or>
       (t = i + k \<and> shift \<le> b \<and> b < 32 \<and> bit (a ! i) (b - shift))))"
  using assms(1) unfolding p_def
proof (induction m)
  case (Suc m)
  then show ?case using assms(2,3) by (simp add: shl_step_bit less_Suc_eq) blast
qed (use assms(2) in simp)

lemma length_shl [simp]: "length (shl a shift) = length a"
proof -
  have "length (fold (shl_step k s a) xs p) = length p" for k s xs p
    by (induction xs arbitrary: p) simp_all
  then show ?thesis by (simp add: shl_def)
qed

text \<open>Where a bit of a shifted number comes from.\<close>

lemma shift_split:
  "(n + sh) div 32 = n div 32 + sh div 32 + (if n mod 32 + sh mod 32 < 32 then 0 else 1)"
  "(n + sh) mod 32 = (if n mod 32 + sh mod 32 < 32 then n mod 32 + sh mod 32 else n mod 32 + sh mod 32 - 32)"
  for n sh :: nat
proof -
  have lt: "n mod 32 + sh mod 32 < 64"
    using mod_less_divisor [of 32 n] mod_less_divisor [of 32 sh] by linarith
  then have "(n mod 32 + sh mod 32) div 32 = (if n mod 32 + sh mod 32 < 32 then 0 else 1)"
    by (simp add: div_nat_eqI)
  then show "(n + sh) div 32 = n div 32 + sh div 32 + (if n mod 32 + sh mod 32 < 32 then 0 else 1)"
    by (simp only: div_add1_eq [of n sh 32])
  have m64: "x mod 32 = (if x < 32 then x else x - 32)" if "x < 64" for x :: nat
    using that by (auto simp: mod_if [of x] mod_less)
  have "(n + sh) mod 32 = (n mod 32 + sh mod 32) mod 32" by (simp only: mod_add_eq)
  with lt show "(n + sh) mod 32 = (if n mod 32 + sh mod 32 < 32 then n mod 32 + sh mod 32 else n mod 32 + sh mod 32 - 32)"
    by (simp only: m64)
qed

lemma shl_limb:
  fixes a :: base_uint
  assumes "c < 32" and "s < 32" and "t < W"
    and t: "t = i + k + (if c + s < 32 then 0 else 1)" and b: "b = (if c + s < 32 then c + s else c + s - 32)"
  shows "(\<exists>j < W. (t = j + k + 1 \<and> s \<noteq> 0 \<and> bit (a ! j) (32 - s + b)) \<or> (t = j + k \<and> s \<le> b \<and> bit (a ! j) (b - s)))
    \<longleftrightarrow> i < W \<and> bit (a ! i) c"
proof (cases "c + s < 32")
  case True
  then have "32 - s + b = 32 + c" "b - s = c" "t = i + k" "s \<le> b" using assms by auto
  moreover have "\<not> bit (a ! j) (32 + c)" for j using bit_u32_lt by fastforce
  ultimately show ?thesis using \<open>t < W\<close> by auto
next
  case False
  then have "32 - s + b = c" "\<not> s \<le> b" "t = i + k + 1" "s \<noteq> 0" using assms by auto
  then show ?thesis using \<open>t < W\<close> by auto
qed

lemma val_shl: "val (shl a shift) = (val a * 2 ^ shift) mod 2 ^ (32 * length a)"
proof (rule val_eqI)
  let ?k = "shift div 32" and ?s = "shift mod 32"
  fix n assume n: "n < 32 * length (shl a shift)"
  let ?t = "n div 32" and ?b = "n mod 32"
  have t: "?t < length a" using n by (simp add: less_mult_imp_div_less mult.commute)
  have L: "bit (shl a shift ! ?t) ?b \<longleftrightarrow>
    (\<exists>j < length a. (?t = j + ?k + 1 \<and> ?s \<noteq> 0 \<and> bit (a ! j) (32 - ?s + ?b)) \<or>
       (?t = j + ?k \<and> ?s \<le> ?b \<and> bit (a ! j) (?b - ?s)))"
    using shl_fold_bit [of "length a" a ?t ?s ?k ?b] t by (simp add: shl_def)
  have "(val a * 2 ^ shift) mod 2 ^ (32 * length a) = take_bit (32 * length a) (push_bit shift (val a))"
    by (simp add: take_bit_eq_mod push_bit_eq_mult)
  then have R: "bit ((val a * 2 ^ shift) mod 2 ^ (32 * length a)) n \<longleftrightarrow> shift \<le> n \<and> bit (val a) (n - shift)"
    using n by (auto simp: bit_take_bit_iff bit_push_bit_iff_nat)
  show "bit (shl a shift ! ?t) ?b \<longleftrightarrow> bit ((val a * 2 ^ shift) mod 2 ^ (32 * length a)) n"
  proof (cases "shift \<le> n")
    case True
    then obtain m where m: "n = m + shift" by (metis add.commute le_add_diff_inverse)
    have "bit (shl a shift ! ?t) ?b \<longleftrightarrow> m div 32 < length a \<and> bit (a ! (m div 32)) (m mod 32)"
      unfolding L by (rule shl_limb [OF _ _ t]) (simp, simp, simp only: m shift_split(1), simp only: m shift_split(2))
    with R True m show ?thesis by (simp add: bit_val)
  next
    case False
    have "n = 32 * ?t + ?b" "shift = 32 * ?k + ?s" "?s < 32" by simp_all
    with False have lt: "?t < ?k \<or> (?t = ?k \<and> ?b < ?s)" by linarith
    have "\<not> bit (shl a shift ! ?t) ?b"
    proof
      assume "bit (shl a shift ! ?t) ?b"
      with L have "?k < ?t \<or> (?k \<le> ?t \<and> ?s \<le> ?b)" by fastforce
      with lt show False by linarith
    qed
    with False R show ?thesis by simp
  qed
qed simp

lemma shr_step_bit:
  assumes "length pn = length a" and "t < length a" and "i < length a" and "shift < 32"
  shows "bit (shr_step k shift a i pn ! t) b \<longleftrightarrow> bit (pn ! t) b \<or>
    (i = t + k + 1 \<and> shift \<noteq> 0 \<and> 32 - shift \<le> b \<and> b < 32 \<and> bit (a ! i) (b - (32 - shift))) \<or>
    (i = t + k \<and> bit (a ! i) (shift + b))"
  using assms
  by (auto simp: shr_step_def Let_def nth_list_update bit_or_iff bit_drop_bit_eq bit_push_bit_iff)

lemma length_shr_step [simp]: "length (shr_step k shift a i pn) = length pn"
  by (simp add: shr_step_def Let_def)

lemma shr_fold_bit:
  fixes k :: nat
  assumes "m \<le> length a" and "t < length a" and "shift < 32"
  defines "p \<equiv> fold (shr_step k shift a) [0..<m] (replicate (length a) 0)"
  shows "length p = length a \<and> (bit (p ! t) b \<longleftrightarrow>
    (\<exists>i < m. (i = t + k + 1 \<and> shift \<noteq> 0 \<and> 32 - shift \<le> b \<and> b < 32 \<and> bit (a ! i) (b - (32 - shift))) \<or>
       (i = t + k \<and> bit (a ! i) (shift + b))))"
  using assms(1) unfolding p_def
proof (induction m)
  case (Suc m)
  then show ?case using assms(2,3) by (simp add: shr_step_bit less_Suc_eq) blast
qed (use assms(2) in simp)

lemma length_shr [simp]: "length (shr a shift) = length a"
proof -
  have "length (fold (shr_step k s a) xs p) = length p" for k s xs p
    by (induction xs arbitrary: p) simp_all
  then show ?thesis by (simp add: shr_def)
qed

lemma shr_limb:
  fixes a :: base_uint
  assumes "b < 32" and "s < 32"
    and i: "i = t + k + (if b + s < 32 then 0 else 1)" and c: "c = (if b + s < 32 then b + s else b + s - 32)"
  shows "(\<exists>j < W. (j = t + k + 1 \<and> s \<noteq> 0 \<and> 32 - s \<le> b \<and> b < 32 \<and> bit (a ! j) (b - (32 - s))) \<or>
      (j = t + k \<and> bit (a ! j) (s + b)))
    \<longleftrightarrow> i < W \<and> bit (a ! i) c"
proof (cases "b + s < 32")
  case True
  then have "\<not> 32 - s \<le> b" "s + b = c" "i = t + k" using assms by auto
  then show ?thesis by auto
next
  case False
  then have "b - (32 - s) = c" "32 - s \<le> b" "i = t + k + 1" "s \<noteq> 0" using assms by auto
  moreover have "\<not> bit (a ! j) (s + b)" for j using False bit_u32_lt by fastforce
  ultimately show ?thesis using assms(1) by auto
qed

lemma val_shr: "val (shr a shift) = val a div 2 ^ shift"
proof (rule val_eqI)
  fix n assume n: "n < 32 * length (shr a shift)"
  let ?k = "shift div 32" and ?s = "shift mod 32" and ?t = "n div 32" and ?b = "n mod 32"
  have t: "?t < length a" using n by (simp add: less_mult_imp_div_less mult.commute)
  have "bit (shr a shift ! ?t) ?b \<longleftrightarrow>
    (\<exists>j < length a. (j = ?t + ?k + 1 \<and> ?s \<noteq> 0 \<and> 32 - ?s \<le> ?b \<and> ?b < 32 \<and> bit (a ! j) (?b - (32 - ?s))) \<or>
       (j = ?t + ?k \<and> bit (a ! j) (?s + ?b)))"
    using shr_fold_bit [of "length a" a ?t ?s ?k ?b] t by (simp add: shr_def)
  also have "\<dots> \<longleftrightarrow> (n + shift) div 32 < length a \<and> bit (a ! ((n + shift) div 32)) ((n + shift) mod 32)"
    by (rule shr_limb) (simp, simp, rule shift_split(1), rule shift_split(2))
  also have "\<dots> \<longleftrightarrow> bit (val a) (n + shift)" by (simp only: bit_val)
  also have "\<dots> \<longleftrightarrow> bit (val a div 2 ^ shift) n"
    by (simp add: bit_drop_bit_eq add.commute flip: drop_bit_eq_div)
  finally show "bit (shr a shift ! ?t) ?b \<longleftrightarrow> bit (val a div 2 ^ shift) n" .
next
  show "val a div 2 ^ shift < 2 ^ (32 * length (shr a shift))"
    using val_bound [of a] by (simp add: le_less_trans [OF div_le_dividend])
qed

section \<open>Constants, widths and equality\<close>

lemma length_of_u64 [simp]: "length (of_u64 n b) = n"
  by (simp add: of_u64_def)

lemma val_of_u64: "2 \<le> n \<Longrightarrow> val (of_u64 n b) = unat b"
proof -
  assume "2 \<le> n"
  then obtain m where n: "n = Suc (Suc m)" by (metis add_2_eq_Suc le_Suc_ex)
  have l: "unat (ucast b :: u32) = unat b mod 2 ^ 32"
    by (simp add: unsigned_ucast_eq take_bit_eq_mod)
  have "unat (drop_bit 32 b) < 2 ^ 32"
    unfolding unat_high32 using u64_bound [of b] by (simp add: less_mult_imp_div_less)
  then have "unat (ucast (drop_bit 32 b) :: u32) = unat b div 2 ^ 32"
    unfolding unsigned_ucast_eq by (simp add: take_bit_eq_mod unat_high32)
  then show ?thesis using l mod_mult_div_eq [of "unat b" "2 ^ 32"] by (simp add: of_u64_def n)
qed

lemma val_take: "val (take n a) = val a mod 2 ^ (32 * n)"
proof (cases "n \<le> length a")
  case True
  have "val a = val (take n a) + 2 ^ (32 * n) * val (drop n a)"
    using val_append [of "take n a" "drop n a"] True by simp
  moreover have "val (take n a) < 2 ^ (32 * n)" using val_bound [of "take n a"] True by simp
  ultimately show ?thesis by simp
next
  case False
  then have "val a < 2 ^ (32 * n)"
    using val_bound [of a] less_le_trans [of "val a" "2 ^ (32 * length a)" "2 ^ (32 * n)"] by simp
  with False show ?thesis by simp
qed

lemma length_from_width [simp]: "length (from_width n a) = n"
  by (simp add: from_width_def)

lemma val_from_width: "val (from_width n a) = val a mod 2 ^ (32 * n)"
proof -
  have "from_width n a = take n a @ replicate (n - length a) 0"
    by (rule nth_equalityI) (auto simp: from_width_def nth_append)
  then show ?thesis by (simp add: val_append val_take)
qed

lemma val_0_iff: "val a = 0 \<longleftrightarrow> list_all (\<lambda>w. w = 0) a"
  by (induction a) (auto simp: unat_eq_0)

lemma unat_and_mask32: "unat (b AND 0xffffffff) = unat (b :: u64) mod 2 ^ 32"
proof -
  have "b AND 0xffffffff = take_bit 32 b" by (simp add: take_bit_eq_mask mask_eq_exp_minus_1)
  then show ?thesis by (simp only: unsigned_take_bit_eq take_bit_eq_mod [of 32 "unat b"])
qed

lemma EqualTo_val:
  assumes "2 \<le> length a"
  shows "EqualTo a b \<longleftrightarrow> val a = unat b"
proof -
  obtain x y xs where a: "a = x # y # xs"
    using assms by (cases a; cases "tl a") auto
  let ?M = "2 ^ 32 :: nat"
  have "EqualTo a b \<longleftrightarrow> val xs = 0 \<and> unat y = unat b div ?M \<and> unat x = unat b mod ?M"
    by (simp add: a EqualTo_def val_0_iff word_unat_eq_iff unat_high32 unat_and_mask32 del: of_nat_unat)
  also have "\<dots> \<longleftrightarrow> unat x + ?M * (unat y + ?M * val xs) = unat b"
  proof
    assume h: "unat x + ?M * (unat y + ?M * val xs) = unat b"
    have "(unat x + ?M * k) div ?M = k" "(unat x + ?M * k) mod ?M = unat x" for k
      using u32_bound [of x] by simp_all
    from this [of "unat y + ?M * val xs"]
    have d: "unat b div ?M = unat y + ?M * val xs" and m: "unat b mod ?M = unat x" by (simp_all only: h)
    moreover have "unat b div ?M < ?M" using u64_bound [of b] by (simp add: less_mult_imp_div_less)
    ultimately show "val xs = 0 \<and> unat y = unat b div ?M \<and> unat x = unat b mod ?M"
      by (cases "val xs") auto
  qed (use mod_mult_div_eq [of "unat b" ?M] in simp)
  finally show ?thesis by (simp add: a)
qed

lemma unat_GetLow64:
  assumes "2 \<le> length a"
  shows "unat (GetLow64 a) = val a mod 2 ^ 64"
proof -
  obtain x y xs where a: "a = x # y # xs"
    using assms by (cases a; cases "tl a") auto
  have "(ucast x :: u64) AND push_bit 32 (ucast y) = 0"
    by (rule bit_eqI) (auto simp: bit_and_iff bit_push_bit_iff bit_ucast_iff dest: bit_u32_lt)
  then have "GetLow64 a = ucast x + push_bit 32 (ucast y)"
    by (simp add: a GetLow64_def disjunctive_add_eq_or)
  then have "unat (GetLow64 a) = unat x + 2 ^ 32 * unat y"
    using u32_bound [of x] u32_bound [of y] by (simp add: push_bit_eq_mult unat_word_ariths)
  moreover have "val a = (unat x + 2 ^ 32 * unat y) + 2 ^ 64 * val xs" by (simp add: a)
  moreover have "unat x + 2 ^ 32 * unat y < 2 ^ 64" using u32_bound [of x] u32_bound [of y] by simp
  ultimately show ?thesis by simp
qed

section \<open>The number of bits\<close>

lemma bit_len_unique: "2 ^ n \<le> v \<Longrightarrow> v < 2 ^ Suc n \<Longrightarrow> bit_len v = Suc n"
proof -
  assume h: "2 ^ n \<le> v" "v < 2 ^ Suc n"
  then have "0 < v" by (metis gr0I less_numeral_extra(3) not_le power_eq_0_iff zero_less_power zero_neq_numeral)
  then have b: "2 ^ (bit_len v - 1) \<le> v" "v < 2 ^ bit_len v" and p: "0 < bit_len v"
    using bit_len_bounds bit_len_pos by auto
  have "2 ^ (bit_len v - 1) < (2 :: nat) ^ Suc n" "2 ^ n < (2 :: nat) ^ bit_len v"
    using b h by linarith+
  then have "bit_len v - 1 < Suc n" "n < bit_len v"
    by (auto dest: power_less_imp_less_exp [rotated] simp del: power_Suc)
  with p show ?thesis by linarith
qed

lemma top_bit_bounds:
  "unat w < 2 ^ Suc n \<Longrightarrow> w \<noteq> 0 \<Longrightarrow> n < 32 \<Longrightarrow> 2 ^ (top_bit n w - 1) \<le> unat w \<and> unat w < 2 ^ top_bit n w \<and> 0 < top_bit n w"
proof (induction n)
  case 0
  then show ?case by (simp add: unat_gt_0 Suc_le_eq)
next
  case (Suc n)
  have e: "w AND push_bit (Suc n) 1 \<noteq> 0 \<longleftrightarrow> bit w (Suc n)"
    by (simp only: push_bit_of_1 and_exp_eq_0_iff_not_bit not_not)
  show ?case
  proof (cases "bit w (Suc n)")
    case True
    then have "2 ^ Suc n \<le> unat w" by (intro bit_nat_bound) simp
    with True e Suc.prems show ?thesis by simp
  next
    case False
    have "unat w < 2 ^ Suc n"
    proof -
      have "unat w div 2 ^ Suc n < 2" using Suc.prems(1) by (simp add: less_mult_imp_div_less)
      moreover have "\<not> bit (unat w) (Suc n)" using False by simp
      then have "even (unat w div 2 ^ Suc n)" by (simp only: bit_iff_odd not_not)
      moreover have "x = 0" if "x < 2" "even x" for x :: nat using that by presburger
      ultimately have "unat w div 2 ^ Suc n = 0" by blast
      then show ?thesis by (simp add: div_eq_0_iff)
    qed
    with Suc False e show ?thesis by simp
  qed
qed

lemma bits_from_val:
  "n \<le> length a \<Longrightarrow> bits_from n a = bit_len (val (take n a))"
proof (induction n)
  case 0
  then show ?case by (simp add: bit_len.simps)
next
  case (Suc n)
  let ?w = "a ! n" and ?v = "val (take n a)"
  have v: "val (take (Suc n) a) = ?v + 2 ^ (32 * n) * unat ?w"
    using Suc.prems by (simp add: take_Suc_conv_app_nth val_append)
  have vb: "?v < 2 ^ (32 * n)" using val_bound [of "take n a"] Suc.prems by simp
  show ?case
  proof (cases "?w = 0")
    case True
    with Suc v show ?thesis by simp
  next
    case False
    let ?t = "top_bit 31 ?w"
    have t: "2 ^ (?t - 1) \<le> unat ?w" "unat ?w + 1 \<le> 2 ^ ?t" "0 < ?t"
      using top_bit_bounds [of ?w 31] False u32_bound [of ?w] by auto
    have "2 ^ (32 * n + (?t - 1)) \<le> val (take (Suc n) a)"
      unfolding v power_add using mult_le_mono2 [OF t(1), of "2 ^ (32 * n)"] by linarith
    moreover have "val (take (Suc n) a) < 2 ^ Suc (32 * n + (?t - 1))"
    proof -
      have "val (take (Suc n) a) < 2 ^ (32 * n) * (unat ?w + 1)" using v vb by simp
      also have "\<dots> \<le> 2 ^ (32 * n) * 2 ^ ?t" using t(2) by (rule mult_le_mono2)
      finally show ?thesis using t(3) by (simp flip: power_add)
    qed
    ultimately have "bit_len (val (take (Suc n) a)) = Suc (32 * n + (?t - 1))"
      by (rule bit_len_unique)
    with False t(3) show ?thesis by simp
  qed
qed

lemma bits_val: "bits a = bit_len (val a)"
  by (simp add: bits_def bits_from_val)

section \<open>Division\<close>

text \<open>
  The invariant of the division loop before the round for \<open>shift\<close>: the divisor is \<open>d * 2 ^ shift\<close>,
  the quotient found so far is a multiple of \<open>2 ^ (shift + 1)\<close>, and the remainder is below
  \<open>d * 2 ^ (shift + 1)\<close>.
\<close>

definition div_inv :: "nat \<Rightarrow> nat \<Rightarrow> nat \<Rightarrow> nat \<Rightarrow> base_uint \<times> base_uint \<times> base_uint \<Rightarrow> bool" where
  "div_inv W n d k = (\<lambda>(num, dv, q). length num = W \<and> length dv = W \<and> length q = W \<and>
     n = d * val q + val num \<and> 2 ^ k dvd val q \<and> val num < d * 2 ^ k)"

lemma set_bit_val:
  assumes "2 ^ Suc k dvd val q" and "k < 32 * length q"
  shows "val (q[k div 32 := q ! (k div 32) OR push_bit (k mod 32) 1]) = val q + 2 ^ k"
proof -
  let ?q = "q[k div 32 := q ! (k div 32) OR push_bit (k mod 32) 1]"
  have k: "k div 32 < length q" using assms(2) by (simp add: div_less_iff_less_mult mult.commute)
  have nb: "\<not> bit (val q) k"
  proof -
    obtain m where "val q = 2 ^ Suc k * m" using assms(1) by (auto elim: dvdE)
    then have "val q div 2 ^ k = 2 * m" by simp
    then show ?thesis by (simp add: bit_iff_odd)
  qed
  have "val ?q = val q OR 2 ^ k"
  proof (rule bit_eqI)
    fix n
    have "n div 32 = k div 32 \<and> n mod 32 = k mod 32 \<longleftrightarrow> n = k" by (metis mod_div_mult_eq)
    then show "bit (val ?q) n \<longleftrightarrow> bit (val q OR 2 ^ k) n"
      using k by (auto simp: bit_val bit_or_iff bit_exp_iff nth_list_update push_bit_of_1)
  qed
  also have "\<dots> = val q + 2 ^ k"
    by (rule disjunctive_add_eq_or [symmetric]) (use nb in \<open>simp add: and_exp_eq_0_iff_not_bit\<close>)
  finally show ?thesis .
qed

lemma div_round_inv:
  assumes inv: "div_inv W n d (Suc k) (num, dv, q)" and dv: "val dv = d * 2 ^ k" and k: "k < 32 * W"
    and st: "div_round k (num, dv, q) = (num', dv', q')"
  shows "div_inv W n d k (num', dv', q') \<and> val dv' = d * 2 ^ k div 2"
proof -
  have len: "length num = W" "length dv = W" "length q = W" and n: "n = d * val q + val num"
    and dvd: "2 ^ Suc k dvd val q" and lt: "val num < d * 2 ^ Suc k"
    using inv by (auto simp: div_inv_def)
  have dvd': "2 ^ k dvd val q" using dvd by (metis dvd_trans le_imp_power_dvd le_Suc_eq order_refl)
  show ?thesis
  proof (cases "val dv \<le> val num")
    case True
    have q: "val q' = val q + 2 ^ k" and "length q' = W" "length num' = W" "length dv' = W"
      "val num' = val num - val dv" "val dv' = d * 2 ^ k div 2"
      using st len True set_bit_val [OF dvd] k dv
      by (auto simp: div_round_def Let_def val_sub_le val_shr)
    moreover have "2 ^ k dvd val q'" using q dvd' by simp
    moreover have "val num - val dv < d * 2 ^ k" using lt dv True by simp
    ultimately show ?thesis using n True dv by (simp add: div_inv_def distrib_left)
  next
    case False
    then show ?thesis using st len n lt dv dvd' by (auto simp: div_round_def Let_def div_inv_def val_shr)
  qed
qed

lemma div_loop_val:
  "div_inv W n d (Suc k) st \<Longrightarrow> val (fst (snd st)) = d * 2 ^ k \<Longrightarrow> k < 32 * W \<Longrightarrow>
    length (div_loop k st) = W \<and> val (div_loop k st) = n div d"
proof (induction k arbitrary: st)
  case 0
  obtain num dv q where st: "div_round 0 st = (num, dv, q)" by (metis prod_cases3)
  obtain num0 dv0 q0 where st0: "st = (num0, dv0, q0)" by (metis prod_cases3)
  have "div_inv W n d 0 (num, dv, q)"
    using div_round_inv [of W n d 0 num0 dv0 q0 num dv q] 0 st st0 by simp
  then have "n = d * val q + val num" "val num < d" "length q = W" by (auto simp: div_inv_def)
  then show ?case using st by simp
next
  case (Suc k)
  obtain num dv q where st: "div_round (Suc k) st = (num, dv, q)" by (metis prod_cases3)
  obtain num0 dv0 q0 where st0: "st = (num0, dv0, q0)" by (metis prod_cases3)
  have "div_inv W n d (Suc k) (num, dv, q) \<and> val dv = d * 2 ^ k"
    using div_round_inv [of W n d "Suc k" num0 dv0 q0 num dv q] Suc.prems st st0 by simp
  then show ?case using Suc.IH [of "(num, dv, q)"] Suc.prems st by simp
qed

lemma bit_len_le: "v < 2 ^ n \<Longrightarrow> bit_len v \<le> n"
proof (rule ccontr)
  assume h: "v < 2 ^ n" "\<not> bit_len v \<le> n"
  then have "0 < v" by (cases v) (auto simp: bit_len.simps)
  then have "2 ^ (bit_len v - 1) \<le> v" using bit_len_bounds by blast
  moreover have "(2 :: nat) ^ n \<le> 2 ^ (bit_len v - 1)" using h(2) by (intro power_increasing) auto
  ultimately show False using h(1) by linarith
qed

lemma bit_len_0_iff [simp]: "bit_len v = 0 \<longleftrightarrow> v = 0"
  by (metis bit_len.simps bit_len_pos gr0I less_numeral_extra(3))

lemma bit_len_mono_less: "bit_len v < bit_len w \<Longrightarrow> v < w"
proof (rule ccontr)
  assume h: "bit_len v < bit_len w" "\<not> v < w"
  have "v < 2 ^ bit_len v" using bit_len_bounds [of v] by (cases "v = 0") auto
  with h(2) have "w < 2 ^ bit_len v" by linarith
  then show False using bit_len_le h(1) by fastforce
qed

lemma div_uint_None: "div_uint a b = None \<longleftrightarrow> val b = 0"
  by (simp add: div_uint_def Let_def bits_val)

lemma div_uint_val:
  assumes len: "length a = length b" and nz: "val b \<noteq> 0"
  shows "\<exists>q. div_uint a b = Some q \<and> length q = length a \<and> val q = val a div val b"
proof (cases "bit_len (val b) > bit_len (val a)")
  case True
  then show ?thesis
    using nz bit_len_mono_less [OF True] by (simp add: div_uint_def Let_def bits_val)
next
  case False
  let ?nb = "bit_len (val a)" and ?db = "bit_len (val b)"
  let ?sh = "?nb - ?db" and ?W = "length a"
  have b: "2 ^ (?db - 1) \<le> val b" "val b < 2 ^ ?db" "0 < ?db" using nz bit_len_bounds bit_len_pos by auto
  have "0 < val a" using False b(3) by (cases "val a") (auto simp: bit_len.simps)
  then have a: "val a < 2 ^ ?nb" using bit_len_bounds by blast
  have nb: "?nb \<le> 32 * ?W" using val_bound bit_len_le by blast
  have sum: "?db + ?sh = ?nb" using False by simp
  have "val b * 2 ^ ?sh < 2 ^ ?db * 2 ^ ?sh" using b(2) by simp
  also have "\<dots> = 2 ^ ?nb" by (simp add: sum flip: power_add)
  also have "\<dots> \<le> 2 ^ (32 * ?W)" using nb by (intro power_increasing) auto
  finally have s: "val (shl b ?sh) = val b * 2 ^ ?sh" using len by (simp add: val_shl)
  have "2 ^ (?db - 1) * 2 ^ Suc ?sh \<le> val b * 2 ^ Suc ?sh" using b(1) by (rule mult_le_mono1)
  moreover have "(?db - 1) + Suc ?sh = ?nb" using sum b(3) by linarith
  ultimately have "val a < val b * 2 ^ Suc ?sh" using a by (simp flip: power_add del: power_Suc)
  then have "div_inv ?W (val a) (val b) (Suc ?sh) (a, shl b ?sh, replicate ?W 0)"
    using len by (simp add: div_inv_def)
  moreover have "?sh < 32 * ?W" using nb b(3) sum by linarith
  ultimately have "length (div_loop ?sh (a, shl b ?sh, replicate ?W 0)) = ?W \<and>
      val (div_loop ?sh (a, shl b ?sh, replicate ?W 0)) = val a div val b"
    using s by (intro div_loop_val) auto
  then show ?thesis using False nz by (simp add: div_uint_def Let_def bits_val)
qed

end
