(* ===== verification/Compact.thy ===== *)
theory Compact
  imports Arith_Uint
begin

text \<open>
  The compact encoding of targets and the conversions between arith_uint256 and uint256, from
  \<open>arith_uint256.cpp\<close>.  SetCompact decodes the 32-bit field nBits of a block header; GetCompact
  encodes a target.  The lemmas give both as functions on values, show that encoding after decoding
  is the identity on canonical fields, and that decoding after encoding rounds down by less than
  one part in \<open>2 ^ 15\<close>, monotonically.  A failed assertion is None.
\<close>

section \<open>The compact encoding\<close>

text \<open>The integer and the two flags.\<close>

definition SetCompact :: "u32 \<Rightarrow> base_uint \<times> bool \<times> bool" where
  "SetCompact nCompact =
     (let nSize = unat (drop_bit 24 nCompact);
          nWord0 = nCompact AND 0x007fffff;
          nWord = (if nSize \<le> 3 then drop_bit (8 * (3 - nSize)) nWord0 else nWord0);
          this = (if nSize \<le> 3 then of_u64 8 (ucast nWord) else shl (of_u64 8 (ucast nWord)) (8 * (nSize - 3)))
      in (this,
          nWord \<noteq> 0 \<and> nCompact AND 0x00800000 \<noteq> 0,
          nWord \<noteq> 0 \<and> (nSize > 34 \<or> (nWord > 0xff \<and> nSize > 33) \<or> (nWord > 0xffff \<and> nSize > 32))))"

definition GetCompact :: "base_uint \<Rightarrow> bool \<Rightarrow> u32 option" where
  "GetCompact this fNegative =
     (let nSize = (bits this + 7) div 8;
          nCompact = (if nSize \<le> 3 then ucast (push_bit (8 * (3 - nSize)) (GetLow64 this))
                      else ucast (GetLow64 (shr this (8 * (nSize - 3))))) :: u32;
          (nCompact, nSize) = (if nCompact AND 0x00800000 \<noteq> 0 then (drop_bit 8 nCompact, nSize + 1)
                               else (nCompact, nSize))
      in if nCompact AND NOT 0x007fffff \<noteq> 0 \<or> nSize \<ge> 256 then None
         else let nCompact = nCompact OR push_bit 24 (of_nat nSize)
           in Some (nCompact OR (if fNegative \<and> nCompact AND 0x007fffff \<noteq> 0 then 0x00800000 else 0)))"

section \<open>Conversions\<close>

text \<open>A uint256 is its 32 bytes; WriteLE32 and ReadLE32 are \<open>crypto/common.h\<close>.\<close>

definition WriteLE32 :: "u32 \<Rightarrow> bytes" where
  "WriteLE32 x = le_bytes 4 (unat x)"

definition ReadLE32 :: "bytes \<Rightarrow> u32" where
  "ReadLE32 ptr = word_of_nat (le_val (take 4 ptr))"

definition ArithToUint256 :: "base_uint \<Rightarrow> bytes" where
  "ArithToUint256 a = concat (map WriteLE32 a)"

definition UintToArith256 :: "bytes \<Rightarrow> base_uint" where
  "UintToArith256 a = map (\<lambda>x. ReadLE32 (drop (x * 4) a)) [0..<8]"

section \<open>Decoding\<close>

text \<open>Size and mantissa of a compact field.\<close>

definition csize :: "u32 \<Rightarrow> nat" where
  "csize c = unat c div 2 ^ 24"

definition cword :: "u32 \<Rightarrow> nat" where
  "cword c = unat c mod 2 ^ 23"

lemma unat_and_mask: "unat (c AND mask n :: u32) = unat c mod 2 ^ n"
  by (simp only: unsigned_take_bit_eq take_bit_eq_mod [of n "unat c"] flip: take_bit_eq_mask)

lemma unat_csize: "unat (drop_bit 24 c) = csize c"
  unfolding csize_def unat_drop_bit_eq by (rule drop_bit_eq_div)

lemma unat_cword: "unat (c AND 0x007fffff) = cword c"
proof -
  have "(0x007fffff :: u32) = mask 23" by (simp add: mask_eq_exp_minus_1)
  then show ?thesis by (simp only: unat_and_mask cword_def)
qed

lemma csize_bound: "csize c < 256"
  using u32_bound [of c] by (simp add: csize_def less_mult_imp_div_less)

lemma cword_bound: "cword c < 8388608"
  by (simp add: cword_def)

lemma cword_0_iff: "c AND 0x007fffff = 0 \<longleftrightarrow> cword c = 0"
  by (metis unat_cword unat_eq_0)

text \<open>The decoded value, before it is cut to 256 bits.\<close>

definition cval :: "u32 \<Rightarrow> nat" where
  "cval c = (if csize c \<le> 3 then cword c div 256 ^ (3 - csize c) else cword c * 256 ^ (csize c - 3))"

lemma pow_split: "a = b + c \<Longrightarrow> (2 :: nat) ^ a = 2 ^ b * 2 ^ c"
  by (simp only: power_add)

lemma pow256: "(256 :: nat) ^ n = 2 ^ (8 * n)"
  by (simp add: power_mult)

lemma val_SetCompact: "val (fst (SetCompact c)) = cval c mod 2 ^ 256"
proof (cases "csize c \<le> 3")
  case True
  have "unat (drop_bit (8 * (3 - csize c)) (c AND 0x007fffff)) = cword c div 2 ^ (8 * (3 - csize c))"
    by (simp only: unat_drop_bit_eq unat_cword drop_bit_eq_div [of _ "cword c"])
  moreover have "cword c div 2 ^ (8 * (3 - csize c)) < 2 ^ 256"
    using cword_bound [of c] le_less_trans [OF div_le_dividend] by fastforce
  ultimately show ?thesis using True
    by (simp add: SetCompact_def Let_def unat_csize val_of_u64 cval_def pow256)
next
  case False
  then show ?thesis
    by (simp add: SetCompact_def Let_def unat_csize val_of_u64 val_shl cval_def pow256 unat_cword)
qed

lemma length_SetCompact [simp]: "length (fst (SetCompact c)) = 8"
  by (simp add: SetCompact_def Let_def)

text \<open>The mantissa after the shift of the short sizes.\<close>

lemma nWord_cval:
  "(if csize c \<le> 3 then drop_bit (8 * (3 - csize c)) (c AND 0x007fffff) else c AND 0x007fffff) = 0 \<longleftrightarrow> cval c = 0"
proof -
  have "unat (drop_bit (8 * (3 - csize c)) (c AND 0x007fffff)) = cword c div 2 ^ (8 * (3 - csize c))"
    by (simp only: unat_drop_bit_eq unat_cword drop_bit_eq_div [of _ "cword c"])
  then show ?thesis by (auto simp only: cval_def pow256 unat_cword unat_eq_0 [symmetric] split: if_splits) simp_all
qed

lemma SetCompact_negative: "fst (snd (SetCompact c)) \<longleftrightarrow> cval c \<noteq> 0 \<and> bit c 23"
proof -
  have "(0x00800000 :: u32) = 2 ^ 23" by simp
  then have "c AND 0x00800000 \<noteq> 0 \<longleftrightarrow> bit c 23"
    by (simp only: and_exp_eq_0_iff_not_bit not_not)
  then show ?thesis using nWord_cval [of c] by (simp add: SetCompact_def Let_def unat_csize)
qed

text \<open>The overflow flag says exactly that the value needs more than 256 bits.\<close>

lemma cval_overflow:
  assumes "3 < csize c"
  shows "2 ^ 256 \<le> cval c \<longleftrightarrow> cword c \<noteq> 0 \<and>
    (csize c > 34 \<or> (cword c > 255 \<and> csize c > 33) \<or> (cword c > 65535 \<and> csize c > 32))"
proof -
  have v: "cval c = cword c * 2 ^ (8 * (csize c - 3))" using assms by (simp add: cval_def pow256)
  consider "csize c \<le> 32" | "csize c = 33" | "csize c = 34" | "csize c \<ge> 35" by linarith
  then show ?thesis
  proof cases
    case 1
    then have "cword c * 2 ^ (8 * (csize c - 3)) \<le> 8388608 * 2 ^ 232"
      using cword_bound [of c] by (intro mult_le_mono power_increasing) auto
    with 1 v show ?thesis by simp
  next
    case 4
    then have "(2 :: nat) ^ 256 \<le> 2 ^ (8 * (csize c - 3))" by (intro power_increasing) auto
    then have "cword c \<noteq> 0 \<Longrightarrow> 1 * 2 ^ 256 \<le> cword c * 2 ^ (8 * (csize c - 3))" by (intro mult_le_mono) auto
    with 4 v show ?thesis by (cases "cword c = 0") auto
  qed (use v in auto)
qed

lemma SetCompact_overflow: "snd (snd (SetCompact c)) \<longleftrightarrow> 2 ^ 256 \<le> cval c"
proof (cases "csize c \<le> 3")
  case True
  have "cval c \<le> cword c" using True by (simp add: cval_def)
  then have "\<not> 2 ^ 256 \<le> cval c" using cword_bound [of c] by simp
  with True show ?thesis by (simp add: SetCompact_def Let_def unat_csize)
next
  case False
  then show ?thesis
    using cval_overflow [of c] by (simp add: SetCompact_def Let_def unat_csize word_less_nat_alt unat_cword cword_0_iff)
qed

section \<open>Encoding\<close>

text \<open>Size and mantissa that GetCompact chooses for a positive value.\<close>

definition esize :: "nat \<Rightarrow> nat" where
  "esize n = (if n = 0 then 0 else bit_len n div 8 + 1)"

definition eword :: "nat \<Rightarrow> nat" where
  "eword n = (if esize n \<le> 3 then n * 256 ^ (3 - esize n) else n div 256 ^ (esize n - 3))"

lemma esize_bounds:
  assumes "0 < n"
  shows "2 ^ (8 * esize n - 9) \<le> n" and "n < 2 ^ (8 * esize n - 1)"
proof -
  have b: "2 ^ (bit_len n - 1) \<le> n" "n < 2 ^ bit_len n" "0 < bit_len n"
    using bit_len_bounds [OF assms] bit_len_pos [OF assms] by auto
  have "8 * esize n - 9 \<le> bit_len n - 1" using assms by (simp add: esize_def)
  then have "(2 :: nat) ^ (8 * esize n - 9) \<le> 2 ^ (bit_len n - 1)" by (rule power_increasing) simp
  with b show "2 ^ (8 * esize n - 9) \<le> n" by linarith
  have "bit_len n \<le> 8 * esize n - 1" using assms b by (simp add: esize_def)
  then have "(2 :: nat) ^ bit_len n \<le> 2 ^ (8 * esize n - 1)" by (rule power_increasing) simp
  with b show "n < 2 ^ (8 * esize n - 1)" by linarith
qed

lemma eword_bound: "eword n < 2 ^ 23"
proof (cases "n = 0")
  case False
  then have n: "n < 2 ^ (8 * esize n - 1)" and e: "1 \<le> esize n" using esize_bounds by (auto simp: esize_def)
  show ?thesis
  proof (cases "esize n \<le> 3")
    case True
    have "n * 2 ^ (8 * (3 - esize n)) < 2 ^ (8 * esize n - 1) * 2 ^ (8 * (3 - esize n))" using n by simp
    also have "\<dots> = 2 ^ (8 * esize n - 1 + 8 * (3 - esize n))" by (simp only: power_add)
    also have "8 * esize n - 1 + 8 * (3 - esize n) = 23" using True e by linarith
    finally show ?thesis using True by (simp add: eword_def pow256)
  next
    case False
    then have "2 ^ (8 * esize n - 1) = (2 ^ 23 :: nat) * 2 ^ (8 * (esize n - 3))" by (intro pow_split) linarith
    with n have "n div 2 ^ (8 * (esize n - 3)) < 2 ^ 23" by (simp add: less_mult_imp_div_less)
    with False show ?thesis by (simp add: eword_def pow256)
  qed
qed (simp add: eword_def esize_def)

text \<open>The size and the mantissa before the sign bit is cleared.\<close>

definition rsize :: "nat \<Rightarrow> nat" where
  "rsize n = (bit_len n + 7) div 8"

definition rword :: "nat \<Rightarrow> nat" where
  "rword n = (if rsize n \<le> 3 then n * 256 ^ (3 - rsize n) else n div 256 ^ (rsize n - 3))"

lemma rsize_bounds:
  assumes "0 < n"
  shows "bit_len n \<le> 8 * rsize n" and "8 * rsize n < bit_len n + 8" and "n < 2 ^ (8 * rsize n)" and "1 \<le> rsize n"
proof -
  show l: "bit_len n \<le> 8 * rsize n" "8 * rsize n < bit_len n + 8" unfolding rsize_def by linarith+
  show "1 \<le> rsize n" using l(1) bit_len_pos [OF assms] by linarith
  have "(2 :: nat) ^ bit_len n \<le> 2 ^ (8 * rsize n)" using l(1) by (rule power_increasing) simp
  with bit_len_bounds [OF assms] show "n < 2 ^ (8 * rsize n)" by linarith
qed

lemma rword_bound: "rword n < 2 ^ 24"
proof (cases "n = 0")
  case False
  then have n: "n < 2 ^ (8 * rsize n)" by (simp add: rsize_bounds)
  show ?thesis
  proof (cases "rsize n \<le> 3")
    case True
    have "n * 2 ^ (8 * (3 - rsize n)) < 2 ^ (8 * rsize n) * 2 ^ (8 * (3 - rsize n))" using n by simp
    also have "\<dots> = 2 ^ (8 * rsize n + 8 * (3 - rsize n))" by (simp only: power_add)
    also have "8 * rsize n + 8 * (3 - rsize n) = 24" using True by linarith
    finally show ?thesis using True by (simp add: rword_def pow256)
  next
    case False
    then have "2 ^ (8 * rsize n) = (2 ^ 24 :: nat) * 2 ^ (8 * (rsize n - 3))" by (intro pow_split) linarith
    with n have "n div 2 ^ (8 * (rsize n - 3)) < 2 ^ 24" by (simp add: less_mult_imp_div_less)
    with False show ?thesis by (simp add: rword_def pow256)
  qed
qed (simp add: rword_def rsize_def bit_len.simps)

lemma rword_large:
  assumes "bit_len n = 8 * rsize n" and "0 < n"
  shows "2 ^ 23 \<le> rword n" and "esize n = rsize n + 1" and "eword n = rword n div 256"
proof -
  let ?s = "rsize n"
  have s: "1 \<le> ?s" and n: "2 ^ (8 * ?s - 1) \<le> n"
    using rsize_bounds(4) [OF assms(2)] bit_len_bounds [OF assms(2)] assms(1) by auto
  show e: "esize n = ?s + 1" using assms by (simp add: esize_def)
  show "2 ^ 23 \<le> rword n"
  proof (cases "?s \<le> 3")
    case True
    have "2 ^ 23 = (2 :: nat) ^ (8 * ?s - 1 + 8 * (3 - ?s))" using True s by (intro arg_cong [where f = "\<lambda>k. 2 ^ k"]) linarith
    also have "\<dots> \<le> n * 2 ^ (8 * (3 - ?s))" unfolding power_add using n by (rule mult_le_mono1)
    finally show ?thesis using True by (simp add: rword_def pow256)
  next
    case False
    then have "2 ^ (8 * ?s - 1) = (2 ^ 23 :: nat) * 2 ^ (8 * (?s - 3))" by (intro pow_split) linarith
    with n have "2 ^ 23 \<le> n div 2 ^ (8 * (?s - 3))" by (simp add: less_eq_div_iff_mult_less_eq)
    with False show ?thesis by (simp add: rword_def pow256)
  qed
  consider "?s \<le> 2" | "?s = 3" | "?s \<ge> 4" by linarith
  then show "eword n = rword n div 256"
  proof cases
    case 1
    then have "3 - ?s = Suc (2 - ?s)" by linarith
    with 1 e show ?thesis by (simp add: eword_def rword_def)
  next
    case 3
    then have "?s - 2 = Suc (?s - 3)" by linarith
    then have "(256 :: nat) ^ (?s - 2) = 256 ^ (?s - 3) * 256" by simp
    with 3 e show ?thesis by (simp add: eword_def rword_def div_mult2_eq)
  qed (use e in \<open>simp add: eword_def rword_def\<close>)
qed

lemma rword_small:
  assumes "bit_len n < 8 * rsize n" and "0 < n"
  shows "rword n < 2 ^ 23" and "esize n = rsize n" and "eword n = rword n"
proof -
  have "bit_len n div 8 + 1 = rsize n" using assms(1) rsize_bounds(2) [OF assms(2)] by linarith
  then show e: "esize n = rsize n" using assms(2) by (simp add: esize_def)
  then show w: "eword n = rword n" by (simp add: eword_def rword_def)
  show "rword n < 2 ^ 23" using eword_bound [of n] w by simp
qed

lemma unat_push_bit_u64: "unat (push_bit k (w :: u64)) = (unat w * 2 ^ k) mod 2 ^ 64"
proof -
  have "unat (push_bit k w) = take_bit LENGTH(64) (push_bit k (unat w))" by (rule unsigned_push_bit_eq)
  also have "\<dots> = (unat w * 2 ^ k) mod 2 ^ 64" by (simp add: take_bit_eq_mod push_bit_eq_mult)
  finally show ?thesis .
qed

lemma unat_push_bit_u32: "unat (push_bit k (w :: u32)) = (unat w * 2 ^ k) mod 2 ^ 32"
proof -
  have "unat (push_bit k w) = take_bit LENGTH(32) (push_bit k (unat w))" by (rule unsigned_push_bit_eq)
  also have "\<dots> = (unat w * 2 ^ k) mod 2 ^ 32" by (simp add: take_bit_eq_mod push_bit_eq_mult)
  finally show ?thesis .
qed

text \<open>What GetCompact computes: no assertion fails, and the field holds the chosen size and mantissa.\<close>

lemma unat_nCompact:
  assumes "length a = 8"
  shows "unat (if rsize (val a) \<le> 3 then ucast (push_bit (8 * (3 - rsize (val a))) (GetLow64 a))
      else ucast (GetLow64 (shr a (8 * (rsize (val a) - 3)))) :: u32) = rword (val a)"
proof -
  let ?n = "val a" and ?s = "rsize (val a)"
  have u: "unat (ucast w :: u32) = unat w mod 2 ^ 32" for w :: u64
    by (simp add: unsigned_ucast_eq take_bit_eq_mod)
  have "rword ?n < 2 ^ 32" using rword_bound [of ?n] by simp
  then have b: "rword ?n mod 2 ^ 32 = rword ?n" by simp
  show ?thesis
  proof (cases "?s \<le> 3")
    case True
    have "unat (push_bit (8 * (3 - ?s)) (GetLow64 a)) = (?n * 2 ^ (8 * (3 - ?s))) mod 2 ^ 64"
      using assms by (simp only: unat_push_bit_u64 unat_GetLow64 mod_mult_left_eq)
    with True b show ?thesis by (simp add: u rword_def pow256)
  next
    case False
    have "unat (GetLow64 (shr a (8 * (?s - 3)))) = (?n div 2 ^ (8 * (?s - 3))) mod 2 ^ 64"
      using assms by (simp add: unat_GetLow64 val_shr)
    with False b show ?thesis by (simp add: u rword_def pow256)
  qed
qed

lemma unat_or_disjoint: "a AND b = 0 \<Longrightarrow> unat (a OR b :: u32) = unat a + unat b"
proof -
  assume h: "a AND b = 0"
  have "unat a AND unat b = unat (a AND b)" by (simp only: unsigned_and_eq)
  with h have "unat a AND unat b = 0" by simp
  then show ?thesis by (simp only: unsigned_or_eq disjunctive_add_eq_or)
qed

lemma bit_23_iff:
  assumes "unat (w :: u32) < 2 ^ 24"
  shows "bit w 23 \<longleftrightarrow> 2 ^ 23 \<le> unat w"
proof -
  have "bit w 23 \<longleftrightarrow> bit (unat w) 23" by simp
  also have "\<dots> \<longleftrightarrow> odd (unat w div 2 ^ 23)" by (rule bit_iff_odd)
  also have "unat w div 2 ^ 23 = (if 2 ^ 23 \<le> unat w then 1 else 0)"
    using assms by (auto intro: div_nat_eqI)
  finally show ?thesis by simp
qed

lemma mask23_clear:
  assumes "unat (w :: u32) < 2 ^ 23"
  shows "w AND NOT 0x007fffff = 0" and "w AND 0x007fffff = w"
proof -
  have "unat w mod 2 ^ 23 = unat w" using assms by simp
  then have "unat (w AND mask 23) = unat w" by (simp only: unat_and_mask)
  moreover have m: "(0x007fffff :: u32) = mask 23" by (simp add: mask_eq_exp_minus_1)
  ultimately show e: "w AND 0x007fffff = w" unfolding m word_unat_eq_iff by blast
  have "(w AND x) AND NOT x = 0" for x
    by (rule bit_eqI) (simp add: bit_and_iff bit_not_iff)
  from this [of "0x007fffff"] show "w AND NOT 0x007fffff = 0" unfolding e .
qed

lemma compact_pack:
  assumes "unat (w :: u32) < 2 ^ 23" and "k < 256"
  shows "unat (w OR push_bit 24 (of_nat k)) = unat w + 2 ^ 24 * k"
proof -
  have "\<not> bit w n" if "24 \<le> n" for n
  proof
    assume "bit w n"
    then have "2 ^ n \<le> unat w" by (intro bit_nat_bound) simp
    moreover have "(2 :: nat) ^ 24 \<le> 2 ^ n" using that by (rule power_increasing) simp
    ultimately show False using assms(1) by simp
  qed
  then have "w AND push_bit 24 (of_nat k) = 0"
    by (intro bit_eqI) (auto simp: bit_and_iff bit_push_bit_iff)
  moreover have "unat (push_bit 24 (of_nat k) :: u32) = 2 ^ 24 * k"
    using assms(2) unfolding unat_push_bit_u32 by (simp add: unat_of_nat)
  ultimately show ?thesis by (simp only: unat_or_disjoint)
qed

lemma esize_le:
  assumes "n < 2 ^ 256"
  shows "esize n \<le> 33"
proof -
  have "bit_len n \<le> 256" using assms by (rule bit_len_le)
  then have "bit_len n div 8 \<le> 256 div 8" by (rule div_le_mono)
  then show ?thesis by (simp add: esize_def)
qed

lemma GetCompact_val:
  assumes "length a = 8"
  shows "\<exists>c. GetCompact a False = Some c \<and> unat c = eword (val a) + 2 ^ 24 * esize (val a)"
proof -
  let ?n = "val a"
  let ?w = "(if rsize ?n \<le> 3 then ucast (push_bit (8 * (3 - rsize ?n)) (GetLow64 a))
      else ucast (GetLow64 (shr a (8 * (rsize ?n - 3)))) :: u32)"
  let ?p = "(if ?w AND 0x00800000 \<noteq> 0 then (drop_bit 8 ?w, rsize ?n + 1) else (?w, rsize ?n))"
  have w: "unat ?w = rword ?n" by (rule unat_nCompact [OF assms])
  have e23: "(0x00800000 :: u32) = 2 ^ 23" by simp
  have "?w AND 0x00800000 \<noteq> 0 \<longleftrightarrow> bit ?w 23"
    unfolding e23 and_exp_eq_0_iff_not_bit by simp
  also have "\<dots> \<longleftrightarrow> 2 ^ 23 \<le> rword ?n"
    using bit_23_iff [of ?w] rword_bound [of ?n] unfolding w by blast
  finally have b: "?w AND 0x00800000 \<noteq> 0 \<longleftrightarrow> 2 ^ 23 \<le> rword ?n" .
  have d: "unat (drop_bit 8 ?w) = rword ?n div 256"
    unfolding unat_drop_bit_eq w by (simp add: drop_bit_eq_div)
  have p: "unat (fst ?p) = eword ?n \<and> snd ?p = esize ?n"
  proof (cases "?n = 0")
    case True
    then show ?thesis using b w by (simp add: rword_def eword_def esize_def rsize_def bit_len.simps)
  next
    case False
    then consider "bit_len ?n = 8 * rsize ?n" | "bit_len ?n < 8 * rsize ?n"
      using rsize_bounds(1) [of ?n] by linarith
    then show ?thesis
    proof cases
      case 1
      with rword_large [OF 1] False b d show ?thesis by simp
    next
      case 2
      with rword_small [OF 2] False b w show ?thesis by simp
    qed
  qed
  have n: "?n < 2 ^ 256" using val_bound [of a] assms by simp
  have k: "esize ?n < 256" using esize_le [OF n] by simp
  obtain v where v: "?p = (v, esize ?n)" "unat v = eword ?n" using p by (cases ?p) auto
  have vb: "unat v < 2 ^ 23" using v eword_bound by simp
  have "GetCompact a False = Some (v OR push_bit 24 (of_nat (esize ?n)))"
    unfolding GetCompact_def bits_val rsize_def [symmetric] Let_def v(1)
    using k mask23_clear [OF vb] by simp
  then show ?thesis using compact_pack [OF vb k] v(2) by simp
qed

section \<open>Round trips\<close>

text \<open>The value that is left of \<open>n\<close> when it is encoded.\<close>

definition cround :: "nat \<Rightarrow> nat" where
  "cround n = n div 256 ^ (esize n - 3) * 256 ^ (esize n - 3)"

lemma cround_le: "cround n \<le> n"
  by (simp add: cround_def)

lemma csize_cword_pack:
  assumes "unat c = w + 2 ^ 24 * k" and "w < 2 ^ 23"
  shows "csize c = k" and "cword c = w" and "\<not> bit c 23"
proof -
  show "csize c = k" using assms by (simp add: csize_def)
  have e: "unat c = w + 2 ^ 23 * (2 * k)" using assms(1) by simp
  have md: "(w + 2 ^ 23 * j) mod 2 ^ 23 = w" "(w + 2 ^ 23 * j) div 2 ^ 23 = j" for j using assms(2) by simp_all
  show "cword c = w" unfolding cword_def e by (rule md)
  have "bit c 23 \<longleftrightarrow> odd (unat c div 2 ^ 23)" using bit_iff_odd [of "unat c" 23] by simp
  also have "unat c div 2 ^ 23 = 2 * k" unfolding e by (rule md)
  finally show "\<not> bit c 23" by simp
qed

lemma cval_encode:
  assumes "unat c = eword n + 2 ^ 24 * esize n"
  shows "cval c = cround n"
proof -
  have "csize c = esize n" "cword c = eword n"
    using csize_cword_pack [OF assms eword_bound] by auto
  then show ?thesis by (auto simp: cval_def cround_def eword_def)
qed

lemma GetCompact_Some:
  assumes "length a = 8"
  obtains c where "GetCompact a False = Some c" and "unat c = eword (val a) + 2 ^ 24 * esize (val a)"
  using GetCompact_val [OF assms] by blast

text \<open>Decoding what was encoded: the rounded value, without a sign and without an overflow.\<close>

lemma SetCompact_GetCompact:
  assumes "length a = 8" and "GetCompact a False = Some c"
  shows "val (fst (SetCompact c)) = cround (val a)" and "snd (SetCompact c) = (False, False)"
proof -
  have c: "unat c = eword (val a) + 2 ^ 24 * esize (val a)" using GetCompact_val [OF assms(1)] assms(2) by auto
  have v: "cval c = cround (val a)" by (rule cval_encode [OF c])
  have "cround (val a) < 2 ^ 256" using cround_le [of "val a"] val_bound [of a] assms(1) by simp
  with v show "val (fst (SetCompact c)) = cround (val a)" by (simp add: val_SetCompact)
  show "snd (SetCompact c) = (False, False)"
    using \<open>cround (val a) < 2 ^ 256\<close> v csize_cword_pack(3) [OF c eword_bound]
    by (intro prod_eqI) (simp_all add: SetCompact_negative SetCompact_overflow)
qed

text \<open>The loss is less than one part in \<open>2 ^ 15\<close>.\<close>

lemma cround_close: "(n - cround n) * 2 ^ 15 \<le> n"
proof (cases "esize n \<le> 3")
  case True
  then show ?thesis by (simp add: cround_def)
next
  case False
  let ?k = "esize n - 3"
  have "n - cround n = n mod 256 ^ ?k" by (simp add: cround_def minus_div_mult_eq_mod)
  also have "\<dots> \<le> 256 ^ ?k" by simp
  finally have "(n - cround n) * 2 ^ 15 \<le> 2 ^ (8 * ?k) * 2 ^ 15" by (simp add: pow256)
  also have "\<dots> = 2 ^ (8 * ?k + 15)" by (simp only: power_add)
  also have "8 * ?k + 15 = 8 * esize n - 9" using False by linarith
  also have "2 ^ (8 * esize n - 9) \<le> n" using False by (intro esize_bounds) (auto simp: esize_def intro: ccontr)
  finally show ?thesis .
qed

lemma bit_len_mono: "m \<le> n \<Longrightarrow> bit_len m \<le> bit_len n"
  using bit_len_mono_less [of n m] by fastforce

lemma cround_mono: assumes "m \<le> n" shows "cround m \<le> cround n"
proof (cases "esize m = esize n")
  case True
  then show ?thesis using assms by (simp add: cround_def div_le_mono)
next
  case False
  show ?thesis
  proof (cases "m = 0")
    case True
    then show ?thesis by (simp add: cround_def)
  next
    case m: False
    have "esize m \<le> esize n" using assms m bit_len_mono [OF assms] by (auto simp: esize_def div_le_mono)
    with False have lt: "esize m < esize n" by simp
    let ?k = "esize n - 3"
    have n: "2 ^ (8 * esize n - 9) \<le> n" using assms m by (intro esize_bounds) simp
    have "m < 2 ^ (8 * esize m - 1)" using m by (intro esize_bounds) simp
    also have "\<dots> \<le> 2 ^ (8 * esize n - 9)" using lt by (intro power_increasing) auto
    finally have mb: "m < 2 ^ (8 * esize n - 9)" .
    show ?thesis
    proof (cases "esize n \<le> 3")
      case True
      then have "cround n = n" by (simp add: cround_def)
      then show ?thesis using cround_le [of m] assms by linarith
    next
      case False
      then have sp: "8 * esize n - 9 = 15 + 8 * ?k" by linarith
      have "2 ^ 15 \<le> n div 256 ^ ?k"
        using n unfolding sp power_add by (simp add: less_eq_div_iff_mult_less_eq pow256)
      then have "2 ^ 15 * 256 ^ ?k \<le> cround n" unfolding cround_def by (rule mult_le_mono1)
      then have "2 ^ (8 * esize n - 9) \<le> cround n" unfolding sp power_add pow256 .
      with mb cround_le [of m] show ?thesis by linarith
    qed
  qed
qed

text \<open>A positive value does not round to zero.\<close>

lemma cround_pos: "0 < n \<Longrightarrow> 0 < cround n"
  using cround_mono [of 1 n] bit_len_unique [of 0 1] by (simp add: cround_def [of "Suc 0"] esize_def)

text \<open>
  Canonical fields: a mantissa of 16 to 23 bits and a size of at least three bytes, not too large for
  256 bits.
\<close>

definition canonical :: "u32 \<Rightarrow> bool" where
  "canonical c \<longleftrightarrow> 3 \<le> csize c \<and> 2 ^ 15 \<le> cword c \<and> \<not> bit c 23 \<and> cval c < 2 ^ 256"

lemma canonical_unat: "\<not> bit c 23 \<Longrightarrow> unat c = cword c + 2 ^ 24 * csize c"
proof -
  assume "\<not> bit c 23"
  then have "even (unat c div 2 ^ 23)" using bit_iff_odd [of "unat c" 23] by simp
  then have "unat c div 2 ^ 23 = 2 * (unat c div 2 ^ 23 div 2)" by simp
  also have "unat c div 2 ^ 23 div 2 = csize c" by (simp add: csize_def flip: div_mult2_eq)
  finally have "2 ^ 23 * (unat c div 2 ^ 23) = 2 ^ 24 * csize c" by simp
  then show ?thesis using mod_mult_div_eq [of "unat c" "2 ^ 23"] by (simp add: cword_def)
qed

lemma canonical_encode:
  assumes "canonical c"
  shows "esize (cval c) = csize c" and "eword (cval c) = cword c"
proof -
  let ?k = "csize c - 3"
  have v: "cval c = cword c * 2 ^ (8 * ?k)" and w: "2 ^ 15 \<le> cword c" "cword c < 2 ^ 23" and s: "3 \<le> csize c"
    using assms cword_bound [of c] by (auto simp: canonical_def cval_def pow256)
  have "bit_len (cword c) \<ge> 16" using bit_len_mono [OF w(1)] bit_len_unique [of 15 "2 ^ 15"] by simp
  moreover have "bit_len (cword c) \<le> 23" using w(2) by (rule bit_len_le)
  moreover have "bit_len (cval c) = bit_len (cword c) + 8 * ?k"
  proof -
    let ?b = "bit_len (cword c)"
    have b: "2 ^ (?b - 1) \<le> cword c" "cword c < 2 ^ ?b" using bit_len_bounds [of "cword c"] w by auto
    have "2 ^ (?b - 1 + 8 * ?k) \<le> cval c" unfolding v power_add using b(1) by (rule mult_le_mono1)
    moreover have "cval c < 2 ^ Suc (?b - 1 + 8 * ?k)"
      using b(2) \<open>?b \<ge> 16\<close> unfolding v by (simp flip: power_Suc add: power_add)
    ultimately have "bit_len (cval c) = Suc (?b - 1 + 8 * ?k)" by (rule bit_len_unique)
    with \<open>?b \<ge> 16\<close> show ?thesis by simp
  qed
  ultimately have "bit_len (cval c) div 8 = 2 + ?k" by linarith
  moreover have "cval c \<noteq> 0" using v w by simp
  ultimately show e: "esize (cval c) = csize c" using s by (simp add: esize_def)
  show "eword (cval c) = cword c" using e s v by (auto simp: eword_def pow256)
qed

lemma GetCompact_SetCompact:
  assumes "canonical c"
  shows "GetCompact (fst (SetCompact c)) False = Some c"
proof -
  have v: "val (fst (SetCompact c)) = cval c" using assms by (simp add: val_SetCompact canonical_def)
  obtain d where d: "GetCompact (fst (SetCompact c)) False = Some d" and "unat d = eword (cval c) + 2 ^ 24 * esize (cval c)"
    using GetCompact_Some [of "fst (SetCompact c)"] v by auto
  then have "unat d = unat c"
    using canonical_encode [OF assms] canonical_unat [of c] assms by (simp add: canonical_def)
  with d show ?thesis by (simp add: word_unat_eq_iff)
qed

end
