(* ===== verification/Asert.thy ===== *)
theory Asert
  imports Cpp_Int Compact
begin

text \<open>
  The difficulty schedule ASERT of \<^verbatim>\<open>src/pow.cpp\<close>: \<open>CalculateASERT\<close> over the limbs of
  \<open>arith_uint512\<close>, with every signed operation checked for overflow and every \<open>assert\<close> a branch.
  The lemmas show that it computes, for all times and heights the code does not saturate, the
  rounded and clamped value of \<open>refTarget * 2 ^ (delta / halflife)\<close> with the cubic approximation of
  the fractional power, that it never fails on legal inputs, and that it is monotone in time.
\<close>

type_synonym u16 = "16 word"

section \<open>The calculation\<close>

text \<open>
  The block that computes \<open>time_delta\<close>: \<open>overflow_high\<close>, \<open>overflow_low\<close> and the difference.
\<close>

definition asert_delta :: "int \<Rightarrow> int \<Rightarrow> int \<Rightarrow> (bool \<times> bool \<times> int) option" where
  "asert_delta nPowTargetSpacing nTimeDiff nHeightDiff = do {
     h1 \<leftarrow> i64 (nHeightDiff + 1);
     if nPowTargetSpacing > 0 \<and> h1 > 0 \<and> nPowTargetSpacing > INT64_MAX sdiv h1 then Some (False, True, 0)
     else do {
       ideal \<leftarrow> i64 (nPowTargetSpacing * h1);
       if nTimeDiff \<ge> 0 \<and> nTimeDiff > INT64_MAX + (if ideal < 0 then ideal else 0) then Some (True, False, 0)
       else if nTimeDiff < 0 \<and> ideal > 0 \<and> nTimeDiff < INT64_MIN + ideal then Some (False, True, 0)
       else do { time_delta \<leftarrow> i64 (nTimeDiff - ideal); Some (False, False, time_delta) }
     }
   }"

definition asert_factor :: "u16 \<Rightarrow> u32" where
  "asert_factor frac = (let f = (ucast frac :: u64) in
     ucast (65536 + drop_bit 48 (195766423245049 * f + 971821376 * f * f + 5127 * f * f * f + push_bit 47 1)))"

text \<open>The shift of the scaled target; a left shift that loses bits means the limit.\<close>

definition asert_shift :: "base_uint \<Rightarrow> int \<Rightarrow> base_uint \<Rightarrow> base_uint" where
  "asert_shift nextTarget512 shifts powLimit512 =
     (if shifts > 512 then powLimit512
      else if shifts < -512 then of_u64 16 1
      else if shifts \<le> 0 then shr nextTarget512 (nat (- shifts))
      else let shifted = shl nextTarget512 (nat shifts) in
        if shr shifted (nat shifts) \<noteq> nextTarget512 then powLimit512 else shifted)"

definition CalculateASERT :: "base_uint \<Rightarrow> int \<Rightarrow> int \<Rightarrow> int \<Rightarrow> base_uint \<Rightarrow> int \<Rightarrow> base_uint option" where
  "CalculateASERT refTarget nPowTargetSpacing nTimeDiff nHeightDiff powLimit nHalfLife = do {
     assertion (CompareTo refTarget (of_u64 8 0) > 0 \<and> CompareTo refTarget powLimit \<le> 0);
     assertion (nHeightDiff \<ge> 0);
     let max_mul = INT64_MAX sdiv 65536;
     (overflow_high, overflow_low, time_delta) \<leftarrow> asert_delta nPowTargetSpacing nTimeDiff nHeightDiff;
     let powLimit512 = from_width 16 powLimit;
     nextTarget512 \<leftarrow>
       (if overflow_high \<or> time_delta > max_mul then Some powLimit512
        else if overflow_low \<or> time_delta < - max_mul then Some (of_u64 16 1)
        else do {
          prod \<leftarrow> i64 (time_delta * 65536);
          assertion (nHalfLife \<noteq> 0);
          exponent \<leftarrow> i64 (prod sdiv nHalfLife);
          let shifts = drop_bit 16 exponent;
          let frac = (word_of_int exponent :: u16);
          assertion (exponent = shifts * 65536 + uint frac);
          let factor = asert_factor frac;
          Some (asert_shift (mul32 (from_width 16 refTarget) factor) (shifts - 16) powLimit512)
        });
     let nextTarget512 = (if CompareTo nextTarget512 powLimit512 > 0 then powLimit512 else nextTarget512);
     let nextTarget = from_width 8 nextTarget512;
     Some (if EqualTo nextTarget 0 then of_u64 8 1
           else if CompareTo nextTarget powLimit > 0 then powLimit else nextTarget)
   }"

section \<open>The specification\<close>

definition factor_spec :: "nat \<Rightarrow> nat" where
  "factor_spec f = 65536 + (195766423245049 * f + 971821376 * f ^ 2 + 5127 * f ^ 3 + 2 ^ 47) div 2 ^ 48"

text \<open>The target scaled by an exponent in units of 1/65536, rounded down.\<close>

definition scaled :: "nat \<Rightarrow> int \<Rightarrow> nat" where
  "scaled T e = (let s = e div 65536 - 16; p = T * factor_spec (nat (e mod 65536)) in
     if s \<le> 0 then p div 2 ^ nat (- s) else p * 2 ^ nat s)"

definition clamp :: "nat \<Rightarrow> nat \<Rightarrow> nat" where
  "clamp limit v = (if min v limit = 0 then 1 else min v limit)"

definition asert_exp :: "int \<Rightarrow> int \<Rightarrow> int" where
  "asert_exp delta halflife = (65536 * delta) sdiv halflife"

text \<open>What \<open>CalculateASERT\<close> computes: saturated beyond \<open>2^47\<close> seconds, scaled and clamped within.\<close>

definition asert_spec :: "nat \<Rightarrow> nat \<Rightarrow> int \<Rightarrow> int \<Rightarrow> nat" where
  "asert_spec T limit delta halflife =
     (if delta > 140737488355327 then limit
      else if delta < -140737488355327 then 1
      else clamp limit (scaled T (asert_exp delta halflife)))"

section \<open>The factor\<close>

lemma factor_sum_bound:
  assumes "f < 65536"
  shows "195766423245049 * f + 971821376 * f ^ 2 + 5127 * f ^ 3 + 2 ^ 47 < (2 :: nat) ^ 64"
proof -
  have "f \<le> 65535" using assms by simp
  moreover from this have "f ^ 2 \<le> 65535 ^ 2" "f ^ 3 \<le> 65535 ^ 3" by (rule power_mono; simp)+
  ultimately show ?thesis by simp
qed

lemma factor_spec_bounds:
  assumes "f < 65536"
  shows "65536 \<le> factor_spec f" and "factor_spec f < 131072"
proof -
  show "65536 \<le> factor_spec f" by (simp add: factor_spec_def)
  have "(195766423245049 * f + 971821376 * f ^ 2 + 5127 * f ^ 3 + 2 ^ 47) div 2 ^ 48 < 65536"
    using factor_sum_bound [OF assms] by (simp add: less_mult_imp_div_less)
  then show "factor_spec f < 131072" by (simp add: factor_spec_def)
qed

lemma factor_spec_mono: "f \<le> g \<Longrightarrow> factor_spec f \<le> factor_spec g"
proof -
  assume "f \<le> g"
  then have "f ^ 2 \<le> g ^ 2" "f ^ 3 \<le> g ^ 3" by (rule power_mono; simp)+
  with \<open>f \<le> g\<close> show ?thesis unfolding factor_spec_def by (intro add_left_mono div_le_mono) linarith
qed

lemma unat_asert_factor: "unat (asert_factor frac) = factor_spec (unat frac)"
proof -
  let ?f = "ucast frac :: u64"
  let ?n = "unat frac"
  let ?e = "195766423245049 * ?f + 971821376 * ?f * ?f + 5127 * ?f * ?f * ?f + push_bit 47 1"
  let ?s = "195766423245049 * ?n + 971821376 * ?n ^ 2 + 5127 * ?n ^ 3 + 2 ^ 47"
  have n: "?n < 65536" using unsigned_less [of frac] by simp
  have f: "?f = word_of_nat ?n" by (simp add: unsigned_ucast_eq word_unat_eq_iff take_bit_eq_mod)
  have "?e = word_of_nat ?s" unfolding f by (simp add: power2_eq_square power3_eq_cube mult.assoc)
  then have e: "unat ?e = ?s" using factor_sum_bound [OF n] by (simp only: unat_of_nat) simp
  have "unat (drop_bit 48 ?e) = ?s div 2 ^ 48" unfolding unat_drop_bit_eq e by (rule drop_bit_eq_div)
  then have "drop_bit 48 ?e = word_of_nat (?s div 2 ^ 48)" by (metis of_nat_unat ucast_id)
  then have "65536 + drop_bit 48 ?e = word_of_nat (factor_spec ?n)" by (simp only: factor_spec_def of_nat_add of_nat_numeral)
  then have "asert_factor frac = ucast (word_of_nat (factor_spec ?n) :: u64)"
    by (simp only: asert_factor_def Let_def)
  moreover have "factor_spec ?n < 2 ^ 17" using factor_spec_bounds(2) [OF n] by simp
  ultimately show ?thesis by (simp add: unsigned_ucast_eq unat_of_nat take_bit_eq_mod)
qed

section \<open>The shift and the clamp\<close>

lemma asert_shift_val:
  assumes N: "length N = 16" "0 < val N" and L: "length P = 16" "val P < 2 ^ 256"
  shows "length (asert_shift N s P) = 16"
    and "clamp (val P) (val (asert_shift N s P)) =
      clamp (val P) (if s \<le> 0 then val N div 2 ^ nat (- s) else val N * 2 ^ nat s)"
proof -
  show "length (asert_shift N s P) = 16" using N L by (simp add: asert_shift_def Let_def)
  have big: "clamp (val P) (val P) = clamp (val P) v" if "2 ^ 256 \<le> v" for v using that L(2) by (simp add: clamp_def)
  have N512: "val N < 2 ^ 512" using val_bound [of N] N by simp
  consider "s > 512" | "s < - 512" | "- 512 \<le> s" "s \<le> 0" | "0 < s" "s \<le> 512" by linarith
  then show "clamp (val P) (val (asert_shift N s P)) =
      clamp (val P) (if s \<le> 0 then val N div 2 ^ nat (- s) else val N * 2 ^ nat s)"
  proof cases
    case 1
    have "(2 :: nat) ^ 256 \<le> 2 ^ nat s" using 1 by (intro power_increasing) auto
    also have "\<dots> \<le> val N * 2 ^ nat s" using N(2) by simp
    finally show ?thesis using 1 big by (simp add: asert_shift_def)
  next
    case 2
    have "(2 :: nat) ^ 512 \<le> 2 ^ nat (- s)" using 2 by (intro power_increasing) auto
    then have "val N div 2 ^ nat (- s) = 0" using N512 by (meson div_less less_le_trans)
    moreover have "val (of_u64 16 1) = 1" by (simp add: val_of_u64)
    ultimately show ?thesis using 2 by (simp add: asert_shift_def clamp_def)
  next
    case 3
    then show ?thesis by (simp add: asert_shift_def val_shr)
  next
    case 4
    let ?k = "nat s"
    let ?sh = "shl N ?k"
    have sh: "val ?sh = (val N * 2 ^ ?k) mod 2 ^ 512" using N by (simp add: val_shl)
    show ?thesis
    proof (cases "shr ?sh ?k = N")
      case True
      then have "val N = val ?sh div 2 ^ ?k" using val_shr [of ?sh ?k] by simp
      then have "val N * 2 ^ ?k \<le> val ?sh" by simp
      moreover have "val ?sh \<le> val N * 2 ^ ?k" unfolding sh by (rule mod_less_eq_dividend)
      ultimately show ?thesis using 4 True by (simp add: asert_shift_def Let_def)
    next
      case False
      have "\<not> val N * 2 ^ ?k < 2 ^ 512"
      proof
        assume "val N * 2 ^ ?k < 2 ^ 512"
        then have "val (shr ?sh ?k) = val N" by (simp add: val_shr sh)
        with False N show False using val_inj [of "shr ?sh ?k" N] by simp
      qed
      moreover have "(2 :: nat) ^ 256 \<le> 2 ^ 512" by (rule power_increasing) simp_all
      ultimately have "2 ^ 256 \<le> val N * 2 ^ ?k" by linarith
      from big [OF this] show ?thesis using 4 False by (simp add: asert_shift_def Let_def)
    qed
  qed
qed

text \<open>The last steps of the function.\<close>

lemma asert_clamp_val:
  assumes "length N = 16" and "length L = 8" and "0 < val L"
  defines "t \<equiv> from_width 8 (if CompareTo N (from_width 16 L) > 0 then from_width 16 L else N)"
  shows "val (if EqualTo t 0 then of_u64 8 1 else if CompareTo t L > 0 then L else t) = clamp (val L) (val N)"
    and "length (if EqualTo t 0 then of_u64 8 1 else if CompareTo t L > 0 then L else t) = 8"
proof -
  have L: "val L < 2 ^ 256" using val_bound [of L] assms(2) by simp
  have "(2 :: nat) ^ 256 \<le> 2 ^ 512" by (rule power_increasing) simp_all
  with L have "val L < 2 ^ 512" by linarith
  then have v: "val (from_width 16 L) = val L" by (simp add: val_from_width)
  have t: "length t = 8" "val t = min (val N) (val L)"
    using L assms(1) by (auto simp: t_def val_from_width v not_less min_def split: if_splits)
  show "length (if EqualTo t 0 then of_u64 8 1 else if CompareTo t L > 0 then L else t) = 8" using t assms(2) by simp
  have "EqualTo t 0 \<longleftrightarrow> val t = 0" using t(1) by (simp add: EqualTo_val)
  then show "val (if EqualTo t 0 then of_u64 8 1 else if CompareTo t L > 0 then L else t) = clamp (val L) (val N)"
    using t assms(2) by (auto simp: clamp_def val_of_u64)
qed

section \<open>The whole calculation\<close>

text \<open>The inputs the code is called with.\<close>

definition asert_inputs :: "base_uint \<Rightarrow> int \<Rightarrow> int \<Rightarrow> int \<Rightarrow> base_uint \<Rightarrow> int \<Rightarrow> bool" where
  "asert_inputs T spacing td ht L hl \<longleftrightarrow> length T = 8 \<and> length L = 8 \<and> 0 < val T \<and> val T \<le> val L \<and>
     0 \<le> spacing \<and> spacing \<le> INT64_MAX \<and> INT64_MIN \<le> td \<and> td \<le> INT64_MAX div 2 \<and>
     0 \<le> ht \<and> ht < INT64_MAX \<and> 0 < hl \<and> hl \<le> INT64_MAX"

lemma asert_delta_cases:
  assumes "0 \<le> spacing" "spacing \<le> INT64_MAX" "INT64_MIN \<le> td" "td \<le> INT64_MAX div 2" "0 \<le> ht" "ht < INT64_MAX"
  defines "d \<equiv> td - spacing * (ht + 1)"
  shows "asert_delta spacing td ht = Some (False, False, d) \<or>
    (asert_delta spacing td ht = Some (False, True, 0) \<and> d < -140737488355327)"
proof -
  let ?ideal = "spacing * (ht + 1)"
  have h: "i64 (ht + 1) = Some (ht + 1)" using assms by (simp add: int_limits)
  have q: "INT64_MAX sdiv (ht + 1) = INT64_MAX div (ht + 1)" using assms by (intro sdiv_nonneg) (simp_all add: int_limits)
  have gt: "spacing > INT64_MAX div (ht + 1) \<longleftrightarrow> ?ideal > INT64_MAX"
    using le_zdiv_iff [of "ht + 1" spacing INT64_MAX] assms(5) by (simp add: not_le [symmetric])
  have nn: "0 \<le> ?ideal" using assms by simp
  show ?thesis
  proof (cases "?ideal > INT64_MAX")
    case True
    then have "spacing > 0" "ht + 1 > 0" using assms nn by (auto simp: int_limits intro: ccontr)
    then have "asert_delta spacing td ht = Some (False, True, 0)"
      using True h q gt by (simp add: asert_delta_def)
    moreover have "d < -140737488355327" using True assms(4) by (simp add: d_def int_limits)
    ultimately show ?thesis by simp
  next
    case False
    have a: "asert_delta spacing td ht = (if td < 0 \<and> ?ideal > 0 \<and> td < INT64_MIN + ?ideal then Some (False, True, 0)
        else i64 d \<bind> (\<lambda>x. Some (False, False, x)))"
      using False h q gt nn assms(3,4) unfolding asert_delta_def by (auto simp: int_limits d_def)
    show ?thesis
    proof (cases "td < 0 \<and> ?ideal > 0 \<and> td < INT64_MIN + ?ideal")
      case True
      then show ?thesis using a by (simp add: d_def int_limits)
    next
      case F: False
      then have "INT64_MIN \<le> d" "d \<le> INT64_MAX"
        using assms(3,4) nn False by (auto simp: d_def int_limits)
      then show ?thesis using a F by simp
    qed
  qed
qed

lemma asert_run:
  fixes d :: int
  assumes "-140737488355327 \<le> d" "d \<le> 140737488355327" and "0 < hl" "hl \<le> INT64_MAX"
  shows "i64 (d * 65536) = Some (d * 65536)" and "i64 ((d * 65536) sdiv hl) = Some (asert_exp d hl)"
    and "asert_exp d hl = drop_bit 16 (asert_exp d hl) * 65536 + uint (word_of_int (asert_exp d hl) :: u16)"
proof -
  show "i64 (d * 65536) = Some (d * 65536)" using assms by (simp add: int_limits)
  have "\<bar>(d * 65536) sdiv hl\<bar> \<le> \<bar>d * 65536\<bar>" by (rule sdiv_abs_le [OF assms(3)])
  then show "i64 ((d * 65536) sdiv hl) = Some (asert_exp d hl)"
    using assms(1,2) by (simp add: asert_exp_def i64_def int_limits mult.commute) linarith
  show "asert_exp d hl = drop_bit 16 (asert_exp d hl) * 65536 + uint (word_of_int (asert_exp d hl) :: u16)"
    by (simp add: uint_word_of_int drop_bit_eq_div)
qed

lemma asert_scaled:
  fixes e :: int
  assumes "length T = 8" "0 < val T" and "val (from_width 16 T) = val T" and "length P = 16" "val P < 2 ^ 256"
  defines "N \<equiv> asert_shift (mul32 (from_width 16 T) (asert_factor (word_of_int e))) (drop_bit 16 e - 16) P"
  shows "length N = 16" and "clamp (val P) (val N) = clamp (val P) (scaled (val T) e)"
proof -
  let ?f = "factor_spec (nat (e mod 65536))" and ?M = "mul32 (from_width 16 T) (asert_factor (word_of_int e))"
  have em: "0 \<le> e mod 65536" "e mod 65536 < 65536" by simp_all
  then have f: "65536 \<le> ?f" "?f < 131072" using factor_spec_bounds [of "nat (e mod 65536)"] by linarith+
  have "unat (word_of_int e :: u16) = nat (e mod 65536)" by (simp add: unat_eq_nat_uint uint_word_of_int)
  then have F: "unat (asert_factor (word_of_int e)) = ?f" by (simp only: unat_asert_factor)
  have "?f * val T < 131072 * 2 ^ 256"
    using f val_bound [of T] assms(1) by (intro mult_strict_mono) simp_all
  then have "?f * val T < 2 ^ 512" by (simp add: order_less_trans)
  then have M: "val ?M = val T * ?f" using assms(3) F by (simp add: val_mul32 mult.commute)
  have "0 < val ?M" using M f assms(2) by simp
  from asert_shift_val [OF _ this assms(4,5), of "drop_bit 16 e - 16"]
  show "length N = 16" "clamp (val P) (val N) = clamp (val P) (scaled (val T) e)"
    by (simp_all add: N_def scaled_def Let_def M drop_bit_eq_div)
qed

lemma CalculateASERT_val:
  assumes "asert_inputs T spacing td ht L hl"
  shows "\<exists>r. CalculateASERT T spacing td ht L hl = Some r \<and> length r = 8 \<and>
    val r = asert_spec (val T) (val L) (td - spacing * (ht + 1)) hl"
proof -
  let ?d = "td - spacing * (ht + 1)" and ?P = "from_width 16 L"
  have i: "length T = 8" "length L = 8" "0 < val T" "val T \<le> val L" "0 \<le> ht" "0 < hl" "hl \<le> INT64_MAX"
    using assms by (simp_all add: asert_inputs_def)
  have L: "val L < 2 ^ 256" using val_bound [of L] i by simp
  have "(2 :: nat) ^ 256 \<le> 2 ^ 512" by (rule power_increasing) simp_all
  then have w: "val ?P = val L" "val (from_width 16 T) = val T" using L i(4) by (simp_all add: val_from_width)
  have mm: "INT64_MAX sdiv 65536 = 140737488355327" by (simp add: int_limits sdiv_nonneg)
  let ?fin = "\<lambda>N. let N' = (if CompareTo N ?P > 0 then ?P else N); t = from_width 8 N' in
      Some (if EqualTo t 0 then of_u64 8 1 else if CompareTo t L > 0 then L else t)"
  have fin: "\<exists>r. ?fin N = Some r \<and> length r = 8 \<and> val r = clamp (val L) (val N)" if "length N = 16" for N
    using asert_clamp_val [OF that i(2)] i by (simp add: Let_def)
  have as: "CompareTo T (of_u64 8 0) > 0 \<and> CompareTo T L \<le> 0" using i by (simp add: val_of_u64)
  have one: "clamp (val L) (val (of_u64 16 1)) = 1" using i by (simp add: clamp_def val_of_u64)
  have lim: "clamp (val L) (val ?P) = val L" using i w by (simp add: clamp_def)
  from asert_delta_cases [of spacing td ht] assms
  consider "asert_delta spacing td ht = Some (False, False, ?d)"
    | "asert_delta spacing td ht = Some (False, True, 0)" "?d < -140737488355327"
    by (auto simp: asert_inputs_def)
  then show ?thesis
  proof cases
    case 2
    then have "CalculateASERT T spacing td ht L hl = ?fin (of_u64 16 1)"
      using as i(5) by (simp add: CalculateASERT_def mm Let_def)
    then show ?thesis using fin [of "of_u64 16 1"] 2(2) one by (simp add: asert_spec_def)
  next
    case 1
    consider "?d > 140737488355327" | "?d < -140737488355327" | "-140737488355327 \<le> ?d" "?d \<le> 140737488355327" by linarith
    then show ?thesis
    proof cases
      case 1
      then have "CalculateASERT T spacing td ht L hl = ?fin ?P"
        using as i(5) \<open>asert_delta spacing td ht = Some (False, False, ?d)\<close> by (simp add: CalculateASERT_def mm Let_def)
      then show ?thesis using fin [of ?P] 1 lim by (simp add: asert_spec_def)
    next
      case 2
      then have "CalculateASERT T spacing td ht L hl = ?fin (of_u64 16 1)"
        using as i(5) \<open>asert_delta spacing td ht = Some (False, False, ?d)\<close> by (simp add: CalculateASERT_def mm Let_def)
      then show ?thesis using fin [of "of_u64 16 1"] 2 one by (simp add: asert_spec_def)
    next
      case 3
      let ?e = "asert_exp ?d hl" and ?F = "asert_factor (word_of_int (asert_exp ?d hl))"
      let ?N = "asert_shift (mul32 (from_width 16 T) ?F) (drop_bit 16 ?e - 16) ?P"
      have "CalculateASERT T spacing td ht L hl = ?fin ?N"
        using asert_run [OF 3 i(6,7)] as i(5,6) 1 3 by (simp add: CalculateASERT_def mm Let_def)
      moreover have "length ?N = 16" "clamp (val L) (val ?N) = clamp (val L) (scaled (val T) ?e)"
        using asert_scaled [OF i(1,3) w(2), of ?P ?e] w L by simp_all
      ultimately show ?thesis using fin [of ?N] 3 by (simp add: asert_spec_def)
    qed
  qed
qed

section \<open>Monotonicity and half-lives\<close>

definition shifted :: "nat \<Rightarrow> int \<Rightarrow> nat" where
  "shifted p s = (if s \<le> 0 then p div 2 ^ nat (- s) else p * 2 ^ nat s)"

lemma scaled_shifted: "scaled T e = shifted (T * factor_spec (nat (e mod 65536))) (e div 65536 - 16)"
  by (simp add: scaled_def shifted_def Let_def)

lemma shifted_mono: "p \<le> q \<Longrightarrow> shifted p s \<le> shifted q s"
  by (simp add: shifted_def div_le_mono)

lemma shifted_Suc: "shifted p (s + 1) = shifted (2 * p) s"
proof (cases "s < 0")
  case True
  then have "nat (- s) = Suc (nat (- (s + 1)))" by simp
  with True show ?thesis by (simp add: shifted_def)
next
  case False
  then have "nat (s + 1) = Suc (nat s)" by simp
  with False show ?thesis by (simp add: shifted_def)
qed

lemma shifted_add: "shifted p (s + int k) = shifted (2 ^ k * p) s"
proof (induction k arbitrary: p)
  case (Suc k)
  have "shifted p (s + int (Suc k)) = shifted p ((s + int k) + 1)" by (simp add: algebra_simps)
  also have "\<dots> = shifted (2 * p) (s + int k)" by (rule shifted_Suc)
  finally show ?case using Suc by (simp add: mult.assoc mult.left_commute)
qed simp

lemma shifted_double: "2 * shifted p s \<le> shifted (2 * p) s" "shifted (2 * p) s \<le> 2 * shifted p s + 1"
proof -
  let ?m = "(2 :: nat) ^ nat (- s)"
  have "2 * (p div ?m) \<le> 2 * p div ?m"
    using div_mult_mod_eq [of p ?m] by (simp add: less_eq_div_iff_mult_less_eq)
  moreover have "2 * p div ?m < 2 * (p div ?m) + 2"
  proof -
    have "p < (p div ?m + 1) * ?m" using dividend_less_div_times [of ?m p] by simp
    then have "2 * p < (2 * (p div ?m) + 2) * ?m" by (simp add: algebra_simps)
    then show ?thesis by (simp add: div_less_iff_less_mult)
  qed
  ultimately show "2 * shifted p s \<le> shifted (2 * p) s" "shifted (2 * p) s \<le> 2 * shifted p s + 1"
    by (simp_all add: shifted_def)
qed

lemma scaled_mono:
  assumes "e \<le> e'"
  shows "scaled T e \<le> scaled T e'"
proof -
  let ?q = "e div 65536" and ?q' = "e' div 65536"
  let ?f = "factor_spec (nat (e mod 65536))" and ?f' = "factor_spec (nat (e' mod 65536))"
  have q: "?q \<le> ?q'" using assms by (simp add: zdiv_mono1)
  have lt: "nat (x mod 65536) < 65536" for x :: int using pos_mod_bound [of 65536 x] by (simp add: nat_less_iff)
  show ?thesis
  proof (cases "?q = ?q'")
    case True
    then have "e mod 65536 \<le> e' mod 65536"
      using assms div_mult_mod_eq [of e 65536] div_mult_mod_eq [of e' 65536] by linarith
    then have "?f \<le> ?f'" by (intro factor_spec_mono nat_mono)
    then show ?thesis using True by (simp add: scaled_shifted shifted_mono)
  next
    case False
    define k where "k = nat (?q' - ?q)"
    have k: "1 \<le> k" "?q' - 16 = (?q - 16) + int k" using False q by (auto simp: k_def)
    have "?f \<le> 2 * ?f'" using factor_spec_bounds [OF lt [of e]] factor_spec_bounds [OF lt [of e']] by linarith
    also have "\<dots> \<le> 2 ^ k * ?f'" using power_increasing [of 1 k "2 :: nat"] k(1) by (intro mult_le_mono1) simp
    finally have "T * ?f \<le> 2 ^ k * (T * ?f')" by (simp add: mult.left_commute)
    then show ?thesis by (simp add: scaled_shifted k(2) shifted_add shifted_mono)
  qed
qed

lemma scaled_step: "2 * scaled T e \<le> scaled T (e + 65536)" "scaled T (e + 65536) \<le> 2 * scaled T e + 1"
proof -
  let ?p = "T * factor_spec (nat (e mod 65536))" and ?s = "e div 65536 - 16"
  have "(e + 65536) div 65536 - 16 = ?s + 1" by linarith
  then have "scaled T (e + 65536) = shifted (2 * ?p) ?s"
    using shifted_Suc [of ?p ?s] by (simp only: scaled_shifted mod_add_self2)
  then show "2 * scaled T e \<le> scaled T (e + 65536)" "scaled T (e + 65536) \<le> 2 * scaled T e + 1"
    using shifted_double [of ?p ?s] by (simp_all add: scaled_shifted)
qed

lemma scaled_0 [simp]: "scaled T 0 = T"
  by (simp add: scaled_shifted shifted_def factor_spec_def)

lemma clamp_mono: "0 < L \<Longrightarrow> u \<le> v \<Longrightarrow> clamp L u \<le> clamp L v"
  by (auto simp: clamp_def)

lemma clamp_bounds: "0 < L \<Longrightarrow> 0 < clamp L v" "0 < L \<Longrightarrow> clamp L v \<le> L"
  by (auto simp: clamp_def)

lemma asert_exp_mono: "0 < h \<Longrightarrow> d \<le> d' \<Longrightarrow> asert_exp d h \<le> asert_exp d' h"
  by (simp add: asert_exp_def sdiv_mono)

lemma asert_exp_step:
  assumes "0 < h" and "0 \<le> d \<or> d + h \<le> 0"
  shows "asert_exp (d + h) h = asert_exp d h + 65536"
proof -
  have "65536 * (d + h) = 65536 * d + 65536 * h" by simp
  moreover have "(65536 * d + 65536 * h) sdiv h = (65536 * d) sdiv h + 65536"
    using assms by (intro sdiv_add_mult) auto
  ultimately show ?thesis by (simp only: asert_exp_def)
qed

lemma asert_spec_bounds: "0 < L \<Longrightarrow> 0 < asert_spec T L d h" "0 < L \<Longrightarrow> asert_spec T L d h \<le> L"
  using clamp_bounds by (auto simp: asert_spec_def)

lemma asert_spec_mono:
  assumes "0 < L" and "0 < h" and "d \<le> d'"
  shows "asert_spec T L d h \<le> asert_spec T L d' h"
proof -
  have "clamp L (scaled T (asert_exp d h)) \<le> clamp L (scaled T (asert_exp d' h))"
    using assms by (intro clamp_mono scaled_mono asert_exp_mono)
  moreover have "1 \<le> clamp L v" "clamp L v \<le> L" for v using clamp_bounds [OF assms(1)] by (simp_all add: Suc_le_eq)
  ultimately show ?thesis using assms(1,3) by (simp add: asert_spec_def)
qed

lemma asert_spec_step:
  assumes "0 < h" and "0 \<le> d \<or> d + h \<le> 0" and "-140737488355327 \<le> d" and "d + h \<le> 140737488355327"
    and "asert_spec T L d h < L" and "1 < asert_spec T L d h"
  shows "asert_spec T L (d + h) h = min L (2 * asert_spec T L d h) \<or>
    asert_spec T L (d + h) h = min L (2 * asert_spec T L d h + 1)"
proof -
  let ?e = "asert_exp d h"
  have s: "asert_spec T L d h = clamp L (scaled T ?e)" "asert_spec T L (d + h) h = clamp L (scaled T (?e + 65536))"
    using assms by (simp_all add: asert_spec_def asert_exp_step)
  with assms(5,6) have v: "asert_spec T L d h = scaled T ?e" by (auto simp: clamp_def split: if_splits)
  then show ?thesis using scaled_step [of T ?e] assms(5,6) s by (auto simp: clamp_def)
qed

end
