(* ===== verification/Target_Claims.thy ===== *)
theory Target_Claims
  imports Asert
begin

text \<open>
  The properties of the target arithmetic: \<open>base_uint\<close> computes with natural numbers modulo
  \<open>2 ^ (32 * WIDTH)\<close>, the compact encoding is a rounding encoding, and ASERT follows its schedule.
\<close>

text \<open>
  C9: \<open>CalculateASERT\<close> never fails an assertion and never overflows a signed operation on legal
  inputs, and returns the specified target: the reference target times \<open>2 ^ (delta / halflife)\<close> with
  the cubic approximation, rounded down, between 1 and the limit; \<open>delta\<close> is how far the time
  difference is behind \<open>spacing * (heights + 1)\<close>.
\<close>

theorem asert_refines:
  assumes "asert_inputs T spacing td ht L hl"
  shows "\<exists>r. CalculateASERT T spacing td ht L hl = Some r \<and> length r = 8 \<and>
    val r = asert_spec (val T) (val L) (td - spacing * (ht + 1)) hl \<and> 0 < val r \<and> val r \<le> val L"
proof -
  have "0 < val L" using assms by (simp add: asert_inputs_def)
  then show ?thesis using CalculateASERT_val [OF assms] asert_spec_bounds [of "val L"] by auto
qed

definition demo_target :: base_uint where "demo_target = of_u64 8 1000000"
definition demo_limit :: base_uint where "demo_limit = of_u64 8 1000000000"

lemma demo_inputs: "0 \<le> td \<Longrightarrow> td \<le> 345600 \<Longrightarrow> asert_inputs demo_target 600 td 2 demo_limit 172800"
  by (simp add: asert_inputs_def demo_target_def demo_limit_def val_of_u64 int_limits)

theorem asert_refines_witness:
  "asert_inputs demo_target 600 1800 2 demo_limit 172800 \<and>
   (\<exists>r. CalculateASERT demo_target 600 1800 2 demo_limit 172800 = Some r \<and> val r = 1000000)"
  using asert_refines [OF demo_inputs [of 1800]] demo_inputs [of 1800]
  by (auto simp: demo_target_def demo_limit_def val_of_u64 asert_spec_def asert_exp_def clamp_def sdiv_nonneg)

text \<open>
  C10: the schedule. A later block never gets a harder target, and a delay of one more half-life
  doubles the target up to rounding, as long as neither bound is reached.
\<close>

theorem asert_schedule:
  assumes "asert_inputs T spacing td ht L hl" and "asert_inputs T spacing td' ht L hl" and "td \<le> td'"
  shows "\<exists>r r'. CalculateASERT T spacing td ht L hl = Some r \<and> CalculateASERT T spacing td' ht L hl = Some r' \<and>
    val r \<le> val r' \<and>
    (td' = td + hl \<and> (spacing * (ht + 1) \<le> td \<or> td' \<le> spacing * (ht + 1)) \<and>
     -140737488355327 \<le> td - spacing * (ht + 1) \<and> td' - spacing * (ht + 1) \<le> 140737488355327 \<and>
     1 < val r \<and> val r < val L \<longrightarrow>
     val r' = min (val L) (2 * val r) \<or> val r' = min (val L) (2 * val r + 1))"
proof -
  let ?d = "td - spacing * (ht + 1)" and ?d' = "td' - spacing * (ht + 1)"
  have i: "0 < val L" "0 < hl" using assms(1) by (simp_all add: asert_inputs_def)
  obtain r r' where r: "CalculateASERT T spacing td ht L hl = Some r" "val r = asert_spec (val T) (val L) ?d hl"
    "CalculateASERT T spacing td' ht L hl = Some r'" "val r' = asert_spec (val T) (val L) ?d' hl"
    using CalculateASERT_val [OF assms(1)] CalculateASERT_val [OF assms(2)] by auto
  moreover have "val r \<le> val r'" using asert_spec_mono [OF i, of ?d ?d' "val T"] assms(3) r by simp
  moreover have "val r' = min (val L) (2 * val r) \<or> val r' = min (val L) (2 * val r + 1)"
    if "?d' = ?d + hl" "0 \<le> ?d \<or> ?d + hl \<le> 0" "-140737488355327 \<le> ?d" "?d + hl \<le> 140737488355327" "1 < val r" "val r < val L"
    using asert_spec_step [OF i(2) that(2-4), of "val T" "val L"] that(5,6) unfolding r(2,4) that(1) by blast
  ultimately show ?thesis by (intro exI [of _ r] exI [of _ r']) auto
qed

theorem asert_schedule_witness:
  "asert_inputs demo_target 600 1800 2 demo_limit 172800 \<and> asert_inputs demo_target 600 174600 2 demo_limit 172800 \<and>
   (\<exists>r r'. CalculateASERT demo_target 600 1800 2 demo_limit 172800 = Some r \<and>
      CalculateASERT demo_target 600 174600 2 demo_limit 172800 = Some r' \<and> val r \<le> val r')"
  using asert_schedule [OF demo_inputs [of 1800] demo_inputs [of 174600]] demo_inputs [of 1800] demo_inputs [of 174600]
  by auto

text \<open>
  C11: \<open>GetCompact\<close> after \<open>SetCompact\<close> is the identity on every canonical field: a mantissa of 16 to 23
  bits without the sign bit and a value below \<open>2 ^ 256\<close>; \<open>SetCompact\<close> then sets no flag.
\<close>

theorem compact_roundtrip:
  assumes "canonical c"
  shows "GetCompact (fst (SetCompact c)) False = Some c \<and> snd (SetCompact c) = (False, False)"
  using GetCompact_SetCompact [OF assms] SetCompact_GetCompact(2) [of "fst (SetCompact c)" c] by simp

theorem compact_roundtrip_witness:
  "canonical 0x1d00ffff \<and> GetCompact (fst (SetCompact 0x1d00ffff)) False = Some 0x1d00ffff"
proof -
  have "csize 0x1d00ffff = 29" "cword 0x1d00ffff = 65535" by (simp_all add: csize_def cword_def)
  moreover have "\<not> bit (0x1d00ffff :: u32) 23" by (simp add: bit_iff_odd_drop_bit drop_bit_eq_div)
  ultimately have "canonical 0x1d00ffff" by (simp add: canonical_def cval_def)
  then show ?thesis using compact_roundtrip by blast
qed

text \<open>
  C12: \<open>GetCompact\<close> never fails its assertions on a 256-bit target, and what \<open>SetCompact\<close> reads back is
  not larger, is smaller by at most one part in \<open>2 ^ 15\<close>, carries no flag, and is zero only for zero.
\<close>

theorem compact_rounding:
  assumes "length a = 8"
  shows "\<exists>c. GetCompact a False = Some c \<and> snd (SetCompact c) = (False, False) \<and>
    val (fst (SetCompact c)) \<le> val a \<and> (val a - val (fst (SetCompact c))) * 2 ^ 15 \<le> val a \<and>
    (val (fst (SetCompact c)) = 0 \<longleftrightarrow> val a = 0)"
proof -
  obtain c where c: "GetCompact a False = Some c" by (rule GetCompact_Some [OF assms])
  note v = SetCompact_GetCompact [OF assms c]
  have "cround (val a) = 0 \<longleftrightarrow> val a = 0" using cround_pos [of "val a"] cround_le [of "val a"] by (cases "val a = 0") auto
  then show ?thesis using c v cround_le [of "val a"] cround_close [of "val a"] by simp
qed

theorem compact_rounding_witness:
  "length demo_target = 8 \<and> (\<exists>c. GetCompact demo_target False = Some c \<and> snd (SetCompact c) = (False, False) \<and>
    val (fst (SetCompact c)) \<le> 1000000)"
  using compact_rounding [of demo_target] by (auto simp: demo_target_def val_of_u64)

text \<open>
  C13: the limb operations of \<open>base_uint\<close> are the operations on natural numbers: sum, difference and
  product modulo \<open>2 ^ (32 * WIDTH)\<close>, shifts, comparison, and a long division that raises
  \<open>uint_error\<close> exactly for a zero divisor and otherwise returns the quotient.
\<close>

theorem base_uint_refines:
  assumes "length a = length b"
  shows "val (add a b) = (val a + val b) mod 2 ^ (32 * length a) \<and>
    val (sub a b) = (val a + (2 ^ (32 * length a) - val b)) mod 2 ^ (32 * length a) \<and>
    val (mul a b) = (val a * val b) mod 2 ^ (32 * length a) \<and>
    val (shl a s) = (val a * 2 ^ s) mod 2 ^ (32 * length a) \<and> val (shr a s) = val a div 2 ^ s \<and>
    (CompareTo a b < 0 \<longleftrightarrow> val a < val b) \<and> (div_uint a b = None \<longleftrightarrow> val b = 0) \<and>
    (val b \<noteq> 0 \<longrightarrow> (\<exists>q. div_uint a b = Some q \<and> length q = length a \<and> val q = val a div val b))"
  using assms val_sub [OF assms] div_uint_val [OF assms] CompareTo_val [OF assms]
  by (simp add: val_add val_mul val_shl val_shr div_uint_None)

theorem base_uint_refines_witness:
  "length demo_limit = length demo_target \<and> (\<exists>q. div_uint demo_limit demo_target = Some q \<and> val q = 1000)"
  using base_uint_refines [of demo_limit demo_target 0] by (auto simp: demo_limit_def demo_target_def val_of_u64)

end
