(* ===== verification/Serialize.thy ===== *)
theory Serialize
  imports Compact
begin

text \<open>
  The serialization layer of \<^verbatim>\<open>src/serialize.h\<close>: fixed-width integers, CompactSize, VarInt and
  vectors, as writers to byte strings and readers that return the value with the unread rest, or
  the failure the C++ reader throws. The locale \<open>codec\<close> is the contract of a format: what is written
  is read back, and what is read is exactly what would be written. It is proved for every format
  here and for vectors over any element format that has it.
\<close>

datatype ser_error = EndOfData | NonCanonicalSize | SizeTooLarge | VarIntTooLarge | UnrecognizedPrefix
  | RangeproofTooLarge | SuperfluousWitness | UnknownOptionalData

type_synonym 'a reader = "bytes \<Rightarrow> ser_error + 'a \<times> bytes"

section \<open>Fixed-width integers\<close>

text \<open>\<open>s.read\<close> throws when the stream is shorter than the destination.\<close>

definition ser_read :: "nat \<Rightarrow> bytes reader" where
  "ser_read n s = (if length s < n then Inl EndOfData else Inr (take n s, drop n s))"

definition ser_writedata8 :: "byte \<Rightarrow> bytes" where
  "ser_writedata8 obj = [obj]"

definition ser_writedata16 :: "16 word \<Rightarrow> bytes" where
  "ser_writedata16 obj = le_bytes 2 (unat obj)"

definition ser_writedata32 :: "u32 \<Rightarrow> bytes" where
  "ser_writedata32 obj = le_bytes 4 (unat obj)"

definition ser_writedata64 :: "u64 \<Rightarrow> bytes" where
  "ser_writedata64 obj = le_bytes 8 (unat obj)"

definition ser_readdata8 :: "byte reader" where
  "ser_readdata8 s = ebind (ser_read 1 s) (\<lambda>(b, s). Inr (hd b, s))"

definition ser_readdata16 :: "16 word reader" where
  "ser_readdata16 s = ebind (ser_read 2 s) (\<lambda>(b, s). Inr (word_of_nat (le_val b), s))"

definition ser_readdata32 :: "u32 reader" where
  "ser_readdata32 s = ebind (ser_read 4 s) (\<lambda>(b, s). Inr (word_of_nat (le_val b), s))"

definition ser_readdata64 :: "u64 reader" where
  "ser_readdata64 s = ebind (ser_read 8 s) (\<lambda>(b, s). Inr (word_of_nat (le_val b), s))"

section \<open>CompactSize\<close>

definition MAX_SIZE :: u64 where "MAX_SIZE = 0x02000000"

definition GetSizeOfCompactSize :: "u64 \<Rightarrow> nat" where
  "GetSizeOfCompactSize nSize = (if nSize < 253 then 1 else if nSize \<le> 0xffff then 1 + 2
     else if nSize \<le> 0xffffffff then 1 + 4 else 1 + 8)"

definition WriteCompactSize :: "u64 \<Rightarrow> bytes" where
  "WriteCompactSize nSize =
     (if nSize < 253 then ser_writedata8 (ucast nSize)
      else if nSize \<le> 0xffff then ser_writedata8 253 @ ser_writedata16 (ucast nSize)
      else if nSize \<le> 0xffffffff then ser_writedata8 254 @ ser_writedata32 (ucast nSize)
      else ser_writedata8 255 @ ser_writedata64 nSize)"

definition ReadCompactSize :: "bool \<Rightarrow> u64 reader" where
  "ReadCompactSize range_check s = ebind (ser_readdata8 s) (\<lambda>(chSize, s).
     ebind (if chSize < 253 then Inr (ucast chSize, s)
       else if chSize = 253 then ebind (ser_readdata16 s) (\<lambda>(n, s).
         if n < 253 then Inl NonCanonicalSize else Inr (ucast n, s))
       else if chSize = 254 then ebind (ser_readdata32 s) (\<lambda>(n, s).
         if n < 0x10000 then Inl NonCanonicalSize else Inr (ucast n, s))
       else ebind (ser_readdata64 s) (\<lambda>(n, s).
         if n < 0x100000000 then Inl NonCanonicalSize else Inr (n, s)))
     (\<lambda>(nSizeRet, s). if range_check \<and> nSizeRet > MAX_SIZE then Inl SizeTooLarge else Inr (nSizeRet, s)))"

section \<open>VarInt\<close>

text \<open>The bytes \<open>tmp[0]\<close>, \<open>tmp[1]\<close>, ... that \<open>WriteVarInt\<close> collects; \<open>more\<close> is \<open>len > 0\<close>.\<close>

function (sequential) varint_tmp :: "bool \<Rightarrow> u64 \<Rightarrow> bytes" where
  "varint_tmp more n = (ucast (n AND 0x7F) OR (if more then 0x80 else 0x00)) #
     (if n \<le> 0x7F then [] else varint_tmp True (drop_bit 7 n - 1))"
  by pat_completeness auto

lemma unat_varint_step:
  assumes "\<not> n \<le> (0x7F :: u64)"
  shows "unat (drop_bit 7 n - 1) + 1 = unat n div 128"
proof -
  have "127 < unat n" using assms by (simp add: word_le_nat_alt)
  then have "1 \<le> unat n div 128" by linarith
  moreover have "unat (drop_bit 7 n) = unat n div 128" unfolding unat_drop_bit_eq by (simp add: drop_bit_eq_div)
  ultimately show ?thesis by (simp add: unat_sub word_le_nat_alt)
qed

termination varint_tmp
proof (relation "measure (\<lambda>(_, n). unat n)")
  fix n :: u64
  assume "\<not> n \<le> 0x7F"
  from unat_varint_step [OF this] show "((True, drop_bit 7 n - 1), (more, n)) \<in> measure (\<lambda>(_, n). unat n)" for more
    by simp
qed simp

definition WriteVarInt :: "u64 \<Rightarrow> bytes" where
  "WriteVarInt n = rev (varint_tmp False n)"

definition GetSizeOfVarInt :: "u64 \<Rightarrow> nat" where
  "GetSizeOfVarInt n = length (varint_tmp False n)"

fun ReadVarInt_loop :: "u64 \<Rightarrow> u64 reader" where
  "ReadVarInt_loop n [] = Inl EndOfData"
| "ReadVarInt_loop n (chData # is) =
     (if n > drop_bit 7 (- 1) then Inl VarIntTooLarge
      else let n = push_bit 7 n OR ucast (chData AND 0x7F) in
        if chData AND 0x80 \<noteq> 0 then
          (if n = - 1 then Inl VarIntTooLarge else ReadVarInt_loop (n + 1) is)
        else Inr (n, is))"

definition ReadVarInt :: "u64 reader" where
  "ReadVarInt is = ReadVarInt_loop 0 is"

section \<open>Vectors\<close>

definition VectorSer :: "('a \<Rightarrow> bytes) \<Rightarrow> 'a list \<Rightarrow> bytes" where
  "VectorSer Ser v = WriteCompactSize (word_of_nat (length v)) @ concat (map Ser v)"

text \<open>
  The batches of the reader only bound how much memory is reserved ahead of the data; the elements
  are read one after the other.
\<close>

fun read_elems :: "'a reader \<Rightarrow> nat \<Rightarrow> 'a list reader" where
  "read_elems Unser 0 s = Inr ([], s)"
| "read_elems Unser (Suc n) s = ebind (Unser s) (\<lambda>(e, s).
     ebind (read_elems Unser n s) (\<lambda>(v, s). Inr (e # v, s)))"

definition VectorUnser :: "'a reader \<Rightarrow> 'a list reader" where
  "VectorUnser Unser s = ebind (ReadCompactSize True s) (\<lambda>(size, s). read_elems Unser (unat size) s)"

section \<open>The contract of a format\<close>

locale codec =
  fixes enc :: "'a \<Rightarrow> bytes"
    and dec :: "'a reader"
    and ok :: "'a \<Rightarrow> bool"
  assumes dec_enc: "ok x \<Longrightarrow> dec (enc x @ rest) = Inr (x, rest)"
    and enc_dec: "dec s = Inr (x, rest) \<Longrightarrow> ok x \<and> s = enc x @ rest"
begin

lemma dec_iff: "dec s = Inr (x, rest) \<longleftrightarrow> ok x \<and> s = enc x @ rest"
  by (metis dec_enc enc_dec)

text \<open>No written value is a prefix of another one.\<close>

lemma prefix_free:
  assumes "ok x" and "ok y" and "enc x @ r = enc y @ r'"
  shows "x = y \<and> r = r'"
proof -
  have "Inr (x, r) = dec (enc x @ r)" by (rule dec_enc [OF assms(1), symmetric])
  also have "\<dots> = Inr (y, r')" unfolding assms(3) by (rule dec_enc [OF assms(2)])
  finally show ?thesis by simp
qed

lemma read_elems_iff:
  "read_elems dec n s = Inr (v, rest) \<longleftrightarrow> length v = n \<and> list_all ok v \<and> s = concat (map enc v) @ rest"
proof (induction n arbitrary: s v)
  case 0
  then show ?case by (cases "v = []") auto
next
  case (Suc n)
  show ?case
  proof
    assume "read_elems dec (Suc n) s = Inr (v, rest)"
    then obtain e t w where d: "dec s = Inr (e, t)" "read_elems dec n t = Inr (w, rest)" and v: "v = e # w" by auto
    have "ok e" "s = enc e @ t" using enc_dec [OF d(1)] by simp_all
    moreover have "length w = n" "list_all ok w" "t = concat (map enc w) @ rest"
      using Suc.IH [of t w] d(2) by simp_all
    ultimately show "length v = Suc n \<and> list_all ok v \<and> s = concat (map enc v) @ rest" unfolding v by simp
  next
    assume h: "length v = Suc n \<and> list_all ok v \<and> s = concat (map enc v) @ rest"
    then obtain e w where v: "v = e # w" by (cases v) auto
    with h Suc.IH [of "concat (map enc w) @ rest" w] have "read_elems dec n (concat (map enc w) @ rest) = Inr (w, rest)" by simp
    with h show "read_elems dec (Suc n) s = Inr (v, rest)" by (simp add: v dec_enc)
  qed
qed

end

section \<open>Integers satisfy the contract\<close>

lemma ser_read_iff: "ser_read n s = Inr (b, rest) \<longleftrightarrow> length b = n \<and> s = b @ rest"
  by (auto simp: ser_read_def)

lemma le_word_iff:
  assumes "length b = n" and "256 ^ n = (2 :: nat) ^ LENGTH('a)"
  shows "word_of_nat (le_val b) = (x :: 'a :: len word) \<longleftrightarrow> b = le_bytes n (unat x)"
proof
  assume h: "word_of_nat (le_val b) = x"
  have "le_val b < 2 ^ LENGTH('a)" using le_val_bound [of b] assms by simp
  then have "unat x = le_val b" unfolding h [symmetric] by (simp add: unat_of_nat)
  then show "b = le_bytes n (unat x)" using le_bytes_le_val [of b] assms(1) by simp
next
  assume "b = le_bytes n (unat x)"
  then have "le_val b = unat x" using assms(2) unsigned_less [of x] by (simp add: le_val_le_bytes)
  then show "word_of_nat (le_val b) = x" by simp
qed

named_theorems ser_iff \<open>a reader succeeds exactly on what the writer wrote\<close>

lemma ser_readdata8_iff [ser_iff]: "ser_readdata8 s = Inr (x, rest) \<longleftrightarrow> s = ser_writedata8 x @ rest"
  by (cases s) (auto simp: ser_readdata8_def ser_writedata8_def ser_read_def)

lemma ser_readdata16_iff [ser_iff]: "ser_readdata16 s = Inr (x, rest) \<longleftrightarrow> s = ser_writedata16 x @ rest"
proof -
  have "ser_readdata16 s = Inr (x, rest) \<longleftrightarrow> (\<exists>b. length b = 2 \<and> s = b @ rest \<and> word_of_nat (le_val b) = x)"
    by (auto simp: ser_readdata16_def ser_read_iff)
  then show ?thesis using le_word_iff [where 'a = 16 and n = 2 and x = x] by (auto simp: ser_writedata16_def)
qed

lemma ser_readdata32_iff [ser_iff]: "ser_readdata32 s = Inr (x, rest) \<longleftrightarrow> s = ser_writedata32 x @ rest"
proof -
  have "ser_readdata32 s = Inr (x, rest) \<longleftrightarrow> (\<exists>b. length b = 4 \<and> s = b @ rest \<and> word_of_nat (le_val b) = x)"
    by (auto simp: ser_readdata32_def ser_read_iff)
  then show ?thesis using le_word_iff [where 'a = 32 and n = 4 and x = x] by (auto simp: ser_writedata32_def)
qed

lemma ser_readdata64_iff [ser_iff]: "ser_readdata64 s = Inr (x, rest) \<longleftrightarrow> s = ser_writedata64 x @ rest"
proof -
  have "ser_readdata64 s = Inr (x, rest) \<longleftrightarrow> (\<exists>b. length b = 8 \<and> s = b @ rest \<and> word_of_nat (le_val b) = x)"
    by (auto simp: ser_readdata64_def ser_read_iff)
  then show ?thesis using le_word_iff [where 'a = 64 and n = 8 and x = x] by (auto simp: ser_writedata64_def)
qed

text \<open>Widening and narrowing.\<close>

lemma unat_ucast_le [simp]:
  "unat (ucast (n :: byte) :: u64) = unat n" "unat (ucast (m :: 16 word) :: u64) = unat m"
proof -
  have "unat n < 256" "unat m < 65536" using unsigned_less [of n] unsigned_less [of m] by simp_all
  then show "unat (ucast n :: u64) = unat n" "unat (ucast m :: u64) = unat m"
    by (simp_all add: unsigned_ucast_eq take_bit_eq_mod)
qed

lemma unat_narrow:
  "unat (ucast (n :: u64) :: byte) = unat n mod 256" "unat (ucast n :: 16 word) = unat n mod 65536"
  "unat (ucast n :: u32) = unat n mod 4294967296"
  by (simp_all add: unsigned_ucast_eq take_bit_eq_mod)

lemma compact_prefix:
  "\<exists>c t. WriteCompactSize n = c # t"
  by (simp add: WriteCompactSize_def ser_writedata8_def)

lemma ReadCompactSize_Write:
  assumes "range_check \<longrightarrow> n \<le> MAX_SIZE"
  shows "ReadCompactSize range_check (WriteCompactSize n @ rest) = Inr (n, rest)"
proof -
  have r8: "ser_readdata8 (ser_writedata8 c @ t) = Inr (c, t)" for c t by (simp add: ser_readdata8_iff)
  have r16: "ser_readdata16 (ser_writedata16 c @ t) = Inr (c, t)" for c t by (simp add: ser_readdata16_iff)
  have r32: "ser_readdata32 (ser_writedata32 c @ t) = Inr (c, t)" for c t by (simp add: ser_readdata32_iff)
  have r64: "ser_readdata64 (ser_writedata64 c @ t) = Inr (c, t)" for c t by (simp add: ser_readdata64_iff)
  note rs = r8 r16 r32 r64 word_less_nat_alt word_le_nat_alt word_unat_eq_iff unat_narrow
  consider "unat n < 253" | "253 \<le> unat n" "unat n < 65536" | "65536 \<le> unat n" "unat n < 4294967296" | "4294967296 \<le> unat n"
    by linarith
  then show ?thesis
  proof cases
    case 1
    then have "(ucast (ucast n :: byte) :: u64) = n" by (simp add: rs)
    with 1 assms show ?thesis by (auto simp: ReadCompactSize_def WriteCompactSize_def rs)
  next
    case 2
    then have "(ucast (ucast n :: 16 word) :: u64) = n" by (simp add: rs)
    with 2 assms show ?thesis by (auto simp: ReadCompactSize_def WriteCompactSize_def rs)
  next
    case 3
    then have "(ucast (ucast n :: u32) :: u64) = n" by (simp add: rs)
    with 3 assms show ?thesis by (auto simp: ReadCompactSize_def WriteCompactSize_def rs)
  next
    case 4
    with assms show ?thesis by (auto simp: ReadCompactSize_def WriteCompactSize_def rs)
  qed
qed

lemma Write_ReadCompactSize:
  assumes "ReadCompactSize range_check s = Inr (n, rest)"
  shows "range_check \<longrightarrow> n \<le> MAX_SIZE" and "s = WriteCompactSize n @ rest"
proof -
  let ?R = "\<lambda>c t. if c < 253 then Inr (ucast c, t)
       else if c = 253 then ebind (ser_readdata16 t) (\<lambda>(n, s). if n < 253 then Inl NonCanonicalSize else Inr (ucast n, s))
       else if c = 254 then ebind (ser_readdata32 t) (\<lambda>(n, s). if n < 0x10000 then Inl NonCanonicalSize else Inr (ucast n, s))
       else ebind (ser_readdata64 t) (\<lambda>(n, s). if n < 0x100000000 then Inl NonCanonicalSize else Inr (n, s))"
  obtain c t where s: "s = ser_writedata8 c @ t" and r: "?R c t = Inr (n, rest)" and k: "range_check \<longrightarrow> n \<le> MAX_SIZE"
  proof -
    obtain p where p: "ser_readdata8 s = Inr p" "(case p of (c, t) \<Rightarrow> ebind (?R c t) (\<lambda>(m, s).
        if range_check \<and> m > MAX_SIZE then Inl SizeTooLarge else Inr (m, s))) = Inr (n, rest)"
      using assms unfolding ReadCompactSize_def ebind_eq_Inr by blast
    obtain c t where ct: "p = (c, t)" by (cases p)
    obtain q where q: "?R c t = Inr q" "(case q of (m, s) \<Rightarrow>
        if range_check \<and> m > MAX_SIZE then Inl SizeTooLarge else Inr (m, s)) = Inr (n, rest)"
      using p(2) unfolding ct prod.case ebind_eq_Inr by blast
    have "q = (n, rest)" "range_check \<longrightarrow> n \<le> MAX_SIZE" using q(2) by (cases q; auto split: if_splits)+
    with q(1) p(1) ct that show thesis by (simp only: ser_readdata8_iff)
  qed
  then show "range_check \<longrightarrow> n \<le> MAX_SIZE" by simp
  have c: "unat c < 256" using unsigned_less [of c] by simp
  note ws = word_less_nat_alt word_le_nat_alt word_unat_eq_iff unat_narrow
  consider "unat c < 253" | "c = 253" | "c = 254" | "c = 255" using c by (simp add: ws) linarith
  then show "s = WriteCompactSize n @ rest"
  proof cases
    case 1
    then have "n = ucast c" "t = rest" using r by (simp_all add: ws)
    then have "ucast n = c" "unat n = unat c" using c by (simp_all add: ws)
    then show ?thesis using 1 \<open>t = rest\<close> by (simp add: s WriteCompactSize_def word_less_nat_alt)
  next
    case 2
    then obtain m where t: "t = ser_writedata16 m @ rest" and m: "253 \<le> unat m" "n = ucast m"
      using r by (auto simp: ws ser_readdata16_iff split: if_splits)
    have "unat m < 65536" using unsigned_less [of m] by simp
    with m(2) have "ucast n = m" "unat n = unat m" by (simp_all add: ws)
    then show ?thesis using 2 m(1) \<open>unat m < 65536\<close>
      by (simp add: s t WriteCompactSize_def word_less_nat_alt word_le_nat_alt)
  next
    case 3
    then obtain m where t: "t = ser_writedata32 m @ rest" and m: "65536 \<le> unat m" "n = ucast m"
      using r by (auto simp: ws ser_readdata32_iff split: if_splits)
    have "unat m < 4294967296" using unsigned_less [of m] by simp
    with m(2) have "ucast n = m" "unat n = unat m" by (simp_all add: ws)
    then show ?thesis using 3 m(1) \<open>unat m < 4294967296\<close>
      by (simp add: s t WriteCompactSize_def word_less_nat_alt word_le_nat_alt)
  next
    case 4
    then have "t = ser_writedata64 n @ rest" "4294967296 \<le> unat n"
      using r by (auto simp: word_less_nat_alt ser_readdata64_iff split: if_splits)
    then show ?thesis using 4 by (simp add: s WriteCompactSize_def word_less_nat_alt word_le_nat_alt)
  qed
qed

lemma ReadCompactSize_iff [ser_iff]:
  "ReadCompactSize rc s = Inr (n, rest) \<longleftrightarrow> (rc \<longrightarrow> n \<le> MAX_SIZE) \<and> s = WriteCompactSize n @ rest"
  using ReadCompactSize_Write Write_ReadCompactSize by blast

lemma length_WriteCompactSize: "length (WriteCompactSize n) = GetSizeOfCompactSize n"
  by (simp add: WriteCompactSize_def GetSizeOfCompactSize_def ser_writedata8_def ser_writedata16_def
      ser_writedata32_def ser_writedata64_def)

section \<open>VarInt satisfies the contract\<close>

lemma varint_digit:
  assumes "k \<le> drop_bit 7 (- 1 :: u64)"
  shows "drop_bit 7 (push_bit 7 k OR ucast (c AND 0x7F)) = k"
    and "(push_bit 7 k OR ucast (c AND 0x7F)) AND 0x7F = (ucast (c AND 0x7F) :: u64)"
    and "ucast ((push_bit 7 k OR ucast (c AND 0x7F)) AND 0x7F) = (c AND 0x7F :: byte)"
proof -
  have k: "\<not> bit k n" if "57 \<le> n" for n
  proof
    assume "bit k n"
    then have "bit (unat k) n" by (simp add: bit_unsigned_iff bit_imp_le_length)
    then have "2 ^ n \<le> unat k" by (rule bit_nat_bound)
    moreover have "(2 :: nat) ^ 57 \<le> 2 ^ n" using that by (rule power_increasing) simp
    moreover have "unat k < 2 ^ 57" using assms by (simp add: word_le_nat_alt unat_drop_bit_eq drop_bit_eq_div unsigned_minus_1_eq_mask mask_eq_exp_minus_1)
    ultimately show False by linarith
  qed
  have m: "(0x7F :: u64) = mask 7" "(0x7F :: byte) = mask 7" by (simp_all add: mask_eq_exp_minus_1)
  show "drop_bit 7 (push_bit 7 k OR ucast (c AND 0x7F)) = k"
    unfolding m by (rule bit_word_eqI) (use k not_le in \<open>auto simp: bit_simps\<close>)
  show e: "(push_bit 7 k OR ucast (c AND 0x7F)) AND 0x7F = (ucast (c AND 0x7F) :: u64)"
    unfolding m by (rule bit_word_eqI) (auto simp: bit_simps)
  show "ucast ((push_bit 7 k OR ucast (c AND 0x7F)) AND 0x7F) = (c AND 0x7F :: byte)"
    unfolding m by (rule bit_word_eqI) (auto simp: bit_simps)
qed

lemma varint_split: "push_bit 7 (drop_bit 7 n) OR ucast (ucast (n AND 0x7F) :: byte) = (n :: u64)"
proof -
  have m: "(0x7F :: u64) = mask 7" by (simp add: mask_eq_exp_minus_1)
  show ?thesis unfolding m by (rule bit_word_eqI) (auto simp: bit_simps, metis le_add_diff_inverse linorder_not_less)
qed

declare varint_tmp.simps [simp del]

lemma varint_len: "unat n < 2 ^ (7 * k) \<Longrightarrow> 0 < k \<Longrightarrow> length (varint_tmp more n) \<le> k"
proof (induction k arbitrary: more n)
  case (Suc k)
  show ?case
  proof (cases "n \<le> 0x7F")
    case False
    have "unat n div 128 < 2 ^ (7 * k)" using Suc.prems(1) by (simp add: power_add less_mult_imp_div_less)
    then have "unat (drop_bit 7 n - 1) < 2 ^ (7 * k)" using unat_varint_step [OF False] by linarith
    moreover have "k \<noteq> 0"
    proof
      assume "k = 0"
      with \<open>unat n div 128 < 2 ^ (7 * k)\<close> show False using False by (simp add: word_le_nat_alt)
    qed
    ultimately have "length (varint_tmp True (drop_bit 7 n - 1)) \<le> k" by (intro Suc.IH) simp_all
    then show ?thesis using False by (subst varint_tmp.simps) simp
  qed (subst varint_tmp.simps, simp)
qed simp

text \<open>Ten bytes are enough for 64 bits: the size of the buffer \<open>tmp\<close>.\<close>

lemma varint_tmp_fits: "length (varint_tmp more n) \<le> 10"
  by (rule varint_len) (use u64_bound [of n] in simp_all)

lemma unat_drop7: "unat (drop_bit 7 (n :: u64)) = unat n div 128"
  unfolding unat_drop_bit_eq by (simp add: drop_bit_eq_div)

lemma drop_bit7_le: "drop_bit 7 (n :: u64) \<le> drop_bit 7 (- 1)"
proof -
  have "unat n \<le> unat (- 1 :: u64)" by (simp flip: word_le_nat_alt)
  then show ?thesis unfolding word_le_nat_alt unat_drop7 by (rule div_le_mono)
qed

lemma bit_0x80: "bit (128 :: int) k \<longleftrightarrow> k = 7"
proof -
  have "(128 :: int) = 2 ^ 7" by simp
  then show ?thesis by (simp only: bit_exp_iff) auto
qed

lemma varint_read_digit:
  "ReadVarInt_loop (drop_bit 7 n) ((ucast (n AND 0x7F) OR (if more then 0x80 else 0)) # rest) =
    (if more then if n = - 1 then Inl VarIntTooLarge else ReadVarInt_loop (n + 1) rest else Inr (n, rest))"
proof -
  let ?c = "ucast (n AND 0x7F) OR (if more then 0x80 else 0) :: byte"
  have c: "ucast (?c AND 0x7F) = (ucast (ucast (n AND 0x7F) :: byte) :: u64)" "?c AND 0x80 \<noteq> 0 \<longleftrightarrow> more"
  proof -
    have m: "(0x7F :: u64) = mask 7" "(0x7F :: byte) = mask 7" "(0x80 :: byte) = 2 ^ 7" by (simp_all add: mask_eq_exp_minus_1)
    show "ucast (?c AND 0x7F) = (ucast (ucast (n AND 0x7F) :: byte) :: u64)"
      unfolding m by (rule bit_word_eqI) (auto simp: bit_simps bit_0x80)
    show "?c AND 0x80 \<noteq> 0 \<longleftrightarrow> more"
      unfolding m and_exp_eq_0_iff_not_bit by (auto simp: bit_simps bit_0x80)
  qed
  have "push_bit 7 (drop_bit 7 n) OR ucast (?c AND 0x7F) = n" unfolding c(1) by (rule varint_split)
  then show ?thesis using drop_bit7_le [of n] c(2) by (simp add: not_less [symmetric] Let_def del: push_bit_of_1)
qed

lemma varint_read_more:
  assumes "n \<noteq> - 1"
  shows "ReadVarInt_loop 0 (rev (varint_tmp True n) @ rest) = ReadVarInt_loop (n + 1) rest"
  using assms
proof (induction "unat n" arbitrary: n rest rule: less_induct)
  case less
  let ?c = "ucast (n AND 0x7F) OR (if True then 0x80 else 0) :: byte"
  have digit: "ReadVarInt_loop (drop_bit 7 n) (?c # rest) = ReadVarInt_loop (n + 1) rest"
    using varint_read_digit [of n True rest] less.prems by simp
  show ?case
  proof (cases "n \<le> 0x7F")
    case True
    then have "drop_bit 7 n = 0" by (simp add: word_unat_eq_iff unat_drop7 word_le_nat_alt)
    then show ?thesis using True digit by (subst varint_tmp.simps) simp
  next
    case False
    let ?m = "drop_bit 7 n - 1"
    have "unat ?m + 1 = unat n div 128" by (rule unat_varint_step [OF False])
    then have lt: "unat ?m < unat n" "unat ?m < 18446744073709551615" using u64_bound [of n] by linarith+
    then have "?m \<noteq> - 1" by (auto simp: unsigned_minus_1_eq_mask mask_eq_exp_minus_1)
    then have "ReadVarInt_loop 0 (rev (varint_tmp True ?m) @ ?c # rest) = ReadVarInt_loop (?m + 1) (?c # rest)"
      using less.hyps [OF lt(1)] by simp
    then show ?thesis using False digit by (subst varint_tmp.simps) simp
  qed
qed

lemma ReadVarInt_Write: "ReadVarInt (WriteVarInt n @ rest) = Inr (n, rest)"
proof -
  let ?c = "ucast (n AND 0x7F) OR (if False then 0x80 else 0) :: byte"
  have digit: "ReadVarInt_loop (drop_bit 7 n) (?c # rest) = Inr (n, rest)"
    using varint_read_digit [of n False rest] by simp
  show ?thesis
  proof (cases "n \<le> 0x7F")
    case True
    then have "drop_bit 7 n = 0" by (simp add: word_unat_eq_iff unat_drop7 word_le_nat_alt)
    then show ?thesis using True digit unfolding ReadVarInt_def WriteVarInt_def by (subst varint_tmp.simps) simp
  next
    case False
    let ?m = "drop_bit 7 n - 1"
    have "unat ?m + 1 = unat n div 128" by (rule unat_varint_step [OF False])
    then have "?m \<noteq> - 1" using u64_bound [of n] by (auto simp: unsigned_minus_1_eq_mask mask_eq_exp_minus_1)
    then show ?thesis using False digit varint_read_more [of ?m "?c # rest"]
      unfolding ReadVarInt_def WriteVarInt_def by (subst varint_tmp.simps) simp
  qed
qed

text \<open>Every encoding that is accepted is the one that is written.\<close>

lemma varint_tmp_rebuild:
  fixes c :: byte
  assumes "k \<le> drop_bit 7 (- 1 :: u64)"
  defines "n \<equiv> push_bit 7 k OR ucast (c AND 0x7F)"
  assumes "c AND 0x80 \<noteq> 0 \<longleftrightarrow> more"
  shows "varint_tmp more n = c # (if k = 0 then [] else varint_tmp True (k - 1))"
proof -
  have d: "drop_bit 7 n = k" "ucast (n AND 0x7F) = c AND 0x7F" unfolding n_def using varint_digit [OF assms(1)] by blast+
  have "n \<le> 0x7F \<longleftrightarrow> unat n div 128 = 0" by (auto simp: word_le_nat_alt)
  also have "\<dots> \<longleftrightarrow> k = 0" unfolding unat_drop7 [symmetric] d(1) by (simp add: unat_eq_0)
  finally have z: "n \<le> 0x7F \<longleftrightarrow> k = 0" .
  have c: "(c AND 0x7F) OR (if more then 0x80 else 0) = c"
  proof -
    have m: "(0x7F :: byte) = mask 7" by (simp add: mask_eq_exp_minus_1)
    have "bit c 7 \<longleftrightarrow> more"
    proof -
      have "(0x80 :: byte) = 2 ^ 7" by simp
      with assms(3) show ?thesis by (metis and_exp_eq_0_iff_not_bit)
    qed
    then show ?thesis unfolding m by (intro bit_word_eqI) (auto simp: bit_simps bit_0x80 less_Suc_eq_le le_less eval_nat_numeral)
  qed
  show ?thesis by (subst varint_tmp.simps) (simp add: d z c)
qed

lemma varint_loop_inv:
  "ReadVarInt_loop k s = Inr (n, rest) \<Longrightarrow>
    \<exists>pre. s = pre @ rest \<and> (if k = 0 then pre else rev (varint_tmp True (k - 1)) @ pre) = WriteVarInt n"
proof (induction k s rule: ReadVarInt_loop.induct)
  case (2 k c s)
  let ?n = "push_bit 7 k OR ucast (c AND 0x7F)"
  have k: "k \<le> drop_bit 7 (- 1)" using 2(2) by (auto split: if_splits)
  note build = varint_tmp_rebuild [OF k, of c]
  show ?case
  proof (cases "c AND 0x80 \<noteq> 0")
    case True
    have n: "?n \<noteq> - 1" "ReadVarInt_loop (?n + 1) s = Inr (n, rest)" using 2(2) k True by (auto simp: Let_def split: if_splits)
    have "?n + 1 \<noteq> 0" using n(1) by (metis add_eq_0_iff2 )
    then obtain pre where "s = pre @ rest" "rev (varint_tmp True ?n) @ pre = WriteVarInt n"
      using 2(1) [OF _ refl True n] k by (metis add_diff_cancel_right' not_le)
    then show ?thesis using build [of True] True by (intro exI [of _ "c # pre"]) auto
  next
    case False
    then have "n = ?n" "rest = s" using 2(2) k by (auto simp: Let_def split: if_splits)
    then show ?thesis using build [of False] False by (intro exI [of _ "[c]"]) (auto simp: WriteVarInt_def)
  qed
qed simp

lemma ReadVarInt_iff [ser_iff]: "ReadVarInt s = Inr (n, rest) \<longleftrightarrow> s = WriteVarInt n @ rest"
proof
  assume "ReadVarInt s = Inr (n, rest)"
  then show "s = WriteVarInt n @ rest" using varint_loop_inv [of 0 s n rest] by (auto simp: ReadVarInt_def)
qed (simp add: ReadVarInt_Write)

section \<open>Instances of the contract\<close>

lemma codecI: "(\<And>s x rest. dec s = Inr (x, rest) \<longleftrightarrow> ok x \<and> s = enc x @ rest) \<Longrightarrow> codec enc dec ok"
  by (simp add: codec_def)

context codec
begin

lemma VectorUnser_iff:
  "VectorUnser dec s = Inr (v, rest) \<longleftrightarrow> (list_all ok v \<and> length v \<le> unat MAX_SIZE) \<and> s = VectorSer enc v @ rest"
proof -
  have u: "unat (word_of_nat (length v) :: u64) = length v" if "length v \<le> unat MAX_SIZE"
    using that by (simp add: MAX_SIZE_def unat_of_nat)
  have "VectorUnser dec s = Inr (v, rest) \<longleftrightarrow>
      (\<exists>n t. ReadCompactSize True s = Inr (n, t) \<and> read_elems dec (unat n) t = Inr (v, rest))"
    by (auto simp: VectorUnser_def)
  also have "\<dots> \<longleftrightarrow> (\<exists>n. n \<le> MAX_SIZE \<and> s = WriteCompactSize n @ concat (map enc v) @ rest \<and> length v = unat n \<and> list_all ok v)"
    unfolding ReadCompactSize_iff read_elems_iff by blast
  also have "\<dots> \<longleftrightarrow> (list_all ok v \<and> length v \<le> unat MAX_SIZE) \<and> s = VectorSer enc v @ rest"
  proof
    assume "\<exists>n. n \<le> MAX_SIZE \<and> s = WriteCompactSize n @ concat (map enc v) @ rest \<and> length v = unat n \<and> list_all ok v"
    then obtain n where n: "n \<le> MAX_SIZE" "s = WriteCompactSize n @ concat (map enc v) @ rest" "length v = unat n" "list_all ok v" by blast
    then have "word_of_nat (length v) = n" by simp
    with n show "(list_all ok v \<and> length v \<le> unat MAX_SIZE) \<and> s = VectorSer enc v @ rest"
      by (simp add: VectorSer_def word_le_nat_alt)
  next
    assume "(list_all ok v \<and> length v \<le> unat MAX_SIZE) \<and> s = VectorSer enc v @ rest"
    with u show "\<exists>n. n \<le> MAX_SIZE \<and> s = WriteCompactSize n @ concat (map enc v) @ rest \<and> length v = unat n \<and> list_all ok v"
      by (intro exI [of _ "word_of_nat (length v)"]) (simp add: VectorSer_def word_le_nat_alt)
  qed
  finally show ?thesis .
qed

lemma vector_codec: "codec (VectorSer enc) (VectorUnser dec) (\<lambda>v. list_all ok v \<and> length v \<le> unat MAX_SIZE)"
  by (rule codecI) (rule VectorUnser_iff)

end

interpretation u8c: codec ser_writedata8 ser_readdata8 "\<lambda>_. True"
  by (rule codecI) (simp add: ser_iff)

interpretation u16c: codec ser_writedata16 ser_readdata16 "\<lambda>_. True"
  by (rule codecI) (simp add: ser_iff)

interpretation u32c: codec ser_writedata32 ser_readdata32 "\<lambda>_. True"
  by (rule codecI) (simp add: ser_iff)

interpretation u64c: codec ser_writedata64 ser_readdata64 "\<lambda>_. True"
  by (rule codecI) (simp add: ser_iff)

interpretation sizec: codec WriteCompactSize "ReadCompactSize True" "\<lambda>n. n \<le> MAX_SIZE"
  by (rule codecI) (simp add: ser_iff)

interpretation anysizec: codec WriteCompactSize "ReadCompactSize False" "\<lambda>_. True"
  by (rule codecI) (simp add: ser_iff)

interpretation varintc: codec WriteVarInt ReadVarInt "\<lambda>_. True"
  by (rule codecI) (simp add: ser_iff)

text \<open>Byte strings: a \<open>uint256\<close> is its 32 bytes, a \<open>vector<unsigned char>\<close> a vector of bytes.\<close>

interpretation u256c: codec "\<lambda>x. x" "ser_read 32" "\<lambda>x. length x = 32"
  by (rule codecI) (simp add: ser_read_iff)

abbreviation bytes_ser :: "bytes \<Rightarrow> bytes" where
  "bytes_ser \<equiv> VectorSer ser_writedata8"

abbreviation bytes_unser :: "bytes reader" where
  "bytes_unser \<equiv> VectorUnser ser_readdata8"

interpretation bytesc: codec bytes_ser bytes_unser "\<lambda>v. list_all (\<lambda>_. True) v \<and> length v \<le> unat MAX_SIZE"
  by (rule u8c.vector_codec)

lemma bytes_ser_eq: "bytes_ser v = WriteCompactSize (word_of_nat (length v)) @ v"
proof -
  have "concat (map ser_writedata8 v) = v" by (induction v) (simp_all add: ser_writedata8_def)
  then show ?thesis by (simp add: VectorSer_def)
qed

end
