(* ===== verification/Tx.thy ===== *)
theory Tx
  imports Serialize Cpp_Int
begin

text \<open>
  Transactions with confidential values: \<^verbatim>\<open>src/primitives/confidential.h\<close>,
  \<^verbatim>\<open>src/primitives/transaction.h\<close> and \<^verbatim>\<open>src/primitives/transaction.cpp\<close>. The version of a
  transaction selects the wire format of its inputs and outputs (\<open>CT_VERSION\<close> the confidential one).
  The lemmas show that both formats are unambiguous: a transaction is read back as it was written,
  and no other byte string is read as that transaction.
\<close>

section \<open>Confidential values and nonces\<close>

text \<open>
  A commitment is its byte string \<open>vchCommitment\<close>; the template parameters are the size of an
  explicit value and the three prefixes of a commitment.
\<close>

definition nCommittedSize :: nat where "nCommittedSize = 33"

definition conf_Serialize :: "bytes \<Rightarrow> bytes" where
  "conf_Serialize vch = ser_writedata8 (if vch = [] then 0 else vch ! 0) @ (if length vch > 1 then drop 1 vch else [])"

definition conf_Unserialize :: "nat \<Rightarrow> byte \<Rightarrow> byte \<Rightarrow> byte \<Rightarrow> bytes reader" where
  "conf_Unserialize nExplicitSize A B C s = ebind (ser_readdata8 s) (\<lambda>(version, s).
     if version = 0 then Inr ([], s)
     else if version = 1 then ebind (ser_read (nExplicitSize - 1) s) (\<lambda>(d, s). Inr (version # d, s))
     else if version = A \<or> version = B \<or> version = C then
       ebind (ser_read (nCommittedSize - 1) s) (\<lambda>(d, s). Inr (version # d, s))
     else Inl UnrecognizedPrefix)"

definition conf_IsNull :: "bytes \<Rightarrow> bool" where
  "conf_IsNull vch \<longleftrightarrow> vch = []"

definition conf_IsExplicit :: "nat \<Rightarrow> bytes \<Rightarrow> bool" where
  "conf_IsExplicit nExplicitSize vch \<longleftrightarrow> length vch = nExplicitSize \<and> vch ! 0 = 1"

definition conf_IsCommitment :: "byte \<Rightarrow> byte \<Rightarrow> byte \<Rightarrow> bytes \<Rightarrow> bool" where
  "conf_IsCommitment A B C vch \<longleftrightarrow> length vch = nCommittedSize \<and> (vch ! 0 = A \<or> vch ! 0 = B \<or> vch ! 0 = C)"

definition conf_IsValid :: "nat \<Rightarrow> byte \<Rightarrow> byte \<Rightarrow> byte \<Rightarrow> bytes \<Rightarrow> bool" where
  "conf_IsValid es A B C vch \<longleftrightarrow> conf_IsNull vch \<or> conf_IsExplicit es vch \<or> conf_IsCommitment A B C vch"

text \<open>\<open>CConfidentialValue\<close> is the template at \<open><9, 8, 9>\<close>, with the default third prefix 0xFF.\<close>

abbreviation val_unser :: "bytes reader" where "val_unser \<equiv> conf_Unserialize 9 8 9 0xFF"
abbreviation IsExplicit :: "bytes \<Rightarrow> bool" where "IsExplicit \<equiv> conf_IsExplicit 9"
abbreviation IsCommitment :: "bytes \<Rightarrow> bool" where "IsCommitment \<equiv> conf_IsCommitment 8 9 0xFF"
abbreviation val_IsValid :: "bytes \<Rightarrow> bool" where "val_IsValid \<equiv> conf_IsValid 9 8 9 0xFF"

text \<open>\<open>CConfidentialNonce\<close> is the template at \<open><33, 2, 3, 4>\<close>.\<close>

abbreviation nonce_unser :: "bytes reader" where "nonce_unser \<equiv> conf_Unserialize 33 2 3 4"
abbreviation nonce_IsValid :: "bytes \<Rightarrow> bool" where "nonce_IsValid \<equiv> conf_IsValid 33 2 3 4"

definition ReadBE64 :: "bytes \<Rightarrow> u64" where
  "ReadBE64 p = word_of_nat (le_val (rev (take 8 p)))"

definition WriteBE64 :: "u64 \<Rightarrow> bytes" where
  "WriteBE64 x = rev (le_bytes 8 (unat x))"

text \<open>A \<open>CAmount\<close> is a signed 64-bit integer.\<close>

definition GetAmount :: "bytes \<Rightarrow> int" where
  "GetAmount vch = (if \<not> IsExplicit vch then 0 else sint (ReadBE64 (drop 1 vch)))"

definition SetToAmount :: "int \<Rightarrow> bytes" where
  "SetToAmount amount = 1 # WriteBE64 (word_of_int amount)"

section \<open>Inputs, outputs and transactions\<close>

record COutPoint =
  op_hash :: bytes
  op_n :: u32

record CTxIn =
  prevout :: COutPoint
  scriptSig :: bytes
  nSequence :: u32
  scriptWitness :: "bytes list"
  in_nValue :: bytes

record CTxOut =
  nValue :: bytes
  nNonce :: bytes
  vchRangeproof :: bytes
  scriptPubKey :: bytes

record CTransaction =
  vin :: "CTxIn list"
  vout :: "CTxOut list"
  nVersion :: u32
  nLockTime :: u32

definition CT_VERSION :: u32 where "CT_VERSION = 3"

definition MAX_RANGEPROOF_SIZE :: nat where "MAX_RANGEPROOF_SIZE = 5134"

definition NULL_INDEX :: u32 where "NULL_INDEX = - 1"

definition COutPoint_IsNull :: "COutPoint \<Rightarrow> bool" where
  "COutPoint_IsNull p \<longleftrightarrow> list_all (\<lambda>b. b = 0) (op_hash p) \<and> op_n p = NULL_INDEX"

definition COutPoint_Serialize :: "COutPoint \<Rightarrow> bytes" where
  "COutPoint_Serialize p = op_hash p @ ser_writedata32 (op_n p)"

definition COutPoint_Unserialize :: "COutPoint reader" where
  "COutPoint_Unserialize s = ebind (ser_read 32 s) (\<lambda>(h, s).
     ebind (ser_readdata32 s) (\<lambda>(i, s). Inr (\<lparr>op_hash = h, op_n = i\<rparr>, s)))"

definition CTxIn_Serialize :: "bool \<Rightarrow> CTxIn \<Rightarrow> bytes" where
  "CTxIn_Serialize fCT t = COutPoint_Serialize (prevout t) @ bytes_ser (scriptSig t) @ ser_writedata32 (nSequence t) @
     (if fCT then conf_Serialize (in_nValue t) else [])"

definition CTxIn_Unserialize :: "bool \<Rightarrow> CTxIn reader" where
  "CTxIn_Unserialize fCT s = ebind (COutPoint_Unserialize s) (\<lambda>(p, s).
     ebind (bytes_unser s) (\<lambda>(sc, s).
     ebind (ser_readdata32 s) (\<lambda>(q, s).
     ebind (if fCT then val_unser s else Inr ([], s)) (\<lambda>(v, s).
       Inr (\<lparr>prevout = p, scriptSig = sc, nSequence = q, scriptWitness = [], in_nValue = v\<rparr>, s)))))"

definition CTxOut_Serialize :: "bool \<Rightarrow> CTxOut \<Rightarrow> bytes" where
  "CTxOut_Serialize fCT t =
     (if fCT then conf_Serialize (nValue t) @ conf_Serialize (nNonce t) @ bytes_ser (vchRangeproof t)
      else ser_writedata64 (word_of_int (if IsExplicit (nValue t) then GetAmount (nValue t) else 0))) @
     bytes_ser (scriptPubKey t)"

definition CTxOut_Unserialize :: "bool \<Rightarrow> CTxOut reader" where
  "CTxOut_Unserialize fCT s =
     ebind (if fCT then
         ebind (val_unser s) (\<lambda>(v, s). ebind (nonce_unser s) (\<lambda>(m, s). ebind (bytes_unser s) (\<lambda>(r, s).
           if length r > MAX_RANGEPROOF_SIZE then Inl RangeproofTooLarge else Inr ((v, m, r), s))))
       else ebind (ser_readdata64 s) (\<lambda>(a, s). Inr ((SetToAmount (sint a), [], []), s)))
     (\<lambda>((v, m, r), s). ebind (bytes_unser s) (\<lambda>(sc, s).
       Inr (\<lparr>nValue = v, nNonce = m, vchRangeproof = r, scriptPubKey = sc\<rparr>, s)))"

definition CTxOut_IsNull :: "CTxOut \<Rightarrow> bool" where
  "CTxOut_IsNull t \<longleftrightarrow> IsExplicit (nValue t) \<and> GetAmount (nValue t) = -1"

definition IsFee :: "CTxOut \<Rightarrow> bool" where
  "IsFee t \<longleftrightarrow> IsExplicit (nValue t) \<and> scriptPubKey t = []"

definition HasWitness :: "CTransaction \<Rightarrow> bool" where
  "HasWitness tx \<longleftrightarrow> list_ex (\<lambda>t. scriptWitness t \<noteq> []) (vin tx)"

definition SerializeTransaction :: "bool \<Rightarrow> CTransaction \<Rightarrow> bytes" where
  "SerializeTransaction fAllowWitness tx =
     (let fCT = (nVersion tx = CT_VERSION); flags = (fAllowWitness \<and> HasWitness tx) in
      ser_writedata32 (nVersion tx) @
      (if flags then VectorSer (CTxIn_Serialize fCT) [] @ ser_writedata8 1 else []) @
      VectorSer (CTxIn_Serialize fCT) (vin tx) @ VectorSer (CTxOut_Serialize fCT) (vout tx) @
      (if flags then concat (map (\<lambda>t. VectorSer bytes_ser (scriptWitness t)) (vin tx)) else []) @
      ser_writedata32 (nLockTime tx))"

text \<open>The loop that reads one witness stack per input.\<close>

fun read_witnesses :: "CTxIn list \<Rightarrow> CTxIn list reader" where
  "read_witnesses [] s = Inr ([], s)"
| "read_witnesses (t # ts) s = ebind (VectorUnser bytes_unser s) (\<lambda>(w, s).
     ebind (read_witnesses ts s) (\<lambda>(ts', s). Inr (t\<lparr>scriptWitness := w\<rparr> # ts', s)))"

definition tx_read_vectors :: "bool \<Rightarrow> bool \<Rightarrow> (byte \<times> CTxIn list \<times> CTxOut list) reader" where
  "tx_read_vectors fAllowWitness fCT s = ebind (VectorUnser (CTxIn_Unserialize fCT) s) (\<lambda>(ins, s).
     if ins = [] \<and> fAllowWitness then
       ebind (ser_readdata8 s) (\<lambda>(flags, s).
         if flags \<noteq> 0 then
           ebind (VectorUnser (CTxIn_Unserialize fCT) s) (\<lambda>(ins, s).
           ebind (VectorUnser (CTxOut_Unserialize fCT) s) (\<lambda>(outs, s). Inr ((flags, ins, outs), s)))
         else Inr ((flags, ins, []), s))
     else ebind (VectorUnser (CTxOut_Unserialize fCT) s) (\<lambda>(outs, s). Inr ((0, ins, outs), s)))"

definition tx_read_flags :: "bool \<Rightarrow> byte \<Rightarrow> CTxIn list \<Rightarrow> (byte \<times> CTxIn list) reader" where
  "tx_read_flags fAllowWitness flags ins s =
     (if flags AND 1 \<noteq> 0 \<and> fAllowWitness then
        ebind (read_witnesses ins s) (\<lambda>(ins, s).
          if \<not> list_ex (\<lambda>t. scriptWitness t \<noteq> []) ins then Inl SuperfluousWitness
          else Inr ((flags XOR 1, ins), s))
      else Inr ((flags, ins), s))"

definition UnserializeTransaction :: "bool \<Rightarrow> CTransaction reader" where
  "UnserializeTransaction fAllowWitness s = ebind (ser_readdata32 s) (\<lambda>(ver, s).
     ebind (tx_read_vectors fAllowWitness (ver = CT_VERSION) s) (\<lambda>((flags, ins, outs), s).
     ebind (tx_read_flags fAllowWitness flags ins s) (\<lambda>((flags, ins), s).
     if flags \<noteq> 0 then Inl UnknownOptionalData
     else ebind (ser_readdata32 s) (\<lambda>(lt, s).
       Inr (\<lparr>vin = ins, vout = outs, nVersion = ver, nLockTime = lt\<rparr>, s)))))"

section \<open>Amounts of a transaction\<close>

definition COIN :: int where "COIN = 100000000"
definition MAX_MONEY :: int where "MAX_MONEY = 2100000000 * COIN"

definition MoneyRange :: "int \<Rightarrow> bool" where
  "MoneyRange v \<longleftrightarrow> v \<ge> 0 \<and> v \<le> MAX_MONEY"

text \<open>\<open>None\<close> is the exception, or an overflow of the sum.\<close>

fun GetValueOut_loop :: "int \<Rightarrow> CTxOut list \<Rightarrow> int option" where
  "GetValueOut_loop nValueOut [] = (if MoneyRange nValueOut then Some nValueOut else None)"
| "GetValueOut_loop nValueOut (t # ts) =
     (if \<not> IsExplicit (nValue t) then GetValueOut_loop nValueOut ts
      else if IsFee t then GetValueOut_loop nValueOut ts
      else if \<not> MoneyRange (GetAmount (nValue t)) then None
      else do { v \<leftarrow> i64 (nValueOut + GetAmount (nValue t));
                if \<not> MoneyRange v then None else GetValueOut_loop v ts })"

definition GetValueOut :: "CTransaction \<Rightarrow> int option" where
  "GetValueOut tx = GetValueOut_loop 0 (vout tx)"

fun GetFeeOut_loop :: "int \<Rightarrow> CTxOut list \<Rightarrow> int option" where
  "GetFeeOut_loop nFee [] = Some nFee"
| "GetFeeOut_loop nFee (t # ts) =
     (if IsFee t then do { v \<leftarrow> i64 (nFee + GetAmount (nValue t)); GetFeeOut_loop v ts }
      else GetFeeOut_loop nFee ts)"

definition GetFeeOut :: "CTransaction \<Rightarrow> int option" where
  "GetFeeOut tx = GetFeeOut_loop 0 (vout tx)"

definition IsCoinBase :: "CTransaction \<Rightarrow> bool" where
  "IsCoinBase tx \<longleftrightarrow> length (vin tx) = 1 \<and> COutPoint_IsNull (prevout (vin tx ! 0))"

section \<open>The formats are unambiguous\<close>

lemma conf_Serialize_cases: "conf_Serialize vch = (case vch of [] \<Rightarrow> [0] | v # d \<Rightarrow> v # d)"
  by (cases vch) (auto simp: conf_Serialize_def ser_writedata8_def)

lemma readdata8_simps: "ser_readdata8 [] = Inl EndOfData" "ser_readdata8 (c # t) = Inr (c, t)"
  by (simp_all add: ser_readdata8_def ser_read_def)

lemma conf_Unserialize_iff:
  assumes "1 \<le> es" and "A \<notin> {0, 1}" and "B \<notin> {0, 1}" and "C \<notin> {0, 1}"
  shows "conf_Unserialize es A B C s = Inr (v, rest) \<longleftrightarrow> conf_IsValid es A B C v \<and> s = conf_Serialize v @ rest"
proof (cases v)
  case Nil
  have "conf_Unserialize es A B C s = Inr ([], rest) \<longleftrightarrow> ser_readdata8 s = Inr (0, rest)"
    by (cases "ser_readdata8 s") (auto simp: conf_Unserialize_def split: if_splits)
  then show ?thesis
    by (simp add: Nil ser_iff conf_Serialize_cases conf_IsValid_def conf_IsNull_def ser_writedata8_def)
next
  case (Cons x d)
  have "conf_Unserialize es A B C s = Inr (v, rest) \<longleftrightarrow> s = x # d @ rest \<and> x \<noteq> 0 \<and>
      (if x = 1 then length d = es - 1 else (x = A \<or> x = B \<or> x = C) \<and> length d = nCommittedSize - 1)"
    by (cases s) (auto simp: Cons conf_Unserialize_def readdata8_simps ser_read_iff split: if_splits)
  also have "\<dots> \<longleftrightarrow> conf_IsValid es A B C v \<and> s = conf_Serialize v @ rest"
    using assms by (auto simp: Cons conf_IsValid_def conf_IsNull_def conf_IsExplicit_def conf_IsCommitment_def
        conf_Serialize_cases nCommittedSize_def)
  finally show ?thesis .
qed

interpretation valc: codec conf_Serialize val_unser val_IsValid
  by (rule codecI) (rule conf_Unserialize_iff; simp)

interpretation noncec: codec conf_Serialize nonce_unser nonce_IsValid
  by (rule codecI) (rule conf_Unserialize_iff; simp)

interpretation outpointc: codec COutPoint_Serialize COutPoint_Unserialize "\<lambda>p. length (op_hash p) = 32"
proof (rule codecI)
  fix s x rest
  show "COutPoint_Unserialize s = Inr (x, rest) \<longleftrightarrow> length (op_hash x) = 32 \<and> s = COutPoint_Serialize x @ rest"
    by (cases x) (auto simp: COutPoint_Unserialize_def COutPoint_Serialize_def ser_iff ser_read_iff)
qed

text \<open>What an input holds on the wire: no witness, and a value in the confidential format only.\<close>

definition txin_ok :: "bool \<Rightarrow> CTxIn \<Rightarrow> bool" where
  "txin_ok fCT t \<longleftrightarrow> length (op_hash (prevout t)) = 32 \<and> length (scriptSig t) \<le> unat MAX_SIZE \<and>
     scriptWitness t = [] \<and> (if fCT then val_IsValid (in_nValue t) else in_nValue t = [])"

definition txout_ok :: "bool \<Rightarrow> CTxOut \<Rightarrow> bool" where
  "txout_ok fCT t \<longleftrightarrow> length (scriptPubKey t) \<le> unat MAX_SIZE \<and>
     (if fCT then val_IsValid (nValue t) \<and> nonce_IsValid (nNonce t) \<and> length (vchRangeproof t) \<le> MAX_RANGEPROOF_SIZE
      else IsExplicit (nValue t) \<and> nNonce t = [] \<and> vchRangeproof t = [])"

interpretation txinc: codec "CTxIn_Serialize fCT" "CTxIn_Unserialize fCT" "txin_ok fCT" for fCT
proof (rule codecI)
  fix s x rest
  show "CTxIn_Unserialize fCT s = Inr (x, rest) \<longleftrightarrow> txin_ok fCT x \<and> s = CTxIn_Serialize fCT x @ rest"
    by (cases x) (auto simp: CTxIn_Unserialize_def CTxIn_Serialize_def txin_ok_def outpointc.dec_iff bytesc.dec_iff
        valc.dec_iff ser_iff list_all_iff split: if_splits)
qed

lemma length_WriteBE64 [simp]: "length (WriteBE64 x) = 8"
  by (simp add: WriteBE64_def)

lemma ReadBE64_Write [simp]: "ReadBE64 (WriteBE64 x) = x"
proof -
  have "le_val (le_bytes 8 (unat x)) = unat x" using u64_bound [of x] by (simp add: le_val_le_bytes)
  then show ?thesis by (simp add: ReadBE64_def WriteBE64_def)
qed

lemma WriteBE64_Read:
  assumes "length d = 8"
  shows "WriteBE64 (ReadBE64 d) = d"
proof -
  have "le_val (rev d) < 2 ^ 64" using le_val_bound [of "rev d"] assms by simp
  then have "unat (ReadBE64 d) = le_val (rev d)" using assms by (simp add: ReadBE64_def unat_of_nat)
  then show ?thesis using le_bytes_le_val [of "rev d"] assms by (simp add: WriteBE64_def)
qed

lemma GetAmount_SetToAmount: "INT64_MIN \<le> a \<Longrightarrow> a \<le> INT64_MAX \<Longrightarrow> GetAmount (SetToAmount a) = a"
  by (simp add: GetAmount_def SetToAmount_def conf_IsExplicit_def sint_sbintrunc' int_limits signed_take_bit_int_eq_self)

lemma IsExplicit_SetToAmount [simp]: "IsExplicit (SetToAmount a)"
  by (simp add: SetToAmount_def conf_IsExplicit_def)

lemma SetToAmount_GetAmount: "IsExplicit v \<Longrightarrow> SetToAmount (GetAmount v) = v"
  by (cases v) (auto simp: GetAmount_def SetToAmount_def conf_IsExplicit_def WriteBE64_Read)

lemma amount_iff: "SetToAmount (sint (a :: u64)) = v \<longleftrightarrow> IsExplicit v \<and> word_of_int (GetAmount v) = a"
proof
  assume h: "SetToAmount (sint a) = v"
  then show "IsExplicit v \<and> word_of_int (GetAmount v) = a"
    by (auto simp: GetAmount_def) (simp add: SetToAmount_def)
next
  assume h: "IsExplicit v \<and> word_of_int (GetAmount v) = a"
  then have "sint a = GetAmount v" by (auto simp: GetAmount_def)
  with h show "SetToAmount (sint a) = v" by (simp add: SetToAmount_GetAmount)
qed

interpretation txoutc: codec "CTxOut_Serialize fCT" "CTxOut_Unserialize fCT" "txout_ok fCT" for fCT
proof (rule codecI)
  fix s x rest
  obtain v m r sc where x: "x = \<lparr>nValue = v, nNonce = m, vchRangeproof = r, scriptPubKey = sc\<rparr>" by (cases x)
  show "CTxOut_Unserialize fCT s = Inr (x, rest) \<longleftrightarrow> txout_ok fCT x \<and> s = CTxOut_Serialize fCT x @ rest"
  proof (cases fCT)
    case True
    show ?thesis
    proof
      assume "CTxOut_Unserialize fCT s = Inr (x, rest)"
      then show "txout_ok fCT x \<and> s = CTxOut_Serialize fCT x @ rest" using True
        by (auto simp: x CTxOut_Unserialize_def CTxOut_Serialize_def txout_ok_def bytesc.dec_iff valc.dec_iff noncec.dec_iff
          split: if_splits)
    next
      assume h: "txout_ok fCT x \<and> s = CTxOut_Serialize fCT x @ rest"
      then have "length r \<le> unat MAX_SIZE" using True by (simp add: x txout_ok_def MAX_RANGEPROOF_SIZE_def MAX_SIZE_def)
      with h show "CTxOut_Unserialize fCT s = Inr (x, rest)" using True
        by (simp add: x CTxOut_Unserialize_def CTxOut_Serialize_def txout_ok_def valc.dec_enc noncec.dec_enc bytesc.dec_enc list_all_iff)
    qed
  next
    case False
    have "CTxOut_Unserialize False s = Inr (x, rest) \<longleftrightarrow> length sc \<le> unat MAX_SIZE \<and> m = [] \<and> r = [] \<and>
        (\<exists>a. s = ser_writedata64 a @ bytes_ser sc @ rest \<and> SetToAmount (sint a) = v)"
      by (auto simp: x CTxOut_Unserialize_def ser_iff bytesc.dec_iff list_all_iff)
    also have "\<dots> \<longleftrightarrow> txout_ok False x \<and> s = CTxOut_Serialize False x @ rest"
      by (auto simp: x amount_iff txout_ok_def CTxOut_Serialize_def)
    finally show ?thesis using False by simp
  qed
qed

section \<open>Transactions\<close>

text \<open>The witness stacks of the inputs.\<close>

interpretation stackc: codec "VectorSer bytes_ser" "VectorUnser bytes_unser"
  "\<lambda>v. list_all (\<lambda>w. list_all (\<lambda>_. True) w \<and> length w \<le> unat MAX_SIZE) v \<and> length v \<le> unat MAX_SIZE"
  by (rule bytesc.vector_codec)

definition stack_ok :: "bytes list \<Rightarrow> bool" where
  "stack_ok v \<longleftrightarrow> list_all (\<lambda>w. length w \<le> unat MAX_SIZE) v \<and> length v \<le> unat MAX_SIZE"

lemma stack_iff: "VectorUnser bytes_unser s = Inr (v, rest) \<longleftrightarrow> stack_ok v \<and> s = VectorSer bytes_ser v @ rest"
  unfolding stackc.dec_iff stack_ok_def by (simp add: list_all_iff)

abbreviation no_witness :: "CTxIn \<Rightarrow> CTxIn" where
  "no_witness t \<equiv> t\<lparr>scriptWitness := []\<rparr>"

definition witness_ser :: "CTxIn list \<Rightarrow> bytes" where
  "witness_ser ts = concat (map (\<lambda>t. VectorSer bytes_ser (scriptWitness t)) ts)"

lemma no_witness_id: "scriptWitness t = [] \<Longrightarrow> no_witness t = t"
  by (cases t) simp

lemma read_witnesses_iff:
  "list_all (\<lambda>t. scriptWitness t = []) ts \<Longrightarrow>
    read_witnesses ts s = Inr (us, rest) \<longleftrightarrow>
      map no_witness us = ts \<and> list_all (\<lambda>t. stack_ok (scriptWitness t)) us \<and> s = witness_ser us @ rest"
proof (induction ts arbitrary: s us)
  case Nil
  show ?case by (cases us) (auto simp: witness_ser_def)
next
  case (Cons t ts)
  show ?case
  proof (cases us)
    case Nil
    then show ?thesis by auto
  next
    case (Cons u vs)
    have t: "no_witness t = t" using Cons.prems by (intro no_witness_id) simp
    have "read_witnesses (t # ts) s = Inr (us, rest) \<longleftrightarrow> (\<exists>w s1. stack_ok w \<and> s = VectorSer bytes_ser w @ s1 \<and>
        u = t\<lparr>scriptWitness := w\<rparr> \<and> read_witnesses ts s1 = Inr (vs, rest))"
      by (auto simp: Cons stack_iff)
    also have "\<dots> \<longleftrightarrow> (\<exists>w s1. stack_ok w \<and> s = VectorSer bytes_ser w @ s1 \<and> u = t\<lparr>scriptWitness := w\<rparr> \<and>
        map no_witness vs = ts \<and> list_all (\<lambda>t. stack_ok (scriptWitness t)) vs \<and> s1 = witness_ser vs @ rest)"
      using Cons.IH Cons.prems by simp
    also have "\<dots> \<longleftrightarrow> stack_ok (scriptWitness u) \<and> no_witness u = t \<and> map no_witness vs = ts \<and>
        list_all (\<lambda>t. stack_ok (scriptWitness t)) vs \<and> s = VectorSer bytes_ser (scriptWitness u) @ witness_ser vs @ rest"
    proof -
      have "u = t\<lparr>scriptWitness := w\<rparr> \<longleftrightarrow> no_witness u = t \<and> scriptWitness u = w" for w
        using t by (cases u; cases t) auto
      then show ?thesis by auto
    qed
    finally show ?thesis by (auto simp: Cons witness_ser_def)
  qed
qed

text \<open>A transaction whose parts fit their formats; without inputs it has no outputs either.\<close>

definition tx_ok :: "CTransaction \<Rightarrow> bool" where
  "tx_ok tx \<longleftrightarrow> (let fCT = (nVersion tx = CT_VERSION) in
     list_all (\<lambda>t. txin_ok fCT (no_witness t) \<and> stack_ok (scriptWitness t)) (vin tx) \<and>
     list_all (txout_ok fCT) (vout tx) \<and>
     length (vin tx) \<le> unat MAX_SIZE \<and> length (vout tx) \<le> unat MAX_SIZE \<and> (vin tx = [] \<longrightarrow> vout tx = []))"

lemma ins_iff:
  "VectorUnser (CTxIn_Unserialize fCT) s = Inr (v, rest) \<longleftrightarrow>
    (list_all (txin_ok fCT) v \<and> length v \<le> unat MAX_SIZE) \<and> s = VectorSer (CTxIn_Serialize fCT) v @ rest"
  by (rule txinc.VectorUnser_iff)

lemma outs_iff:
  "VectorUnser (CTxOut_Unserialize fCT) s = Inr (v, rest) \<longleftrightarrow>
    (list_all (txout_ok fCT) v \<and> length v \<le> unat MAX_SIZE) \<and> s = VectorSer (CTxOut_Serialize fCT) v @ rest"
  by (rule txoutc.VectorUnser_iff)

lemma CTxIn_Serialize_no_witness [simp]: "CTxIn_Serialize fCT (no_witness t) = CTxIn_Serialize fCT t"
  by (simp add: CTxIn_Serialize_def)

lemma ins_ser_no_witness: "VectorSer (CTxIn_Serialize fCT) (map no_witness v) = VectorSer (CTxIn_Serialize fCT) v"
  by (simp add: VectorSer_def o_def)

lemma VectorSer_Nil: "VectorSer f [] = [0]"
  by (simp add: VectorSer_def WriteCompactSize_def ser_writedata8_def)

abbreviation ins_ok :: "bool \<Rightarrow> CTxIn list \<Rightarrow> bool" where
  "ins_ok fCT v \<equiv> list_all (txin_ok fCT) v \<and> length v \<le> unat MAX_SIZE"

abbreviation outs_ok :: "bool \<Rightarrow> CTxOut list \<Rightarrow> bool" where
  "outs_ok fCT v \<equiv> list_all (txout_ok fCT) v \<and> length v \<le> unat MAX_SIZE"

abbreviation ins_ser :: "bool \<Rightarrow> CTxIn list \<Rightarrow> bytes" where
  "ins_ser fCT \<equiv> VectorSer (CTxIn_Serialize fCT)"

abbreviation outs_ser :: "bool \<Rightarrow> CTxOut list \<Rightarrow> bytes" where
  "outs_ser fCT \<equiv> VectorSer (CTxOut_Serialize fCT)"

lemma ins_nil_iff: "VectorUnser (CTxIn_Unserialize fCT) s = Inr ([], rest) \<longleftrightarrow> s = 0 # rest"
  unfolding ins_iff by (simp add: VectorSer_Nil)

lemma read_ins_outs:
  "ebind (VectorUnser (CTxIn_Unserialize fCT) s) (\<lambda>(ins, s).
     ebind (VectorUnser (CTxOut_Unserialize fCT) s) (\<lambda>(outs, s). Inr ((f, ins, outs), s))) = Inr ((fl, ins, outs), rest) \<longleftrightarrow>
    fl = f \<and> ins_ok fCT ins \<and> outs_ok fCT outs \<and> s = ins_ser fCT ins @ outs_ser fCT outs @ rest"
  by (auto simp: ins_iff outs_iff)

lemma read_vectors_iff:
  "tx_read_vectors True fCT s = Inr ((fl, ins, outs), rest) \<longleftrightarrow>
    (fl = 0 \<and> ins \<noteq> [] \<and> ins_ok fCT ins \<and> outs_ok fCT outs \<and> s = ins_ser fCT ins @ outs_ser fCT outs @ rest) \<or>
    (fl = 0 \<and> ins = [] \<and> outs = [] \<and> s = 0 # 0 # rest) \<or>
    (fl \<noteq> 0 \<and> ins_ok fCT ins \<and> outs_ok fCT outs \<and> s = 0 # fl # ins_ser fCT ins @ outs_ser fCT outs @ rest)"
proof (cases "VectorUnser (CTxIn_Unserialize fCT) s")
  case (Inl e)
  have "s \<noteq> 0 # t" for t using Inl ins_nil_iff [of fCT s t] by auto
  moreover have "\<not> (ins_ok fCT ins \<and> s = ins_ser fCT ins @ t)" for t using Inl ins_iff [of fCT s ins t] by auto
  ultimately show ?thesis using Inl by (simp add: tx_read_vectors_def)
next
  case (Inr p)
  then obtain i s1 where v: "VectorUnser (CTxIn_Unserialize fCT) s = Inr (i, s1)" by (cases p) auto
  then have s: "ins_ok fCT i" "s = ins_ser fCT i @ s1" unfolding ins_iff by auto
  show ?thesis
  proof (cases "i = []")
    case False
    have ne: "s \<noteq> 0 # t" for t using v False ins_nil_iff [of fCT s t] by auto
    have "tx_read_vectors True fCT s = Inr ((fl, ins, outs), rest) \<longleftrightarrow>
        fl = 0 \<and> ins = i \<and> outs_ok fCT outs \<and> s1 = outs_ser fCT outs @ rest"
      using False v by (auto simp: tx_read_vectors_def outs_iff)
    also have "\<dots> \<longleftrightarrow> fl = 0 \<and> ins \<noteq> [] \<and> ins_ok fCT ins \<and> outs_ok fCT outs \<and> s = ins_ser fCT ins @ outs_ser fCT outs @ rest"
      using False v ins_iff [of fCT s ins "outs_ser fCT outs @ rest"] by auto
    finally show ?thesis using ne by simp
  next
    case True
    then have z: "s = 0 # s1" using s by (simp add: VectorSer_Nil)
    have np: "\<not> (ins \<noteq> [] \<and> ins_ok fCT ins \<and> s = ins_ser fCT ins @ t)" for t
      using v True ins_iff [of fCT s ins t] by auto
    show ?thesis
    proof (cases s1)
      case Nil
      then show ?thesis using True v np by (auto simp: tx_read_vectors_def readdata8_simps z)
    next
      case (Cons f s2)
      have "tx_read_vectors True fCT s = Inr ((fl, ins, outs), rest) \<longleftrightarrow>
         (if f \<noteq> 0 then fl = f \<and> ins_ok fCT ins \<and> outs_ok fCT outs \<and> s2 = ins_ser fCT ins @ outs_ser fCT outs @ rest
          else fl = 0 \<and> ins = [] \<and> outs = [] \<and> s2 = rest)"
        using v True read_ins_outs [of fCT s2 f fl ins outs rest]
        by (simp add: tx_read_vectors_def Cons readdata8_simps) auto
      then show ?thesis using np by (simp add: z Cons) auto
    qed
  qed
qed

lemma read_flags_iff:
  "tx_read_flags True fl ins s = Inr ((fl', ins'), rest) \<longleftrightarrow>
    (if fl AND 1 \<noteq> 0 then fl' = fl XOR 1 \<and> read_witnesses ins s = Inr (ins', rest) \<and> list_ex (\<lambda>t. scriptWitness t \<noteq> []) ins'
     else fl' = fl \<and> ins' = ins \<and> s = rest)"
  by (auto simp: tx_read_flags_def)

lemma xor_1_eq_0: "(fl :: byte) XOR 1 = 0 \<longleftrightarrow> fl = 1"
proof
  assume h: "fl XOR 1 = 0"
  have "fl = (fl XOR 1) XOR 1" by (simp only: xor.assoc xor_self_eq xor.right_neutral)
  with h show "fl = 1" by simp
qed simp

text \<open>Both optional parts at once: the flag is 1 and witnesses follow, or there is no flag.\<close>

lemma read_parts_iff:
  "(\<exists>fl ins0 s2. tx_read_vectors True fCT s = Inr ((fl, ins0, outs), s2) \<and> tx_read_flags True fl ins0 s2 = Inr ((0, ins), rest)) \<longleftrightarrow>
    (ins \<noteq> [] \<and> ins_ok fCT ins \<and> outs_ok fCT outs \<and> s = ins_ser fCT ins @ outs_ser fCT outs @ rest) \<or>
    (ins = [] \<and> outs = [] \<and> s = 0 # 0 # rest) \<or>
    (ins_ok fCT (map no_witness ins) \<and> outs_ok fCT outs \<and> list_all (\<lambda>t. stack_ok (scriptWitness t)) ins \<and>
     list_ex (\<lambda>t. scriptWitness t \<noteq> []) ins \<and>
     s = 0 # 1 # ins_ser fCT (map no_witness ins) @ outs_ser fCT outs @ witness_ser ins @ rest)"
  (is "?L \<longleftrightarrow> ?P \<or> ?E \<or> ?W")
proof
  assume ?L
  then obtain fl ins0 s2 where v: "tx_read_vectors True fCT s = Inr ((fl, ins0, outs), s2)"
    and f: "tx_read_flags True fl ins0 s2 = Inr ((0, ins), rest)" by blast
  show "?P \<or> ?E \<or> ?W"
  proof (cases "fl = 0")
    case True
    then have "ins = ins0" "s2 = rest" using f by (simp_all add: read_flags_iff)
    then show ?thesis using v True by (simp add: read_vectors_iff) blast
  next
    case False
    then have w: "ins_ok fCT ins0" "outs_ok fCT outs" "s = 0 # fl # ins_ser fCT ins0 @ outs_ser fCT outs @ s2"
      using v by (simp_all add: read_vectors_iff)
    have fl: "fl = 1" "read_witnesses ins0 s2 = Inr (ins, rest)" "list_ex (\<lambda>t. scriptWitness t \<noteq> []) ins"
      using f False by (auto simp: read_flags_iff xor_1_eq_0 split: if_splits)
    have "list_all (\<lambda>t. scriptWitness t = []) ins0" using w(1) by (auto simp: list_all_iff txin_ok_def)
    with fl(2) have "map no_witness ins = ins0" "list_all (\<lambda>t. stack_ok (scriptWitness t)) ins" "s2 = witness_ser ins @ rest"
      by (simp_all add: read_witnesses_iff)
    then have ?W using w fl by simp
    then show ?thesis by blast
  qed
next
  assume "?P \<or> ?E \<or> ?W"
  then consider ?P | ?E | ?W by blast
  then show ?L
  proof cases
    case 1
    then show ?thesis by (intro exI [of _ 0] exI [of _ ins] exI [of _ rest]) (simp add: read_vectors_iff read_flags_iff)
  next
    case 2
    then show ?thesis by (intro exI [of _ 0] exI [of _ "[]"] exI [of _ rest]) (simp add: read_vectors_iff read_flags_iff)
  next
    case 3
    then have "read_witnesses (map no_witness ins) (witness_ser ins @ rest) = Inr (ins, rest)"
      by (subst read_witnesses_iff) (simp_all add: list_all_iff)
    with 3 show ?thesis
      by (intro exI [of _ 1] exI [of _ "map no_witness ins"] exI [of _ "witness_ser ins @ rest"])
        (simp add: read_vectors_iff read_flags_iff)
  qed
qed

lemma no_witness_ins: "\<not> list_ex (\<lambda>t. scriptWitness t \<noteq> []) ins \<Longrightarrow> map no_witness ins = ins"
  by (auto simp: list_ex_iff intro!: map_idI no_witness_id)

lemma tx_iff: "UnserializeTransaction True s = Inr (tx, rest) \<longleftrightarrow> tx_ok tx \<and> s = SerializeTransaction True tx @ rest"
proof -
  obtain ins outs ver lt where tx: "tx = \<lparr>vin = ins, vout = outs, nVersion = ver, nLockTime = lt\<rparr>" by (cases tx)
  let ?ct = "ver = CT_VERSION" and ?tail = "ser_writedata32 lt @ rest"
  have "UnserializeTransaction True s = Inr (tx, rest) \<longleftrightarrow> (\<exists>s1. s = ser_writedata32 ver @ s1 \<and>
      (\<exists>fl ins0 s2. tx_read_vectors True ?ct s1 = Inr ((fl, ins0, outs), s2) \<and> tx_read_flags True fl ins0 s2 = Inr ((0, ins), ?tail)))"
    by (auto simp: UnserializeTransaction_def tx ser_iff split: if_splits) blast
  also have "\<dots> \<longleftrightarrow> tx_ok tx \<and> s = SerializeTransaction True tx @ rest"
  proof (cases "list_ex (\<lambda>t. scriptWitness t \<noteq> []) ins")
    case True
    then have "HasWitness tx" "ins \<noteq> []" by (auto simp: HasWitness_def tx)
    moreover from this have "SerializeTransaction True tx @ rest = ser_writedata32 ver @ 0 # 1 #
        ins_ser ?ct (map no_witness ins) @ outs_ser ?ct outs @ witness_ser ins @ ?tail"
      by (simp add: SerializeTransaction_def tx VectorSer_Nil ser_writedata8_def witness_ser_def ins_ser_no_witness Let_def)
    moreover have "\<not> ins_ok ?ct ins" using True by (auto simp: list_all_iff list_ex_iff txin_ok_def)
    moreover have "tx_ok tx \<longleftrightarrow> ins_ok ?ct (map no_witness ins) \<and> outs_ok ?ct outs \<and> list_all (\<lambda>t. stack_ok (scriptWitness t)) ins"
      using \<open>ins \<noteq> []\<close> by (auto simp: tx_ok_def tx Let_def list_all_iff)
    ultimately show ?thesis unfolding read_parts_iff using True by auto
  next
    case False
    then have s: "SerializeTransaction True tx @ rest = ser_writedata32 ver @ ins_ser ?ct ins @ outs_ser ?ct outs @ ?tail"
      by (simp add: SerializeTransaction_def tx HasWitness_def Let_def)
    have "stack_ok (scriptWitness t)" if "t \<in> set ins" for t
      using False that by (auto simp: list_ex_iff stack_ok_def)
    then have "tx_ok tx \<longleftrightarrow> ins_ok ?ct (map no_witness ins) \<and> outs_ok ?ct outs \<and> (ins = [] \<longrightarrow> outs = [])"
      by (auto simp: tx_ok_def tx Let_def list_all_iff)
    then show ?thesis unfolding read_parts_iff s no_witness_ins [OF False] using False
      by (cases "ins = []") (auto simp: VectorSer_Nil)
  qed
  finally show ?thesis .
qed

interpretation txc: codec "SerializeTransaction True" "UnserializeTransaction True" tx_ok
  by (rule codecI) (rule tx_iff)

end
