(* ===== verification/Tx_Check.thy ===== *)
theory Tx_Check
  imports Tx
begin

text \<open>
  The rules on transactions: \<^verbatim>\<open>src/consensus/tx_check.cpp\<close>, \<open>CheckTxInputs\<close> of
  \<^verbatim>\<open>src/consensus/tx_verify.cpp\<close> and \<^verbatim>\<open>src/confidential_validation.cpp\<close>. A check returns the
  reason of the rejection (\<open>Inl\<close>) or accepts (\<open>Inr\<close>); \<open>None\<close> is a failed assertion, an exception or
  a signed overflow. The elliptic-curve library is a parameter (\<open>pedersen\<close>): its commitments are
  elements of a commutative group, of which the code only uses what the record lists.
\<close>

section \<open>Context-free checks\<close>

definition MAX_BLOCK_WEIGHT :: nat where "MAX_BLOCK_WEIGHT = 4000000"
definition WITNESS_SCALE_FACTOR :: nat where "WITNESS_SCALE_FACTOR = 4"

fun check_outputs :: "int \<Rightarrow> CTxOut list \<Rightarrow> (string + unit) option" where
  "check_outputs nValueOut [] = Some (Inr ())"
| "check_outputs nValueOut (txout # ts) =
     (if \<not> IsExplicit (nValue txout) then check_outputs nValueOut ts
      else if GetAmount (nValue txout) < 0 then Some (Inl ''bad-txns-vout-negative'')
      else if GetAmount (nValue txout) > MAX_MONEY then Some (Inl ''bad-txns-vout-toolarge'')
      else do {
        v \<leftarrow> i64 (nValueOut + GetAmount (nValue txout));
        if \<not> MoneyRange v then Some (Inl ''bad-txns-txouttotal-toolarge'') else check_outputs v ts
      })"

text \<open>Inserting the inputs into a set, one by one.\<close>

fun check_duplicates :: "COutPoint set \<Rightarrow> CTxIn list \<Rightarrow> string + unit" where
  "check_duplicates vInOutPoints [] = Inr ()"
| "check_duplicates vInOutPoints (txin # ts) =
     (if prevout txin \<in> vInOutPoints then Inl ''bad-txns-inputs-duplicate''
      else check_duplicates (insert (prevout txin) vInOutPoints) ts)"

definition check_prevouts :: "CTransaction \<Rightarrow> string + unit" where
  "check_prevouts tx =
     (if IsCoinBase tx then
        if length (scriptSig (vin tx ! 0)) < 2 \<or> length (scriptSig (vin tx ! 0)) > 100 then Inl ''bad-cb-length'' else Inr ()
      else if list_ex (\<lambda>txin. COutPoint_IsNull (prevout txin)) (vin tx) then Inl ''bad-txns-prevout-null'' else Inr ())"

definition CheckTransaction :: "CTransaction \<Rightarrow> (string + unit) option" where
  "CheckTransaction tx =
     (if sint (nVersion tx) < 1 \<or> sint (nVersion tx) > sint CT_VERSION then Some (Inl ''bad-txns-version'')
      else if nVersion tx \<noteq> CT_VERSION \<and>
        list_ex (\<lambda>txout. IsCommitment (nValue txout) \<or> vchRangeproof txout \<noteq> []) (vout tx) then Some (Inl ''bad-txns-nonct-commitment'')
      else if nVersion tx = CT_VERSION \<and> list_ex (\<lambda>txin. \<not> conf_IsNull (in_nValue txin)) (vin tx) then
        Some (Inl ''bad-txns-ct-input-value'')
      else if vin tx = [] then Some (Inl ''bad-txns-vin-empty'')
      else if vout tx = [] then Some (Inl ''bad-txns-vout-empty'')
      else if length (SerializeTransaction False tx) * WITNESS_SCALE_FACTOR > MAX_BLOCK_WEIGHT then Some (Inl ''bad-txns-oversize'')
      else do {
        r \<leftarrow> check_outputs 0 (vout tx);
        Some (ebind r (\<lambda>_. ebind (check_duplicates {} (vin tx)) (\<lambda>_. check_prevouts tx)))
      })"

section \<open>The balance of a confidential transaction\<close>

text \<open>
  What the code uses of the library: parsing a commitment, the generator \<open>H\<close> with its multiples,
  the verification of a range proof (with the smallest and the largest value it allows), and the
  comparison of two sums of commitments. A commitment that is the point at infinity cannot be
  represented: making one fails.
\<close>

record 'g pedersen =
  commitment_parse :: "bytes \<Rightarrow> 'g option"
  generator_h :: 'g
  rangeproof_verify :: "'g \<Rightarrow> bytes \<Rightarrow> (u64 \<times> u64) option"

primrec smul :: "nat \<Rightarrow> 'g :: ab_group_add \<Rightarrow> 'g" where
  "smul 0 g = 0"
| "smul (Suc k) g = g + smul k g"

definition ExplicitCommit :: "'g :: ab_group_add pedersen \<Rightarrow> int \<Rightarrow> 'g option" where
  "ExplicitCommit lib value = (let c = smul (unat (word_of_int value :: u64)) (generator_h lib) in
     if c = 0 then None else Some c)"

definition pedersen_verify_tally :: "'g :: ab_group_add list \<Rightarrow> 'g list \<Rightarrow> bool" where
  "pedersen_verify_tally commits ncommits \<longleftrightarrow> sum_list commits = sum_list ncommits"

definition VerifyRangeProof :: "'g :: ab_group_add pedersen \<Rightarrow> CTxOut \<Rightarrow> bool" where
  "VerifyRangeProof lib out =
     (if \<not> IsCommitment (nValue out) then True
      else if vchRangeproof out = [] then False
      else if length (vchRangeproof out) > MAX_RANGEPROOF_SIZE then False
      else case commitment_parse lib (nValue out) of None \<Rightarrow> False
        | Some commit \<Rightarrow> (case rangeproof_verify lib commit (vchRangeproof out) of None \<Rightarrow> False
            | Some (min_value, max_value) \<Rightarrow> \<not> max_value > word_of_int MAX_MONEY))"

text \<open>The commitment of a value, explicit or not; \<open>None\<close> rejects the transaction.\<close>

definition value_commit :: "'g :: ab_group_add pedersen \<Rightarrow> bytes \<Rightarrow> 'g option" where
  "value_commit lib v =
     (if conf_IsNull v then None
      else if IsExplicit v then
        if \<not> MoneyRange (GetAmount v) then None else ExplicitCommit lib (GetAmount v)
      else if IsCommitment v then commitment_parse lib v
      else None)"

fun tally_inputs :: "'g :: ab_group_add pedersen \<Rightarrow> CTxOut list \<Rightarrow> 'g list option" where
  "tally_inputs lib [] = Some []"
| "tally_inputs lib (i # is) = do { c \<leftarrow> value_commit lib (nValue i); cs \<leftarrow> tally_inputs lib is; Some (c # cs) }"

text \<open>The loop over the outputs, with the fee so far: the total fee and the commitments.\<close>

fun tally_outputs :: "'g :: ab_group_add pedersen \<Rightarrow> int \<Rightarrow> CTxOut list \<Rightarrow> (int \<times> 'g list) option" where
  "tally_outputs lib total_fee [] = Some (total_fee, [])"
| "tally_outputs lib total_fee (out # os) = do {
     total_fee \<leftarrow>
       (if IsFee out then
          if \<not> IsExplicit (nValue out) \<or> GetAmount (nValue out) \<le> 0 \<or> \<not> MoneyRange (GetAmount (nValue out)) then None
          else if \<not> MoneyRange (total_fee + GetAmount (nValue out)) then None
          else Some (total_fee + GetAmount (nValue out))
        else Some total_fee);
     c \<leftarrow> value_commit lib (nValue out);
     if \<not> IsExplicit (nValue out) \<and> \<not> VerifyRangeProof lib out then None
     else do { (fee, cs) \<leftarrow> tally_outputs lib total_fee os; Some (fee, c # cs) }
   }"

text \<open>\<open>Some fee\<close> when the amounts verify; the outer \<open>None\<close> is a failed assertion.\<close>

definition VerifyAmounts :: "'g :: ab_group_add pedersen \<Rightarrow> CTxOut list \<Rightarrow> CTransaction \<Rightarrow> int option option" where
  "VerifyAmounts lib inputs tx = do {
     assertion (\<not> IsCoinBase tx);
     assertion (length inputs = length (vin tx));
     Some (do {
       ins \<leftarrow> tally_inputs lib inputs;
       (total_fee, outs) \<leftarrow> tally_outputs lib 0 (vout tx);
       let has_confidential_output = list_ex (\<lambda>out. IsCommitment (nValue out)) (vout tx);
       if has_confidential_output \<and> total_fee \<le> 0 then None
       else if \<not> pedersen_verify_tally ins outs then None
       else Some total_fee
     })
   }"

section \<open>The inputs of a transaction\<close>

record Coin =
  out :: CTxOut
  fCoinBase :: bool
  coin_nHeight :: int

definition COINBASE_MATURITY :: int where "COINBASE_MATURITY = 100"

definition HaveInputs :: "(COutPoint \<Rightarrow> Coin option) \<Rightarrow> CTransaction \<Rightarrow> bool" where
  "HaveInputs view tx \<longleftrightarrow> IsCoinBase tx \<or> list_all (\<lambda>txin. view (prevout txin) \<noteq> None) (vin tx)"

text \<open>The loop that collects the outputs being spent.\<close>

fun collect_prevouts :: "(COutPoint \<Rightarrow> Coin option) \<Rightarrow> int \<Rightarrow> CTxIn list \<Rightarrow> (string + CTxOut list) option" where
  "collect_prevouts view nSpendHeight [] = Some (Inr [])"
| "collect_prevouts view nSpendHeight (t # ts) = do {
     coin \<leftarrow> view (prevout t);
     if fCoinBase coin \<and> nSpendHeight - coin_nHeight coin < COINBASE_MATURITY then
       Some (Inl ''bad-txns-premature-spend-of-coinbase'')
     else do { r \<leftarrow> collect_prevouts view nSpendHeight ts; Some (ebind r (\<lambda>os. Inr (out coin # os))) }
   }"

fun sum_inputs :: "int \<Rightarrow> CTxOut list \<Rightarrow> (string + int) option" where
  "sum_inputs nValueIn [] = Some (Inr nValueIn)"
| "sum_inputs nValueIn (p # ps) = do {
     v \<leftarrow> i64 (nValueIn + GetAmount (nValue p));
     if \<not> MoneyRange (GetAmount (nValue p)) \<or> \<not> MoneyRange v then Some (Inl ''bad-txns-inputvalues-outofrange'')
     else sum_inputs v ps
   }"

definition nonce_shape_ok :: "CTxOut \<Rightarrow> bool" where
  "nonce_shape_ok o' \<longleftrightarrow> conf_IsNull (nNonce o') \<or>
     (length (nNonce o') = 33 \<and> (nNonce o' ! 0 = 3 \<or> nNonce o' ! 0 = 4))"

fun check_ct_outputs :: "int \<Rightarrow> int \<Rightarrow> CTxOut list \<Rightarrow> string + unit" where
  "check_ct_outputs nSpendHeight nBanPathAHeight [] = Inr ()"
| "check_ct_outputs nSpendHeight nBanPathAHeight (o' # os) =
     (if length (vchRangeproof o') > MAX_RANGEPROOF_SIZE then Inl ''bad-txns-rangeproof-too-large''
      else if nSpendHeight \<ge> nBanPathAHeight \<and> \<not> nonce_shape_ok o' then Inl ''bad-ct-legacy-nonce''
      else check_ct_outputs nSpendHeight nBanPathAHeight os)"

definition check_plain_amounts :: "CTxOut list \<Rightarrow> CTransaction \<Rightarrow> (string + int) option" where
  "check_plain_amounts prevouts tx = do {
     r \<leftarrow> sum_inputs 0 prevouts;
     case r of Inl e \<Rightarrow> Some (Inl e) | Inr nValueIn \<Rightarrow> do {
       value_out \<leftarrow> GetValueOut tx;
       if nValueIn < value_out then Some (Inl ''bad-txns-in-belowout'')
       else do {
         txfee_aux \<leftarrow> i64 (nValueIn - value_out);
         Some (if \<not> MoneyRange txfee_aux then Inl ''bad-txns-fee-outofrange'' else Inr txfee_aux)
       }
     }
   }"

definition check_ct_amounts :: "'g :: ab_group_add pedersen \<Rightarrow> int \<Rightarrow> int \<Rightarrow> CTxOut list \<Rightarrow> CTransaction \<Rightarrow> (string + int) option" where
  "check_ct_amounts lib nSpendHeight nBanPathAHeight prevouts tx =
     (case check_ct_outputs nSpendHeight nBanPathAHeight (vout tx) of Inl e \<Rightarrow> Some (Inl e) | Inr _ \<Rightarrow>
      if list_ex (\<lambda>txin. \<not> conf_IsNull (in_nValue txin)) (vin tx) then Some (Inl ''bad-txns-ct-input-value'')
      else do {
        r \<leftarrow> VerifyAmounts lib prevouts tx;
        Some (case r of None \<Rightarrow> Inl ''bad-txns-ct-balance'' | Some txfee \<Rightarrow> Inr txfee)
      })"

definition CheckTxInputs ::
  "'g :: ab_group_add pedersen \<Rightarrow> bool \<Rightarrow> CTransaction \<Rightarrow> (COutPoint \<Rightarrow> Coin option) \<Rightarrow> int \<Rightarrow> int \<Rightarrow> int \<Rightarrow> (string + int) option" where
  "CheckTxInputs lib g_con_elementsmode tx view nSpendHeight nCTActivationHeight nBanPathAHeight =
     (let fIsCT = (nVersion tx = CT_VERSION) in
      if sint (nVersion tx) < 1 \<or> sint (nVersion tx) > sint CT_VERSION then Some (Inl ''bad-txns-version'')
      else if fIsCT \<and> nSpendHeight < nCTActivationHeight then Some (Inl ''bad-ct-before-activation'')
      else if \<not> HaveInputs view tx then Some (Inl ''bad-txns-inputs-missingorspent'')
      else do {
        r \<leftarrow> collect_prevouts view nSpendHeight (vin tx);
        case r of Inl e \<Rightarrow> Some (Inl e) | Inr prevouts \<Rightarrow>
          if \<not> fIsCT \<and> list_ex (\<lambda>p. \<not> IsExplicit (nValue p)) prevouts then Some (Inl ''bad-txns-v2-spend-ct'')
          else if \<not> fIsCT \<and> list_ex (\<lambda>p. \<not> IsExplicit (nValue p)) (vout tx) then Some (Inl ''bad-txns-nonct-commitment'')
          else if fIsCT \<and> \<not> g_con_elementsmode then Some (Inl ''bad-txns-ct-mode-disabled'')
          else if fIsCT then check_ct_amounts lib nSpendHeight nBanPathAHeight prevouts tx
          else check_plain_amounts prevouts tx
      })"

section \<open>What the context-free checks establish\<close>

text \<open>The sum of the explicit amounts of a list of outputs.\<close>

definition amounts :: "CTxOut list \<Rightarrow> int list" where
  "amounts os = map (\<lambda>t. GetAmount (nValue t)) (filter (\<lambda>t. IsExplicit (nValue t)) os)"

lemma amounts_simps [simp]:
  "amounts [] = []"
  "amounts (t # ts) = (if IsExplicit (nValue t) then GetAmount (nValue t) # amounts ts else amounts ts)"
  by (simp_all add: amounts_def)

lemma money_i64: "MoneyRange a \<Longrightarrow> MoneyRange b \<Longrightarrow> i64 (a + b) = Some (a + b)" "MoneyRange a \<Longrightarrow> MoneyRange b \<Longrightarrow> i64 (a - b) = Some (a - b)"
  by (simp_all add: MoneyRange_def MAX_MONEY_def COIN_def int_limits i64_def)

lemma check_outputs_total:
  "MoneyRange v \<Longrightarrow> \<exists>r. check_outputs v os = Some r"
proof (induction os arbitrary: v)
  case (Cons t ts)
  show ?case
  proof (cases "IsExplicit (nValue t) \<and> 0 \<le> GetAmount (nValue t) \<and> GetAmount (nValue t) \<le> MAX_MONEY")
    case True
    then have "i64 (v + GetAmount (nValue t)) = Some (v + GetAmount (nValue t))"
      using Cons.prems by (intro money_i64) (simp_all add: MoneyRange_def)
    then show ?thesis using True Cons by simp
  next
    case False
    then show ?thesis using Cons by auto
  qed
qed simp

lemma check_outputs_sound:
  "MoneyRange v \<Longrightarrow> check_outputs v os = Some (Inr ()) \<Longrightarrow>
    list_all MoneyRange (amounts os) \<and> MoneyRange (v + sum_list (amounts os))"
proof (induction os arbitrary: v)
  case (Cons t ts)
  show ?case
  proof (cases "IsExplicit (nValue t)")
    case True
    let ?a = "GetAmount (nValue t)"
    have a: "MoneyRange ?a" using Cons.prems(2) True by (auto simp: MoneyRange_def split: if_splits)
    then have "i64 (v + ?a) = Some (v + ?a)" using Cons.prems(1) by (intro money_i64)
    then have "MoneyRange (v + ?a)" "check_outputs (v + ?a) ts = Some (Inr ())"
      using Cons.prems(2) True a by (auto simp: MoneyRange_def split: if_splits)
    with Cons.IH [of "v + ?a"] a True show ?thesis by (simp add: add.assoc)
  next
    case False
    with Cons show ?thesis by simp
  qed
qed simp

lemma check_duplicates_iff:
  "check_duplicates S ts = Inr () \<longleftrightarrow> distinct (map prevout ts) \<and> set (map prevout ts) \<inter> S = {}"
  by (induction ts arbitrary: S) auto

lemma CheckTransaction_total: "\<exists>r. CheckTransaction tx = Some r"
  using check_outputs_total [of 0 "vout tx"] by (auto simp: CheckTransaction_def MoneyRange_def MAX_MONEY_def COIN_def)

lemma CheckTransaction_sound:
  assumes "CheckTransaction tx = Some (Inr ())"
  shows "sint (nVersion tx) \<in> {1..3}" and "vin tx \<noteq> []" and "vout tx \<noteq> []"
    and "list_all MoneyRange (amounts (vout tx))" and "MoneyRange (sum_list (amounts (vout tx)))"
    and "distinct (map prevout (vin tx))"
    and "nVersion tx \<noteq> CT_VERSION \<Longrightarrow> t \<in> set (vout tx) \<Longrightarrow> \<not> IsCommitment (nValue t) \<and> vchRangeproof t = []"
    and "nVersion tx = CT_VERSION \<Longrightarrow> i \<in> set (vin tx) \<Longrightarrow> in_nValue i = []"
    and "\<not> IsCoinBase tx \<Longrightarrow> i \<in> set (vin tx) \<Longrightarrow> \<not> COutPoint_IsNull (prevout i)"
    and "4 * length (SerializeTransaction False tx) \<le> 4000000"
proof -
  have k: "\<not> (sint (nVersion tx) < 1 \<or> sint (nVersion tx) > sint CT_VERSION)"
    "\<not> (nVersion tx \<noteq> CT_VERSION \<and> list_ex (\<lambda>txout. IsCommitment (nValue txout) \<or> vchRangeproof txout \<noteq> []) (vout tx))"
    "\<not> (nVersion tx = CT_VERSION \<and> list_ex (\<lambda>txin. \<not> conf_IsNull (in_nValue txin)) (vin tx))"
    "vin tx \<noteq> []" "vout tx \<noteq> []" "\<not> length (SerializeTransaction False tx) * WITNESS_SCALE_FACTOR > MAX_BLOCK_WEIGHT"
    using assms unfolding CheckTransaction_def by (auto split: if_splits)
  then have "check_outputs 0 (vout tx) \<bind>
      (\<lambda>r. Some (ebind r (\<lambda>_. ebind (check_duplicates {} (vin tx)) (\<lambda>_. check_prevouts tx)))) = Some (Inr ())"
    using assms by (simp only: CheckTransaction_def if_False)
  then have r: "check_outputs 0 (vout tx) = Some (Inr ())" "check_duplicates {} (vin tx) = Inr ()" "check_prevouts tx = Inr ()"
    by (auto simp: bind_eq_Some_conv)
  have "MoneyRange 0" by (simp add: MoneyRange_def MAX_MONEY_def COIN_def)
  from check_outputs_sound [OF this r(1)]
  show "list_all MoneyRange (amounts (vout tx))" "MoneyRange (sum_list (amounts (vout tx)))" by simp_all
  show "distinct (map prevout (vin tx))" using r(2) by (simp add: check_duplicates_iff)
  show "sint (nVersion tx) \<in> {1..3}" using k(1) by (simp add: CT_VERSION_def)
  show "vin tx \<noteq> []" "vout tx \<noteq> []" using k by auto
  show "nVersion tx \<noteq> CT_VERSION \<Longrightarrow> t \<in> set (vout tx) \<Longrightarrow> \<not> IsCommitment (nValue t) \<and> vchRangeproof t = []"
    using k(2) by (auto simp: list_ex_iff)
  show "nVersion tx = CT_VERSION \<Longrightarrow> i \<in> set (vin tx) \<Longrightarrow> in_nValue i = []"
    using k(3) by (auto simp: list_ex_iff conf_IsNull_def)
  show "\<not> IsCoinBase tx \<Longrightarrow> i \<in> set (vin tx) \<Longrightarrow> \<not> COutPoint_IsNull (prevout i)"
    using r(3) by (auto simp: check_prevouts_def list_ex_iff split: if_splits)
  show "4 * length (SerializeTransaction False tx) \<le> 4000000"
    using k(6) by (simp add: WITNESS_SCALE_FACTOR_def MAX_BLOCK_WEIGHT_def)
qed

text \<open>Outputs that carry value and outputs that carry the fee.\<close>

definition value_sum :: "CTxOut list \<Rightarrow> int" where
  "value_sum os = sum_list (amounts (filter (\<lambda>t. \<not> IsFee t) os))"

definition fee_sum :: "CTxOut list \<Rightarrow> int" where
  "fee_sum os = sum_list (amounts (filter IsFee os))"

lemma value_fee_sum: "value_sum os + fee_sum os = sum_list (amounts os)"
proof (induction os)
  case (Cons t ts)
  have "IsFee t \<Longrightarrow> IsExplicit (nValue t)" by (simp add: IsFee_def)
  with Cons show ?case by (auto simp: value_sum_def fee_sum_def)
qed (simp add: value_sum_def fee_sum_def)

lemma sums_nonneg:
  assumes "list_all MoneyRange (amounts os)"
  shows "0 \<le> value_sum os" and "0 \<le> fee_sum os"
  using assms by (auto simp: value_sum_def fee_sum_def amounts_def list_all_iff MoneyRange_def intro!: sum_list_nonneg)

lemma GetValueOut_loop_sum:
  "list_all MoneyRange (amounts os) \<Longrightarrow> MoneyRange v \<Longrightarrow> MoneyRange (v + sum_list (amounts os)) \<Longrightarrow>
    GetValueOut_loop v os = Some (v + value_sum os)"
proof (induction os arbitrary: v)
  case (Cons t ts)
  show ?case
  proof (cases "IsExplicit (nValue t)")
    case True
    let ?a = "GetAmount (nValue t)"
    have a: "MoneyRange ?a" "list_all MoneyRange (amounts ts)" using Cons.prems(1) True by simp_all
    have s: "sum_list (amounts (t # ts)) = ?a + sum_list (amounts ts)" using True by simp
    have "0 \<le> sum_list (amounts ts)" using sums_nonneg [OF a(2)] value_fee_sum [of ts] by linarith
    then have m: "MoneyRange (v + ?a)" "MoneyRange (v + sum_list (amounts ts))" "MoneyRange (v + ?a + sum_list (amounts ts))"
      using Cons.prems(2,3) a(1) unfolding s by (auto simp: MoneyRange_def)
    show ?thesis
    proof (cases "IsFee t")
      case f: True
      then show ?thesis using Cons.IH [OF a(2) Cons.prems(2) m(2)] True by (simp add: value_sum_def)
    next
      case f: False
      then show ?thesis using Cons.IH [OF a(2) m(1,3)] True money_i64(1) [OF Cons.prems(2) a(1)] m(1) a(1)
        by (simp add: value_sum_def add.assoc)
    qed
  next
    case False
    with Cons show ?thesis by (simp add: value_sum_def IsFee_def)
  qed
qed (simp add: value_sum_def)

lemma GetFeeOut_loop_sum:
  "list_all MoneyRange (amounts os) \<Longrightarrow> MoneyRange v \<Longrightarrow> MoneyRange (v + sum_list (amounts os)) \<Longrightarrow>
    GetFeeOut_loop v os = Some (v + fee_sum os)"
proof (induction os arbitrary: v)
  case (Cons t ts)
  show ?case
  proof (cases "IsExplicit (nValue t)")
    case True
    let ?a = "GetAmount (nValue t)"
    have a: "MoneyRange ?a" "list_all MoneyRange (amounts ts)" using Cons.prems(1) True by simp_all
    have s: "sum_list (amounts (t # ts)) = ?a + sum_list (amounts ts)" using True by simp
    have "0 \<le> sum_list (amounts ts)" using sums_nonneg [OF a(2)] value_fee_sum [of ts] by linarith
    then have m: "MoneyRange (v + ?a)" "MoneyRange (v + sum_list (amounts ts))" "MoneyRange (v + ?a + sum_list (amounts ts))"
      using Cons.prems(2,3) a(1) unfolding s by (auto simp: MoneyRange_def)
    show ?thesis
    proof (cases "IsFee t")
      case f: True
      then show ?thesis using Cons.IH [OF a(2) m(1,3)] True money_i64(1) [OF Cons.prems(2) a(1)]
        by (simp add: fee_sum_def add.assoc)
    next
      case f: False
      then show ?thesis using Cons.IH [OF a(2) Cons.prems(2) m(2)] True by (simp add: fee_sum_def)
    qed
  next
    case False
    with Cons show ?thesis by (simp add: fee_sum_def IsFee_def)
  qed
qed (simp add: fee_sum_def)

lemma money_0: "MoneyRange 0"
  by (simp add: MoneyRange_def MAX_MONEY_def COIN_def)

lemma checked_sums:
  assumes "CheckTransaction tx = Some (Inr ())"
  shows "GetValueOut tx = Some (value_sum (vout tx))" and "GetFeeOut tx = Some (fee_sum (vout tx))"
    and "MoneyRange (value_sum (vout tx) + fee_sum (vout tx))" and "0 \<le> value_sum (vout tx)" and "0 \<le> fee_sum (vout tx)"
  using GetValueOut_loop_sum [OF CheckTransaction_sound(4) [OF assms] money_0]
    GetFeeOut_loop_sum [OF CheckTransaction_sound(4) [OF assms] money_0] CheckTransaction_sound(4,5) [OF assms]
    sums_nonneg [OF CheckTransaction_sound(4) [OF assms]]
  by (simp_all add: GetValueOut_def GetFeeOut_def value_fee_sum)

section \<open>What the checks on the inputs establish\<close>

lemma collect_prevouts_sound:
  "collect_prevouts view h ts = Some (Inr ps) \<Longrightarrow>
    length ps = length ts \<and> (\<forall>i < length ts. \<exists>c. view (prevout (ts ! i)) = Some c \<and> ps ! i = out c \<and>
      (fCoinBase c \<longrightarrow> COINBASE_MATURITY \<le> h - coin_nHeight c))"
proof (induction ts arbitrary: ps)
  case (Cons t ts)
  from Cons.prems obtain c where c: "view (prevout t) = Some c" "\<not> (fCoinBase c \<and> h - coin_nHeight c < COINBASE_MATURITY)"
    by (auto simp: bind_eq_Some_conv split: if_splits)
  with Cons.prems obtain qs where q: "collect_prevouts view h ts = Some (Inr qs)" "ps = out c # qs"
    by (auto simp: bind_eq_Some_conv)
  show ?case
  proof (intro conjI allI impI)
    show "length ps = length (t # ts)" using Cons.IH [OF q(1)] q(2) by simp
    fix i assume "i < length (t # ts)"
    then show "\<exists>c. view (prevout ((t # ts) ! i)) = Some c \<and> ps ! i = out c \<and>
        (fCoinBase c \<longrightarrow> COINBASE_MATURITY \<le> h - coin_nHeight c)"
      using Cons.IH [OF q(1)] q(2) c by (cases i) auto
  qed
qed simp

lemma collect_prevouts_total:
  "list_all (\<lambda>t. view (prevout t) \<noteq> None) ts \<Longrightarrow> \<exists>r. collect_prevouts view h ts = Some r"
  by (induction ts) auto

lemma sum_inputs_sound:
  "MoneyRange v \<Longrightarrow> sum_inputs v ps = Some (Inr w) \<Longrightarrow>
    w = v + sum_list (map (\<lambda>p. GetAmount (nValue p)) ps) \<and> MoneyRange w \<and> list_all (\<lambda>p. MoneyRange (GetAmount (nValue p))) ps"
proof (induction ps arbitrary: v)
  case (Cons p ps)
  then have "MoneyRange (GetAmount (nValue p))" "MoneyRange (v + GetAmount (nValue p))"
    "sum_inputs (v + GetAmount (nValue p)) ps = Some (Inr w)"
    by (auto simp: bind_eq_Some_conv i64_eq_Some split: if_splits)
  with Cons.IH [of "v + GetAmount (nValue p)"] show ?case by auto
qed simp

lemma sum_inputs_total:
  "MoneyRange v \<Longrightarrow> list_all (\<lambda>p. MoneyRange (GetAmount (nValue p))) ps \<Longrightarrow> \<exists>r. sum_inputs v ps = Some r"
  by (induction ps arbitrary: v) (auto simp: money_i64)

lemma check_plain_sound:
  assumes "check_plain_amounts ps tx = Some (Inr fee)" and "CheckTransaction tx = Some (Inr ())"
  shows "sum_list (map (\<lambda>p. GetAmount (nValue p)) ps) = value_sum (vout tx) + fee" and "MoneyRange fee"
proof -
  obtain v where v: "sum_inputs 0 ps = Some (Inr v)" using assms(1)
    by (cases "sum_inputs 0 ps"; cases "the (sum_inputs 0 ps)") (auto simp: check_plain_amounts_def)
  have g: "GetValueOut tx = Some (value_sum (vout tx))" by (rule checked_sums [OF assms(2)])
  have "fee = v - value_sum (vout tx) \<and> MoneyRange fee"
    using assms(1) by (auto simp: check_plain_amounts_def v g bind_eq_Some_conv i64_eq_Some split: if_splits)
  then show "sum_list (map (\<lambda>p. GetAmount (nValue p)) ps) = value_sum (vout tx) + fee" "MoneyRange fee"
    using sum_inputs_sound [OF money_0 v] by auto
qed

text \<open>What an accepted transaction spends, as a relation between the view and the inputs.\<close>

definition spends :: "(COutPoint \<Rightarrow> Coin option) \<Rightarrow> int \<Rightarrow> CTransaction \<Rightarrow> CTxOut list \<Rightarrow> bool" where
  "spends view h tx ps \<longleftrightarrow> length ps = length (vin tx) \<and>
     (\<forall>i < length (vin tx). \<exists>c. view (prevout (vin tx ! i)) = Some c \<and> ps ! i = out c \<and>
       (fCoinBase c \<longrightarrow> COINBASE_MATURITY \<le> h - coin_nHeight c))"

lemma CheckTxInputs_cases:
  assumes "CheckTxInputs lib mode tx view h ct ban = Some (Inr fee)"
  obtains ps where "collect_prevouts view h (vin tx) = Some (Inr ps)" "spends view h tx ps" "HaveInputs view tx"
    "if nVersion tx = CT_VERSION then mode \<and> ct \<le> h \<and> check_ct_amounts lib h ban ps tx = Some (Inr fee)
     else list_all (\<lambda>p. IsExplicit (nValue p)) ps \<and> list_all (\<lambda>p. IsExplicit (nValue p)) (vout tx) \<and>
       check_plain_amounts ps tx = Some (Inr fee)"
proof -
  have h: "HaveInputs view tx" "\<not> (nVersion tx = CT_VERSION \<and> h < ct)"
    using assms by (auto simp: CheckTxInputs_def Let_def split: if_splits)
  with assms obtain ps where c: "collect_prevouts view h (vin tx) = Some (Inr ps)"
    by (cases "collect_prevouts view h (vin tx)"; cases "the (collect_prevouts view h (vin tx))")
      (auto simp: CheckTxInputs_def Let_def split: if_splits)
  have "if nVersion tx = CT_VERSION then mode \<and> ct \<le> h \<and> check_ct_amounts lib h ban ps tx = Some (Inr fee)
     else list_all (\<lambda>p. IsExplicit (nValue p)) ps \<and> list_all (\<lambda>p. IsExplicit (nValue p)) (vout tx) \<and>
       check_plain_amounts ps tx = Some (Inr fee)"
    using assms h by (auto simp: CheckTxInputs_def Let_def c list_ex_iff list_all_iff split: if_splits)
  with that c h(1) collect_prevouts_sound [OF c] show thesis by (simp add: spends_def)
qed

text \<open>No input of the check makes the node stop.\<close>

lemma CheckTxInputs_total:
  assumes "CheckTransaction tx = Some (Inr ())" and "\<not> IsCoinBase tx"
    and "\<And>p c. view p = Some c \<Longrightarrow> IsExplicit (nValue (out c)) \<Longrightarrow> MoneyRange (GetAmount (nValue (out c)))"
  shows "\<exists>r. CheckTxInputs lib mode tx view h ct ban = Some r"
proof (cases "HaveInputs view tx")
  case False
  then show ?thesis by (simp add: CheckTxInputs_def Let_def)
next
  case True
  then have "list_all (\<lambda>t. view (prevout t) \<noteq> None) (vin tx)" using assms(2) by (simp add: HaveInputs_def)
  then obtain r where c: "collect_prevouts view h (vin tx) = Some r" using collect_prevouts_total by blast
  show ?thesis
  proof (cases r)
    case (Inl e)
    then show ?thesis using True by (simp add: CheckTxInputs_def Let_def c)
  next
    case (Inr ps)
    have s: "spends view h tx ps" using collect_prevouts_sound c Inr by (simp add: spends_def)
    have "\<exists>r. check_ct_amounts lib h ban ps tx = Some r"
      using assms(2) s by (auto simp: check_ct_amounts_def VerifyAmounts_def spends_def split: sum.splits)
    moreover have "\<exists>r. check_plain_amounts ps tx = Some r" if "list_all (\<lambda>p. IsExplicit (nValue p)) ps"
    proof -
      have "list_all (\<lambda>p. MoneyRange (GetAmount (nValue p))) ps"
        using s assms(3) that by (auto simp: list_all_length spends_def) metis
      then obtain q where q: "sum_inputs 0 ps = Some q" using sum_inputs_total [OF money_0] by blast
      show ?thesis
      proof (cases q)
        case (Inr w)
        have "MoneyRange w" "MoneyRange (value_sum (vout tx))"
          using sum_inputs_sound [OF money_0] q Inr checked_sums [OF assms(1)] by (auto simp: MoneyRange_def)
        then show ?thesis using q Inr checked_sums(1) [OF assms(1)] by (simp add: check_plain_amounts_def money_i64)
      qed (use q in \<open>simp add: check_plain_amounts_def\<close>)
    qed
    ultimately show ?thesis using True Inr c by (auto simp: CheckTxInputs_def Let_def list_ex_iff list_all_iff)
  qed
qed

section \<open>The balance of the commitments\<close>

text \<open>Multiples by integers, and the homomorphic law.\<close>

lemma smul_add: "smul (a + b) g = smul a g + smul b g"
  by (induction a) (simp_all add: add.assoc)

definition zsmul :: "int \<Rightarrow> 'g :: ab_group_add \<Rightarrow> 'g" where
  "zsmul k g = smul (nat k) g - smul (nat (- k)) g"

lemma zsmul_diff: "zsmul (int a - int b) g = smul a g - smul b g"
proof (cases "b \<le> a")
  case True
  then have "smul a g = smul (a - b) g + smul b g" by (simp flip: smul_add)
  then show ?thesis using True by (simp add: zsmul_def nat_diff_distrib')
next
  case False
  then have "smul b g = smul (b - a) g + smul a g" by (simp flip: smul_add)
  then show ?thesis using False by (simp add: zsmul_def nat_diff_distrib')
qed

lemma zsmul_add: "zsmul (a + b) g = zsmul a g + zsmul b g"
proof -
  have "a + b = int (nat a + nat b) - int (nat (- a) + nat (- b))" by simp
  then have "zsmul (a + b) g = smul (nat a + nat b) g - smul (nat (- a) + nat (- b)) g" by (metis zsmul_diff)
  then show ?thesis by (simp add: smul_add zsmul_def)
qed

lemma zsmul_0 [simp]: "zsmul 0 g = 0"
  by (simp add: zsmul_def)

lemma zsmul_minus: "zsmul (- a) g = - zsmul a g"
  by (simp add: zsmul_def)

lemma zsmul_minus_distrib: "zsmul (a - b) g = zsmul a g - zsmul b g"
  using zsmul_add [of a "- b" g] by (simp add: zsmul_minus)

text \<open>An opening of a commitment: a blinding factor and a value.\<close>

definition opens :: "'g :: ab_group_add \<Rightarrow> 'g \<Rightarrow> 'g \<Rightarrow> int \<times> int \<Rightarrow> bool" where
  "opens G H c o' \<longleftrightarrow> c = zsmul (fst o') G + zsmul (snd o') H"

lemma sum_opens:
  "list_all2 (opens G H) cs os \<Longrightarrow>
    sum_list cs = zsmul (sum_list (map fst os)) G + zsmul (sum_list (map snd os)) H"
  by (induction rule: list_all2_induct) (simp_all add: opens_def zsmul_add algebra_simps)

lemma tally_inputs_Some: "tally_inputs lib is = Some cs \<longleftrightarrow> list_all2 (\<lambda>i c. value_commit lib (nValue i) = Some c) is cs"
proof (induction "is" arbitrary: cs)
  case (Cons i "is")
  then show ?case by (cases cs) (auto simp: bind_eq_Some_conv)
qed auto

lemma tally_outputs_Some:
  "tally_outputs lib f os = Some (fee, cs) \<Longrightarrow> list_all MoneyRange (amounts os) \<and>
    list_all2 (\<lambda>o' c. value_commit lib (nValue o') = Some c) os cs \<and> fee = f + fee_sum os \<and>
    (\<forall>o' \<in> set os. IsCommitment (nValue o') \<longrightarrow> VerifyRangeProof lib o') \<and> (MoneyRange f \<longrightarrow> MoneyRange fee)"
proof (induction os arbitrary: f cs)
  case (Cons o' os)
  let ?a = "GetAmount (nValue o')"
  obtain g c ds where g: "(if IsFee o' then if \<not> IsExplicit (nValue o') \<or> ?a \<le> 0 \<or> \<not> MoneyRange ?a then None
          else if \<not> MoneyRange (f + ?a) then None else Some (f + ?a) else Some f) = Some g"
    and c: "value_commit lib (nValue o') = Some c" and d: "tally_outputs lib g os = Some (fee, ds)" "cs = c # ds"
    and v: "IsExplicit (nValue o') \<or> VerifyRangeProof lib o'"
    using Cons.prems by (auto simp: bind_eq_Some_conv split: if_splits)
  have e: "IsExplicit (nValue o') \<Longrightarrow> MoneyRange ?a"
    using c by (auto simp: value_commit_def conf_IsNull_def conf_IsExplicit_def split: if_splits)
  have x: "\<not> (IsExplicit (nValue o') \<and> IsCommitment (nValue o'))"
    by (auto simp: conf_IsExplicit_def conf_IsCommitment_def nCommittedSize_def)
  have gf: "g + fee_sum os = f + fee_sum (o' # os)" "MoneyRange f \<longrightarrow> MoneyRange g"
    using g by (auto simp: fee_sum_def IsFee_def split: if_splits)
  show ?case using Cons.IH [OF d(1)] gf e c d(2) v x by auto
qed (simp add: fee_sum_def)

lemma VerifyAmounts_sound:
  assumes "VerifyAmounts lib inputs tx = Some (Some fee)"
  obtains ins outs where "list_all2 (\<lambda>i c. value_commit lib (nValue i) = Some c) inputs ins"
    "list_all2 (\<lambda>o' c. value_commit lib (nValue o') = Some c) (vout tx) outs" "sum_list ins = sum_list outs"
    "fee = fee_sum (vout tx)" "MoneyRange fee" "length inputs = length (vin tx)" "list_all MoneyRange (amounts (vout tx))"
    "\<forall>o' \<in> set (vout tx). IsCommitment (nValue o') \<longrightarrow> VerifyRangeProof lib o' \<and> 0 < fee"
proof -
  have l: "\<not> IsCoinBase tx" "length inputs = length (vin tx)"
    using assms by (auto simp: VerifyAmounts_def assertion_def split: if_splits)
  then obtain ins outs where t: "tally_inputs lib inputs = Some ins" "tally_outputs lib 0 (vout tx) = Some (fee, outs)"
    and k: "\<not> (list_ex (\<lambda>o'. IsCommitment (nValue o')) (vout tx) \<and> fee \<le> 0)" "sum_list ins = sum_list outs"
    using assms by (auto simp: VerifyAmounts_def bind_eq_Some_conv pedersen_verify_tally_def Let_def split: if_splits)
  have "\<forall>o' \<in> set (vout tx). IsCommitment (nValue o') \<longrightarrow> VerifyRangeProof lib o' \<and> 0 < fee"
    using tally_outputs_Some [OF t(2)] k(1) by (auto simp: list_ex_iff not_le)
  then show thesis using that [of ins outs] tally_outputs_Some [OF t(2)] t(1) k(2) l(2) money_0
    by (auto simp: tally_inputs_Some)
qed

lemma explicit_opens:
  assumes "value_commit lib v = Some c" and "IsExplicit v"
  shows "opens G (generator_h lib) c (0, GetAmount v)" and "0 < GetAmount v"
proof -
  have m: "MoneyRange (GetAmount v)" and e: "ExplicitCommit lib (GetAmount v) = Some c"
    using assms by (auto simp: value_commit_def conf_IsNull_def conf_IsExplicit_def split: if_splits)
  have u: "unat (word_of_int (GetAmount v) :: u64) = nat (GetAmount v)"
    using m by (simp add: MoneyRange_def MAX_MONEY_def COIN_def unat_eq_nat_uint uint_word_of_int)
  have c: "c = smul (nat (GetAmount v)) (generator_h lib)" "c \<noteq> 0"
    using e by (auto simp: ExplicitCommit_def Let_def u split: if_splits)
  then show "opens G (generator_h lib) c (0, GetAmount v)" using m by (simp add: opens_def zsmul_def MoneyRange_def)
  show "0 < GetAmount v"
  proof (rule ccontr)
    assume "\<not> 0 < GetAmount v"
    then have "c = 0" using c(1) by simp
    with c(2) show False by simp
  qed
qed

text \<open>An opening of every commitment of a list of outputs.\<close>

definition openings :: "'g :: ab_group_add pedersen \<Rightarrow> 'g \<Rightarrow> CTxOut list \<Rightarrow> (int \<times> int) list \<Rightarrow> bool" where
  "openings lib G os ws \<longleftrightarrow> list_all2 (\<lambda>o' w. \<forall>c. value_commit lib (nValue o') = Some c \<longrightarrow> opens G (generator_h lib) c w) os ws"

lemma openings_sum:
  assumes "openings lib G os ws" and "list_all2 (\<lambda>o' c. value_commit lib (nValue o') = Some c) os cs"
  shows "sum_list cs = zsmul (sum_list (map fst ws)) G + zsmul (sum_list (map snd ws)) (generator_h lib)"
proof -
  have "list_all2 (opens G (generator_h lib)) cs ws"
    using assms unfolding openings_def list_all2_conv_all_nth by fastforce
  then show ?thesis by (rule sum_opens)
qed

lemma VerifyAmounts_balance:
  assumes "VerifyAmounts lib inputs tx = Some (Some fee)"
    and "openings lib G inputs ws" and "openings lib G (vout tx) us"
  shows "zsmul (sum_list (map fst ws) - sum_list (map fst us)) G =
    zsmul (sum_list (map snd us) - sum_list (map snd ws)) (generator_h lib)"
proof -
  obtain ins outs where "list_all2 (\<lambda>i c. value_commit lib (nValue i) = Some c) inputs ins"
    "list_all2 (\<lambda>o' c. value_commit lib (nValue o') = Some c) (vout tx) outs" "sum_list ins = sum_list outs"
    using VerifyAmounts_sound [OF assms(1)] by metis
  then have "zsmul (sum_list (map fst ws)) G + zsmul (sum_list (map snd ws)) (generator_h lib) =
      zsmul (sum_list (map fst us)) G + zsmul (sum_list (map snd us)) (generator_h lib)"
    using openings_sum [OF assms(2)] openings_sum [OF assms(3)] by metis
  then have "zsmul (sum_list (map fst ws)) G - zsmul (sum_list (map fst us)) G =
      zsmul (sum_list (map snd us)) (generator_h lib) - zsmul (sum_list (map snd ws)) (generator_h lib)"
    by (simp add: algebra_simps)
  then show ?thesis by (simp only: zsmul_minus_distrib)
qed

lemma VerifyAmounts_no_zero:
  assumes "VerifyAmounts lib inputs tx = Some (Some fee)" and "o' \<in> set inputs \<union> set (vout tx)" and "IsExplicit (nValue o')"
  shows "0 < GetAmount (nValue o')"
proof -
  obtain ins outs where "list_all2 (\<lambda>i c. value_commit lib (nValue i) = Some c) inputs ins"
    "list_all2 (\<lambda>o' c. value_commit lib (nValue o') = Some c) (vout tx) outs"
    using VerifyAmounts_sound [OF assms(1)] by metis
  then obtain c where "value_commit lib (nValue o') = Some c"
    using assms(2) by (auto simp: list_all2_conv_all_nth in_set_conv_nth)
  then show ?thesis using explicit_opens(2) assms(3) by blast
qed

end
