(* ===== verification/Block.thy ===== *)
theory Block
  imports Tx
begin

text \<open>
  Blocks and their headers: \<^verbatim>\<open>src/primitives/block.h\<close>, \<^verbatim>\<open>src/primitives/block.cpp\<close> and the canonical
  proof-of-work input \<open>SerializeRandomXHeader\<close> of \<^verbatim>\<open>src/pow.cpp\<close>. The flag \<open>g_isRandomX\<close> selects
  the 112-byte header with \<open>hashRandomX\<close> or the legacy 80-byte header; the double SHA-256 of
  \<open>HashWriter\<close> is a parameter.
\<close>

section \<open>Headers\<close>

definition BLOCK_VERSION_QHASH :: u32 where "BLOCK_VERSION_QHASH = 0x40000000"

record CBlockHeader =
  hdr_nVersion :: u32
  hashPrevBlock :: bytes
  hashMerkleRoot :: bytes
  hdr_nTime :: u32
  hdr_nBits :: u32
  hdr_nNonce :: u32
  hdr_hashRandomX :: bytes

definition uint256_null :: bytes where
  "uint256_null = replicate 32 0"

definition CBlockHeader_SetNull :: CBlockHeader where
  "CBlockHeader_SetNull = \<lparr>hdr_nVersion = 0, hashPrevBlock = uint256_null, hashMerkleRoot = uint256_null,
     hdr_nTime = 0, hdr_nBits = 0, hdr_nNonce = 0, hdr_hashRandomX = uint256_null\<rparr>"

definition CBlockHeader_IsNull :: "CBlockHeader \<Rightarrow> bool" where
  "CBlockHeader_IsNull h \<longleftrightarrow> hdr_nBits h = 0"

definition CBlockHeader_Serialize :: "bool \<Rightarrow> CBlockHeader \<Rightarrow> bytes" where
  "CBlockHeader_Serialize g_isRandomX h =
     ser_writedata32 (hdr_nVersion h) @ hashPrevBlock h @ hashMerkleRoot h @ ser_writedata32 (hdr_nTime h) @
     ser_writedata32 (hdr_nBits h) @ ser_writedata32 (hdr_nNonce h) @ (if g_isRandomX then hdr_hashRandomX h else [])"

text \<open>Without the flag the field keeps the null value the constructor gave it.\<close>

definition CBlockHeader_Unserialize :: "bool \<Rightarrow> CBlockHeader reader" where
  "CBlockHeader_Unserialize g_isRandomX s = ebind (ser_readdata32 s) (\<lambda>(v, s).
     ebind (ser_read 32 s) (\<lambda>(p, s). ebind (ser_read 32 s) (\<lambda>(m, s).
     ebind (ser_readdata32 s) (\<lambda>(t, s). ebind (ser_readdata32 s) (\<lambda>(b, s). ebind (ser_readdata32 s) (\<lambda>(n, s).
     ebind (if g_isRandomX then ser_read 32 s else Inr (uint256_null, s)) (\<lambda>(x, s).
       Inr (\<lparr>hdr_nVersion = v, hashPrevBlock = p, hashMerkleRoot = m, hdr_nTime = t, hdr_nBits = b, hdr_nNonce = n,
         hdr_hashRandomX = x\<rparr>, s))))))))"

definition CBlockHeader_GetHash :: "(bytes \<Rightarrow> bytes) \<Rightarrow> bool \<Rightarrow> CBlockHeader \<Rightarrow> bytes" where
  "CBlockHeader_GetHash hash256 g_isRandomX h =
     (if g_isRandomX then
        hash256 (ser_writedata32 (hdr_nVersion h) @ hashPrevBlock h @ hashMerkleRoot h @ ser_writedata32 (hdr_nTime h) @
          ser_writedata32 (hdr_nBits h) @ ser_writedata32 (hdr_nNonce h) @ hdr_hashRandomX h)
      else hash256 (CBlockHeader_Serialize g_isRandomX h))"

definition SerializeRandomXHeader :: "CBlockHeader \<Rightarrow> bytes" where
  "SerializeRandomXHeader hdr_in =
     (let hdr = CBlockHeader_SetNull\<lparr>hdr_nVersion := hdr_nVersion hdr_in, hashPrevBlock := hashPrevBlock hdr_in,
        hashMerkleRoot := hashMerkleRoot hdr_in, hdr_nTime := hdr_nTime hdr_in, hdr_nBits := hdr_nBits hdr_in,
        hdr_nNonce := hdr_nNonce hdr_in\<rparr> in
      ser_writedata32 (hdr_nVersion hdr) @ hashPrevBlock hdr @ hashMerkleRoot hdr @ ser_writedata32 (hdr_nTime hdr) @
      ser_writedata32 (hdr_nBits hdr) @ ser_writedata32 (hdr_nNonce hdr) @ hdr_hashRandomX hdr)"

section \<open>Blocks\<close>

text \<open>The base class is the field \<open>header\<close>.\<close>

record CBlock =
  header :: CBlockHeader
  vtx :: "CTransaction list"

definition CBlock_Serialize :: "bool \<Rightarrow> CBlock \<Rightarrow> bytes" where
  "CBlock_Serialize g_isRandomX b = CBlockHeader_Serialize g_isRandomX (header b) @ VectorSer (SerializeTransaction True) (vtx b)"

definition CBlock_Unserialize :: "bool \<Rightarrow> CBlock reader" where
  "CBlock_Unserialize g_isRandomX s = ebind (CBlockHeader_Unserialize g_isRandomX s) (\<lambda>(h, s).
     ebind (VectorUnser (UnserializeTransaction True) s) (\<lambda>(txs, s). Inr (\<lparr>header = h, vtx = txs\<rparr>, s)))"

section \<open>The formats are unambiguous\<close>

definition header_ok :: "bool \<Rightarrow> CBlockHeader \<Rightarrow> bool" where
  "header_ok g_isRandomX h \<longleftrightarrow> length (hashPrevBlock h) = 32 \<and> length (hashMerkleRoot h) = 32 \<and>
     (if g_isRandomX then length (hdr_hashRandomX h) = 32 else hdr_hashRandomX h = uint256_null)"

lemma length_ser_writedata32 [simp]: "length (ser_writedata32 x) = 4"
  by (simp add: ser_writedata32_def)

interpretation headerc: codec "CBlockHeader_Serialize g" "CBlockHeader_Unserialize g" "header_ok g" for g
proof (rule codecI)
  fix s x rest
  obtain v p m t b n hx where x: "x = \<lparr>hdr_nVersion = v, hashPrevBlock = p, hashMerkleRoot = m, hdr_nTime = t, hdr_nBits = b,
      hdr_nNonce = n, hdr_hashRandomX = hx\<rparr>" by (cases x)
  show "CBlockHeader_Unserialize g s = Inr (x, rest) \<longleftrightarrow> header_ok g x \<and> s = CBlockHeader_Serialize g x @ rest"
  proof
    assume "CBlockHeader_Unserialize g s = Inr (x, rest)"
    then show "header_ok g x \<and> s = CBlockHeader_Serialize g x @ rest"
      by (auto simp: x CBlockHeader_Unserialize_def CBlockHeader_Serialize_def header_ok_def ser_iff ser_read_iff split: if_splits)
  next
    assume "header_ok g x \<and> s = CBlockHeader_Serialize g x @ rest"
    then show "CBlockHeader_Unserialize g s = Inr (x, rest)"
      by (simp add: x CBlockHeader_Unserialize_def CBlockHeader_Serialize_def header_ok_def u32c.dec_enc u256c.dec_enc split: if_splits)
  qed
qed

lemma length_header: "header_ok g h \<Longrightarrow> length (CBlockHeader_Serialize g h) = (if g then 112 else 80)"
  by (simp add: header_ok_def CBlockHeader_Serialize_def)

definition block_ok :: "bool \<Rightarrow> CBlock \<Rightarrow> bool" where
  "block_ok g b \<longleftrightarrow> header_ok g (header b) \<and> list_all tx_ok (vtx b) \<and> length (vtx b) \<le> unat MAX_SIZE"

interpretation blockc: codec "CBlock_Serialize g" "CBlock_Unserialize g" "block_ok g" for g
proof (rule codecI)
  fix s x rest
  obtain h txs where x: "x = \<lparr>header = h, vtx = txs\<rparr>" by (cases x)
  show "CBlock_Unserialize g s = Inr (x, rest) \<longleftrightarrow> block_ok g x \<and> s = CBlock_Serialize g x @ rest"
    by (auto simp: x block_ok_def CBlock_Unserialize_def CBlock_Serialize_def headerc.dec_iff txc.VectorUnser_iff)
qed

text \<open>The proof-of-work input is the header with a null \<open>hashRandomX\<close>.\<close>

lemma SerializeRandomXHeader_eq:
  "SerializeRandomXHeader h = CBlockHeader_Serialize True (h\<lparr>hdr_hashRandomX := uint256_null\<rparr>)"
  by (simp add: SerializeRandomXHeader_def CBlockHeader_Serialize_def CBlockHeader_SetNull_def Let_def)

lemma length_SerializeRandomXHeader:
  "length (hashPrevBlock h) = 32 \<Longrightarrow> length (hashMerkleRoot h) = 32 \<Longrightarrow> length (SerializeRandomXHeader h) = 112"
  by (simp add: SerializeRandomXHeader_eq CBlockHeader_Serialize_def uint256_null_def)

lemma GetHash_serialize: "CBlockHeader_GetHash hash256 g h = hash256 (CBlockHeader_Serialize g h)"
  by (simp add: CBlockHeader_GetHash_def CBlockHeader_Serialize_def)

end
