(* ===== verification/Tx_Claims.thy ===== *)
theory Tx_Claims
  imports Tx_Check Block
begin

text \<open>
  The properties of the wire formats, of the context-free checks and of the amounts of a
  transaction.
\<close>

text \<open>
  C14: a compact size is read exactly when it is the canonical encoding: the reader accepts what the
  writer produces and nothing else, and with the range check no size above \<open>MAX_SIZE\<close>.
\<close>

theorem compact_size_exact:
  "(ReadCompactSize False s = Inr (k, rest) \<longleftrightarrow> s = WriteCompactSize k @ rest) \<and>
   (ReadCompactSize True s = Inr (k, rest) \<longleftrightarrow> k \<le> MAX_SIZE \<and> s = WriteCompactSize k @ rest) \<and>
   length (WriteCompactSize k) = GetSizeOfCompactSize k"
  using anysizec.dec_iff sizec.dec_iff by (auto simp: length_WriteCompactSize)

text \<open>
  C15: variable-length integers form a bijection: every 64-bit number has one encoding, of at most ten
  bytes, and the reader returns it exactly on that encoding.
\<close>

theorem varint_exact:
  "(ReadVarInt s = Inr (k, rest) \<longleftrightarrow> s = WriteVarInt k @ rest) \<and> length (WriteVarInt k) \<le> 10"
  using varintc.dec_iff [of s k rest] varint_tmp_fits [of False k] by (simp add: WriteVarInt_def)

text \<open>
  C16: the transaction format is unambiguous. In both formats (plain and confidential, with and
  without witnesses) the reader returns a transaction and leaves the rest of the input exactly when
  the input starts with what the writer produces for that transaction.
\<close>

theorem tx_format_exact:
  "UnserializeTransaction True s = Inr (tx, rest) \<longleftrightarrow> tx_ok tx \<and> s = SerializeTransaction True tx @ rest"
  by (rule txc.dec_iff)

text \<open>
  C17: the same for headers and blocks, for a node with the additional header field (\<open>g\<close>) and without;
  the header has 112 bytes with the field and 80 without.
\<close>

theorem block_format_exact:
  "(CBlock_Unserialize g s = Inr (b, rest) \<longleftrightarrow> block_ok g b \<and> s = CBlock_Serialize g b @ rest) \<and>
   (CBlockHeader_Unserialize g s = Inr (h, rest) \<longleftrightarrow> header_ok g h \<and> s = CBlockHeader_Serialize g h @ rest \<and>
      length (CBlockHeader_Serialize g h) = (if g then 112 else 80))"
  using blockc.dec_iff headerc.dec_iff length_header by blast

section \<open>Checks\<close>

definition demo_in :: CTxIn where
  "demo_in = \<lparr>prevout = \<lparr>op_hash = replicate 32 7, op_n = 0\<rparr>, scriptSig = [], nSequence = 0, scriptWitness = [], in_nValue = []\<rparr>"

definition demo_out :: "int \<Rightarrow> bytes \<Rightarrow> CTxOut" where
  "demo_out a script = \<lparr>nValue = SetToAmount a, nNonce = [], vchRangeproof = [], scriptPubKey = script\<rparr>"

definition demo_tx :: "u32 \<Rightarrow> CTransaction" where
  "demo_tx ver = \<lparr>vin = [demo_in], vout = [demo_out 3 [81], demo_out 2 []], nVersion = ver, nLockTime = 0\<rparr>"

definition demo_view :: "COutPoint \<Rightarrow> Coin option" where
  "demo_view p = (if p = prevout demo_in then Some \<lparr>out = demo_out 5 [81], fCoinBase = False, coin_nHeight = 1\<rparr> else None)"

definition demo_lib :: "int pedersen" where
  "demo_lib = \<lparr>commitment_parse = \<lambda>_. None, generator_h = 1, rangeproof_verify = \<lambda>_ _. None\<rparr>"

lemma demo_len: "length (SerializeTransaction False (demo_tx ver)) \<le> 1000"
  by (simp add: SerializeTransaction_def demo_tx_def demo_in_def demo_out_def VectorSer_def length_WriteCompactSize GetSizeOfCompactSize_def
     CTxIn_Serialize_def CTxOut_Serialize_def COutPoint_Serialize_def conf_Serialize_def SetToAmount_def Let_def ser_writedata32_def
     ser_writedata8_def ser_writedata64_def)

lemma not_commitment [simp]: "\<not> IsCommitment (SetToAmount a)"
  by (simp add: conf_IsCommitment_def SetToAmount_def nCommittedSize_def)

lemma demo_simps [simp]:
  "vin (demo_tx ver) = [demo_in]" "vout (demo_tx ver) = [demo_out 3 [81], demo_out 2 []]" "nVersion (demo_tx ver) = ver"
  "in_nValue demo_in = []" "nValue (demo_out a s) = SetToAmount a" "vchRangeproof (demo_out a s) = []"
  "scriptPubKey (demo_out a s) = s" "\<not> COutPoint_IsNull (prevout demo_in)" "\<not> IsCoinBase (demo_tx ver)"
  by (simp_all add: demo_tx_def demo_in_def demo_out_def COutPoint_IsNull_def NULL_INDEX_def IsCoinBase_def)

lemma demo_amount [simp]: "GetAmount (SetToAmount 3) = 3" "GetAmount (SetToAmount 2) = 2" "GetAmount (SetToAmount 5) = 5"
  by (rule GetAmount_SetToAmount; simp add: int_limits)+

lemma demo_check: "ver = 2 \<or> ver = 3 \<Longrightarrow> CheckTransaction (demo_tx ver) = Some (Inr ())"
  using demo_len [of ver]
  by (auto simp: CheckTransaction_def WITNESS_SCALE_FACTOR_def MAX_BLOCK_WEIGHT_def CT_VERSION_def
    conf_IsNull_def check_prevouts_def int_limits MAX_MONEY_def COIN_def MoneyRange_def)

lemma demo_inputs2: "CheckTxInputs demo_lib True (demo_tx 2) demo_view 10 0 0 = Some (Inr 2)"
  by (simp add: CheckTxInputs_def Let_def CT_VERSION_def HaveInputs_def demo_view_def check_plain_amounts_def GetValueOut_def IsFee_def
    int_limits MAX_MONEY_def COIN_def MoneyRange_def)

lemma smul_int [simp]: "smul k (1 :: int) = int k"
  by (induction k) simp_all

lemma SetToAmount_nonempty [simp]: "SetToAmount a \<noteq> []"
  by (simp add: SetToAmount_def)



text \<open>
  C19: no plain transaction creates value. If the checks accept a transaction that is not
  confidential, its inputs exist and are mature, all of its amounts are explicit, and the sum of the
  inputs is the sum of the outputs that enter the coin set plus the fee that is returned.
\<close>

theorem plain_value_conserved:
  assumes "CheckTransaction tx = Some (Inr ())" and "nVersion tx \<noteq> CT_VERSION"
    and "CheckTxInputs lib mode tx view h ct ban = Some (Inr fee)"
  shows "\<exists>ps. spends view h tx ps \<and> list_all (\<lambda>p. IsExplicit (nValue p)) (ps @ vout tx) \<and>
    sum_list (map (\<lambda>p. GetAmount (nValue p)) ps) = value_sum (vout tx) + fee \<and> MoneyRange fee"
proof -
  obtain ps where ps: "spends view h tx ps" "list_all (\<lambda>p. IsExplicit (nValue p)) ps"
    "list_all (\<lambda>p. IsExplicit (nValue p)) (vout tx)" "check_plain_amounts ps tx = Some (Inr fee)"
    using CheckTxInputs_cases [OF assms(3)] assms(2) by (metis (no_types, lifting))
  then show ?thesis using check_plain_sound [OF ps(4) assms(1)] by auto
qed

theorem plain_value_conserved_witness:
  "CheckTransaction (demo_tx 2) = Some (Inr ()) \<and> nVersion (demo_tx 2) \<noteq> CT_VERSION \<and>
   CheckTxInputs demo_lib True (demo_tx 2) demo_view 10 0 0 = Some (Inr 2) \<and>
   (\<exists>ps. spends demo_view 10 (demo_tx 2) ps \<and>
      sum_list (map (\<lambda>p. GetAmount (nValue p)) ps) = value_sum (vout (demo_tx 2)) + 2)"
proof -
  have "nVersion (demo_tx 2) \<noteq> CT_VERSION" by (simp add: CT_VERSION_def)
  then show ?thesis using plain_value_conserved [OF demo_check [of 2] _ demo_inputs2] demo_check [of 2] demo_inputs2 by auto
qed




text \<open>
  C21: no confidential transaction has an explicit amount of zero. The commitment to zero with a zero
  blinding factor is the point at infinity, which the library does not make, so \<open>VerifyAmounts\<close>
  rejects every transaction with such an input or output, even one without any commitment.
\<close>

theorem ct_rejects_zero:
  assumes "t \<in> set inputs \<union> set (vout tx)" and "nValue t = SetToAmount 0"
  shows "VerifyAmounts lib inputs tx \<noteq> Some (Some fee)"
proof
  assume "VerifyAmounts lib inputs tx = Some (Some fee)"
  from VerifyAmounts_no_zero [OF this assms(1)] assms(2) show False
    using GetAmount_SetToAmount [of 0] by (simp add: int_limits)
qed

theorem ct_rejects_zero_witness:
  "VerifyAmounts demo_lib [demo_out 5 [81]] ((demo_tx 3)\<lparr>vout := [demo_out 5 [81], demo_out 0 [106]]\<rparr>) \<noteq> Some (Some 0)"
  by (rule ct_rejects_zero [where t = "demo_out 0 [106]"]) simp_all

end
