(* ===== verification/Hash_Domain.thy ===== *)
theory Hash_Domain
  imports Proxy_Job
begin

text \<open>
  The alignment check \<^verbatim>\<open>scripts/check_proxy_hashdomain.js\<close>: its copies of the proxy's helpers, the
  template it builds, and its run with every assertion. An exception is a value of \<open>js_error\<close>, a
  failed assertion the message it carries.
\<close>

section \<open>The copies of the helpers\<close>

definition hd_u32ToLEHex :: "int \<Rightarrow> string" where
  "hd_u32ToLEHex value = concat (rev (match2 (hexstr (be_bytes 4 (nat (value mod 2 ^ 32))))))"

definition hd_reverseHex :: "string \<Rightarrow> js_error + string" where
  "hd_reverseHex hex = (case match2 hex of [] \<Rightarrow> Inl TypeError | ps \<Rightarrow> Inr (concat (rev ps)))"

record hd_template =
  previousblockhash :: string
  merkleroot :: string
  hd_bits :: string
  curtime :: int

definition createJobBlob :: "hd_template \<Rightarrow> js_error + string" where
  "createJobBlob tpl =
     (let version = ''00000020'' in
      ebind (hd_reverseHex (previousblockhash tpl)) (\<lambda>prevhash.
      ebind (hd_reverseHex (merkleroot tpl)) (\<lambda>merkleLE.
      let ntimeLE = hd_u32ToLEHex (curtime tpl) in
      ebind (hd_reverseHex (hd_bits tpl)) (\<lambda>nbits.
      Inr (version @ prevhash @ merkleLE @ ntimeLE @ nbits @ ''00000000'' @ concat (replicate 32 ''00''))))))"

text \<open>The copy takes the blob of the job and does not test the patterns.\<close>

definition hd_buildHeader112 :: "string \<Rightarrow> string \<Rightarrow> string \<Rightarrow> string" where
  "hd_buildHeader112 blob nonceHex ntimeHex =
     (let ntimeLE = hd_u32ToLEHex (case parseInt16 ntimeHex of None \<Rightarrow> 0 | Some v \<Rightarrow> int v);
          prefix = js_substring 0 136 blob;
          nbits = js_substring 144 152 blob
      in prefix @ ntimeLE @ nbits @ js_lower nonceHex @ concat (replicate 32 ''00''))"

section \<open>The run\<close>

definition VERSION_SER :: string where "VERSION_SER = ''00000020''"
definition PREV_SER :: string where "PREV_SER = concat (replicate 16 ''aabb'')"
definition MERKLE_SER :: string where "MERKLE_SER = concat (replicate 16 ''1122'')"
definition NBITS_SER :: string where "NBITS_SER = ''40341717''"
definition NONCE_SER :: string where "NONCE_SER = ''0000beef''"
definition NTIME_VALUE :: nat where "NTIME_VALUE = 0x5f3759d1"

definition demo_template :: "js_error + hd_template" where
  "demo_template = ebind (hd_reverseHex PREV_SER) (\<lambda>p. ebind (hd_reverseHex MERKLE_SER) (\<lambda>m.
     Inr \<lparr>previousblockhash = p, merkleroot = m, hd_bits = ''17173440'', curtime = int NTIME_VALUE\<rparr>))"

definition strictEqual :: "'a \<Rightarrow> 'a \<Rightarrow> string \<Rightarrow> string + unit" where
  "strictEqual actual expected message = (if actual = expected then Inr () else Inl message)"

text \<open>The assertions on the header; the lines the script prints when all hold.\<close>

definition hashdomain_asserts :: "string \<Rightarrow> string \<Rightarrow> string + string list" where
  "hashdomain_asserts proxy112 ref =
     ebind (strictEqual (length proxy112) 224 ''112-byte input = 224 hex chars'') (\<lambda>_.
     ebind (strictEqual (length ref) 224 ''reference must be 224 hex chars'') (\<lambda>_.
     ebind (strictEqual proxy112 ref ''proxy 112B input must byte-match consensus SerializeRandomXHeader'') (\<lambda>_.
     ebind (strictEqual (js_substring 136 144 proxy112) (hd_u32ToLEHex (int NTIME_VALUE)) ''ntime LE at offset 68'') (\<lambda>_.
     ebind (strictEqual (js_substring 152 160 proxy112) NONCE_SER ''nonce at offset 76'') (\<lambda>_.
     let header80 = js_substring 0 160 proxy112 in
     ebind (strictEqual (length header80) 160 ''80-byte header'') (\<lambda>_.
     ebind (strictEqual (js_substring 0 8 header80) ''00000020'' ''version LE'') (\<lambda>_.
     Inr [''S-01 byte-alignment check PASSED'',
          ''proxy112 == SerializeRandomXHeader (112B, hashRandomX zeroed)''])))))))"

definition hashdomain_run :: "js_error + (string + string list)" where
  "hashdomain_run = ebind demo_template (\<lambda>template. ebind (createJobBlob template) (\<lambda>blob.
     let NTIME_HEX_BE = padStart 8 (hex_of_nat NTIME_VALUE);
         proxy112 = hd_buildHeader112 blob NONCE_SER NTIME_HEX_BE;
         ref = VERSION_SER @ PREV_SER @ MERKLE_SER @ hd_u32ToLEHex (int NTIME_VALUE) @ NBITS_SER @ NONCE_SER @
           concat (replicate 32 ''00'')
     in Inr (hashdomain_asserts proxy112 ref)))"

section \<open>The copies agree with the proxy\<close>

lemma hd_helpers [simp]: "hd_u32ToLEHex = u32ToLEHex" "hd_reverseHex = reverseHex"
  by (simp_all add: fun_eq_iff hd_u32ToLEHex_def u32ToLEHex_def hd_reverseHex_def reverseHex_def)

text \<open>The template the script's template stands for.\<close>

definition as_proxy_template :: "hd_template \<Rightarrow> string \<Rightarrow> block_template" where
  "as_proxy_template tpl target = \<lparr>t_previousblockhash = previousblockhash tpl, t_merkleroot = Some (merkleroot tpl),
     t_bits = hd_bits tpl, t_curtime = curtime tpl, t_height = None, t_target = Some target,
     t_coinbasetxn = None, t_transactions = None\<rparr>"

lemma createJobBlob_proxy:
  assumes "createRandomXJob sha counter (as_proxy_template tpl target) = Inr job" and "merkleroot tpl \<noteq> []"
  shows "createJobBlob tpl = Inr (j_blob job)"
  using assms by (auto simp: createRandomXJob_def as_proxy_template_def createJobBlob_def truthy_str_def Let_def zeros32_def
      ebind_eq_Inr split: if_splits)

lemma hd_buildHeader112_proxy:
  assumes "buildHeader112 job (JStr nonce) (JStr ntime) = Inr (Some h)"
  shows "hd_buildHeader112 (j_blob job) nonce ntime = h"
  using assms by (auto simp: buildHeader112_def hd_buildHeader112_def Let_def zeros32_def split: if_splits)

text \<open>The copies on well-formed arguments.\<close>

lemma hd_buildHeader112_hexstr:
  assumes "length prev = 32" "length merkle = 32" "length bits = 4" "length nonce = 4" "length ntime = 4"
  shows "hd_buildHeader112 (hexstr (blob_bytes prev merkle ct bits)) (hexstr nonce) (hexstr ntime) =
    hexstr (le_bytes 4 0x20000000 @ prev @ merkle @ rev ntime @ bits @ nonce @ replicate 32 0)"
proof -
  have "\<exists>job :: job. j_blob job = hexstr (blob_bytes prev merkle ct bits)"
    by (rule exI [of _ "undefined\<lparr>j_blob := hexstr (blob_bytes prev merkle ct bits)\<rparr>"]) simp
  then obtain job :: job where j: "j_blob job = hexstr (blob_bytes prev merkle ct bits)" ..
  show ?thesis using buildHeader112_hexstr [OF j assms(1-3), of nonce ntime] assms(4,5)
    by (intro hd_buildHeader112_proxy [of job, unfolded j]) simp
qed

lemma createJobBlob_hexstr:
  assumes "prev \<noteq> []" "merkle \<noteq> []" "bits \<noteq> []"
  shows "createJobBlob \<lparr>previousblockhash = hexstr (rev prev), merkleroot = hexstr (rev merkle), hd_bits = hexstr (rev bits), curtime = ct\<rparr> =
    Inr (hexstr (blob_bytes prev merkle ct bits))"
  using assms by (simp add: createJobBlob_def reverseHex_hexstr blob_bytes_def hexstr_append u32ToLEHex_bytes
      version_hexstr nonce0_hexstr zeros32_hexstr [unfolded zeros32_def])

text \<open>The constants of the script as bytes.\<close>

lemma hexstr_repeat: "concat (replicate k (hexstr bs)) = hexstr (concat (replicate k bs))"
  by (induction k) (simp_all add: hexstr_append)

lemma script_bytes:
  "PREV_SER = hexstr (concat (replicate 16 [0xaa, 0xbb]))" "MERKLE_SER = hexstr (concat (replicate 16 [0x11, 0x22]))"
  "NBITS_SER = hexstr [0x40, 0x34, 0x17, 0x17]" "NONCE_SER = hexstr [0, 0, 0xbe, 0xef]" "''17173440'' = hexstr (rev [0x40, 0x34, 0x17, 0x17])"
  "padStart 8 (hex_of_nat NTIME_VALUE) = hexstr [0x5f, 0x37, 0x59, 0xd1]" "le_bytes 4 NTIME_VALUE = rev [0x5f, 0x37, 0x59, 0xd1]"
proof -
  have "''aabb'' = hexstr [0xaa, 0xbb]" "''1122'' = hexstr [0x11, 0x22]"
    by (simp_all add: hexstr_Cons hex_of_byte_def hex_digit_def hex_digits_def)
  then show "PREV_SER = hexstr (concat (replicate 16 [0xaa, 0xbb]))" "MERKLE_SER = hexstr (concat (replicate 16 [0x11, 0x22]))"
    by (simp_all only: PREV_SER_def MERKLE_SER_def hexstr_repeat)
qed (simp_all add: NBITS_SER_def NONCE_SER_def NTIME_VALUE_def hex_of_nat.simps padStart_def hexstr_Cons hex_of_byte_def
    hex_digit_def hex_digits_def le_bytes_numeral)

lemma hashdomain_run_passes:
  "hashdomain_run = Inr (Inr [''S-01 byte-alignment check PASSED'', ''proxy112 == SerializeRandomXHeader (112B, hashRandomX zeroed)''])"
proof -
  let ?P = "concat (replicate 16 [0xaa, 0xbb]) :: bytes" and ?M = "concat (replicate 16 [0x11, 0x22]) :: bytes"
  let ?H = "le_bytes 4 0x20000000 @ ?P @ ?M @ rev [0x5f, 0x37, 0x59, 0xd1] @ [0x40, 0x34, 0x17, 0x17] @ [0, 0, 0xbe, 0xef] @ replicate 32 0"
  have len: "length ?P = 32" "length ?M = 32" by (simp_all add: length_concat sum_list_replicate)
  then have ne: "?P \<noteq> []" "?M \<noteq> []" by (metis list.size(3) zero_neq_numeral)+
  have t: "demo_template = Inr \<lparr>previousblockhash = hexstr (rev ?P), merkleroot = hexstr (rev ?M),
      hd_bits = hexstr (rev [0x40, 0x34, 0x17, 0x17]), curtime = int NTIME_VALUE\<rparr>"
    unfolding demo_template_def script_bytes hd_helpers reverseHex_hexstr using ne by simp
  have b: "hd_buildHeader112 (hexstr (blob_bytes ?P ?M (int NTIME_VALUE) [0x40, 0x34, 0x17, 0x17])) NONCE_SER
      (padStart 8 (hex_of_nat NTIME_VALUE)) = hexstr ?H"
    unfolding script_bytes using len by (intro hd_buildHeader112_hexstr) simp_all
  have u: "hd_u32ToLEHex (int NTIME_VALUE) = hexstr (rev [0x5f, 0x37, 0x59, 0xd1])"
    using script_bytes(7) by (simp add: u32ToLEHex_bytes NTIME_VALUE_def)
  have r: "VERSION_SER @ PREV_SER @ MERKLE_SER @ hd_u32ToLEHex (int NTIME_VALUE) @ NBITS_SER @ NONCE_SER @
      concat (replicate 32 ''00'') = hexstr ?H"
    unfolding u script_bytes VERSION_SER_def version_hexstr zeros32_hexstr [unfolded zeros32_def] by (simp only: hexstr_append)
  have "hashdomain_asserts (hexstr ?H) (hexstr ?H) = Inr [''S-01 byte-alignment check PASSED'',
      ''proxy112 == SerializeRandomXHeader (112B, hashRandomX zeroed)'']"
  proof -
    have l: "length (hexstr ?H) = 224" using len by simp
    have s: "js_substring 136 144 (hexstr ?H) = hexstr (rev [0x5f, 0x37, 0x59, 0xd1])"
      "js_substring 152 160 (hexstr ?H) = NONCE_SER" "js_substring 0 8 (js_substring 0 160 (hexstr ?H)) = ''00000020''"
      using js_substring_hexstr [of 68 72 ?H] js_substring_hexstr [of 76 80 ?H] js_substring_hexstr [of 0 80 ?H]
        js_substring_hexstr [of 0 4 "take 80 ?H"] len
      by (simp_all add: script_bytes version_hexstr)
    have h: "length (js_substring 0 160 (hexstr ?H)) = 160" using l by (simp add: js_substring_def)
    show ?thesis unfolding hashdomain_asserts_def Let_def strictEqual_def l s u h by simp
  qed
  then show ?thesis unfolding hashdomain_run_def t using createJobBlob_hexstr [OF ne, of "[0x40, 0x34, 0x17, 0x17]"] b r
    by (simp add: Let_def)
qed

end
