(* ===== verification/Hash_Buffer.thy ===== *)
theory Hash_Buffer
  imports Tx
begin

text \<open>
  The contract of a hash function that buffers its input: bytes are absorbed in blocks of a fixed
  rate, and what does not fill a block waits in a buffer. The interface is the locale
  \<open>buffered_hash\<close>; its lemmas show that only the concatenation of the pieces written matters.
\<close>

text \<open>Absorbing every full block: the state and the bytes that are left.\<close>

function absorb_all :: "nat \<Rightarrow> (bytes \<Rightarrow> 's \<Rightarrow> 's) \<Rightarrow> 's \<Rightarrow> bytes \<Rightarrow> 's \<times> bytes" where
  "absorb_all rate absorb s d =
     (if rate = 0 \<or> length d < rate then (s, d) else absorb_all rate absorb (absorb (take rate d) s) (drop rate d))"
  by pat_completeness auto
termination by (relation "measure (\<lambda>(r, _, _, d). length d)") auto

declare absorb_all.simps [simp del]

text \<open>\<open>memcpy\<close> into a buffer at an offset.\<close>

definition memcpy :: "'a list \<Rightarrow> nat \<Rightarrow> 'a list \<Rightarrow> 'a list" where
  "memcpy buf off d = take off buf @ d @ drop (off + length d) buf"

lemma length_memcpy [simp]: "off + length d \<le> length buf \<Longrightarrow> length (memcpy buf off d) = length buf"
  by (simp add: memcpy_def)

lemma take_memcpy [simp]: "off \<le> length buf \<Longrightarrow> take (off + length d) (memcpy buf off d) = take off buf @ d"
  by (simp add: memcpy_def)

lemma absorb_all_short: "length d < rate \<Longrightarrow> absorb_all rate absorb s d = (s, d)"
  by (subst absorb_all.simps) simp

lemma absorb_all_block:
  "0 < rate \<Longrightarrow> length b = rate \<Longrightarrow> absorb_all rate absorb s (b @ d) = absorb_all rate absorb (absorb b s) d"
  by (subst absorb_all.simps) simp

lemma absorb_all_rest: "0 < rate \<Longrightarrow> length (snd (absorb_all rate absorb s d)) = length d mod rate"
proof (induction rate absorb s d rule: absorb_all.induct)
  case (1 rate absorb s d)
  then show ?case by (subst absorb_all.simps) (auto simp: le_mod_geq)
qed

lemma absorb_all_append:
  "0 < rate \<Longrightarrow> absorb_all rate absorb s (a @ b) = (case absorb_all rate absorb s a of (s', r) \<Rightarrow> absorb_all rate absorb s' (r @ b))"
proof (induction rate absorb s a rule: absorb_all.induct)
  case (1 rate absorb s a)
  show ?case
  proof (cases "length a < rate")
    case True
    then show ?thesis by (simp add: absorb_all_short)
  next
    case False
    have "a @ b = take rate a @ (drop rate a @ b)" by (metis append.assoc append_take_drop_id)
    then have "absorb_all rate absorb s (a @ b) = absorb_all rate absorb (absorb (take rate a) s) (drop rate a @ b)"
      using absorb_all_block [of rate "take rate a"] False 1(2) by (metis length_take min_absorb2 not_le_imp_less not_less order_less_imp_le)
    moreover have "absorb_all rate absorb s a = absorb_all rate absorb (absorb (take rate a) s) (drop rate a)"
      using False 1(2) by (subst absorb_all.simps) simp
    ultimately show ?thesis using 1 False by simp
  qed
qed

text \<open>Writing a sequence of pieces, one call after the other.\<close>

fun puts :: "(bytes \<Rightarrow> 'h \<Rightarrow> 'h option) \<Rightarrow> bytes list \<Rightarrow> 'h \<Rightarrow> 'h option" where
  "puts put [] h = Some h"
| "puts put (d # ds) h = Option.bind (put d h) (puts put ds)"

text \<open>
  The interface: \<open>view\<close> is the absorbed state with the buffered bytes, \<open>ok\<close> the invariant of the object.
\<close>

locale buffered_hash =
  fixes rate :: nat
    and absorb :: "bytes \<Rightarrow> 's \<Rightarrow> 's"
    and view :: "'h \<Rightarrow> 's \<times> bytes"
    and ok :: "'h \<Rightarrow> bool"
    and put :: "bytes \<Rightarrow> 'h \<Rightarrow> 'h option"
  assumes rate_pos: "0 < rate"
    and view_short: "ok h \<Longrightarrow> length (snd (view h)) < rate"
    and put_view: "ok h \<Longrightarrow>
      \<exists>h'. put d h = Some h' \<and> ok h' \<and> view h' = absorb_all rate absorb (fst (view h)) (snd (view h) @ d)"
begin

text \<open>Writing pieces absorbs their concatenation.\<close>

lemma puts_view:
  "ok h \<Longrightarrow> \<exists>h'. puts put ds h = Some h' \<and> ok h' \<and>
      view h' = absorb_all rate absorb (fst (view h)) (snd (view h) @ concat ds)"
proof (induction ds arbitrary: h)
  case Nil
  then show ?case using view_short [OF Nil] by (simp add: absorb_all_short)
next
  case (Cons d ds)
  obtain h1 where h1: "put d h = Some h1" "ok h1"
    "view h1 = absorb_all rate absorb (fst (view h)) (snd (view h) @ d)"
    using put_view [OF Cons.prems] by blast
  obtain h2 where h2: "puts put ds h1 = Some h2" "ok h2"
    "view h2 = absorb_all rate absorb (fst (view h1)) (snd (view h1) @ concat ds)"
    using Cons.IH [OF h1(2)] by blast
  then show ?case
    using absorb_all_append [OF rate_pos, of absorb "fst (view h)" "snd (view h) @ d" "concat ds"]
    by (simp add: h1(1,3) split_beta)
qed

end

text \<open>A hash function: fresh objects, and a digest that depends on the view alone.\<close>

locale hash_function = buffered_hash rate absorb view ok put
  for rate and absorb :: "bytes \<Rightarrow> 's \<Rightarrow> 's" and view :: "'h \<Rightarrow> 's \<times> bytes" and ok and put +
  fixes start :: 's
    and fresh :: "'h \<Rightarrow> bool"
    and finish :: "'h \<Rightarrow> bytes"
    and final :: "'s \<Rightarrow> bytes \<Rightarrow> bytes"
  assumes fresh_view: "fresh h \<Longrightarrow> ok h \<and> view h = (start, [])"
    and finish_view: "ok h \<Longrightarrow> finish h = final (fst (view h)) (snd (view h))"
begin

lemma digest_pieces:
  "fresh h \<Longrightarrow> map_option finish (puts put ds h) =
     Some (case_prod final (absorb_all rate absorb start (concat ds)))"
  using fresh_view [of h] puts_view [of h ds] by (auto simp: finish_view split_beta)

lemma digest_once:
  "fresh h \<Longrightarrow> map_option finish (put d h) = Some (case_prod final (absorb_all rate absorb start d))"
  using digest_pieces [of h "[d]"] by (cases "put d h") auto

lemma digest_streaming:
  "fresh h \<Longrightarrow> fresh h' \<Longrightarrow> map_option finish (puts put ds h) = map_option finish (put (concat ds) h')"
  by (simp add: digest_pieces digest_once)

end

section \<open>Counted loops\<close>

fun steps :: "(nat \<Rightarrow> 's \<Rightarrow> 's option) \<Rightarrow> nat list \<Rightarrow> 's \<Rightarrow> 's option" where
  "steps f [] s = Some s"
| "steps f (i # is') s = do { s' \<leftarrow> f i s; steps f is' s' }"

text \<open>An invariant of the body of a loop is one of the loop, and the loop returns.\<close>

lemma steps_run:
  assumes "\<And>i s. i \<in> set is' \<Longrightarrow> I s \<Longrightarrow> \<exists>s'. f i s = Some s' \<and> I s'"
  shows "I s \<Longrightarrow> \<exists>s'. steps f is' s = Some s' \<and> I s'"
  using assms
proof (induction is' arbitrary: s)
  case (Cons i is')
  obtain s1 where s1: "f i s = Some s1" "I s1" using Cons.prems by (meson list.set_intros(1))
  then show ?case using Cons.IH [OF s1(2)] Cons.prems(2) by simp
qed simp

lemma steps_append: "steps f (xs @ ys) s = Option.bind (steps f xs s) (steps f ys)"
  by (induction xs arbitrary: s) (auto split: bind_splits)

text \<open>The same with an invariant that depends on how far the loop is.\<close>

lemma steps_count:
  assumes "\<And>k s. k < n \<Longrightarrow> J k s \<Longrightarrow> \<exists>s'. f k s = Some s' \<and> J (Suc k) s'"
  shows "J 0 s \<Longrightarrow> \<exists>s'. steps f [0..<n] s = Some s' \<and> J n s'"
  using assms
proof (induction n)
  case (Suc n)
  then obtain s1 where s1: "steps f [0..<n] s = Some s1" "J n s1" by (meson less_SucI)
  then show ?case using Suc.prems(2) [of n s1] by (auto simp: steps_append)
qed simp

end
