(* ===== verification/Sha256.thy ===== *)
theory Sha256
  imports Hash_Buffer
begin

unbundle bit_operations_syntax

text \<open>
  The portable part of \<open>crypto/sha256.cpp\<close>: the compression function with its rolling message window,
  and the class \<open>CSHA256\<close>; with \<open>CHash256\<close> of \<open>hash.h\<close>. The compression is proved equal to the one of
  the standard with its 64-word schedule, and a sequence of writes to the hash of the padded message.
\<close>

definition Ch :: "u32 \<Rightarrow> u32 \<Rightarrow> u32 \<Rightarrow> u32" where "Ch x y z = z XOR (x AND (y XOR z))"
definition Maj :: "u32 \<Rightarrow> u32 \<Rightarrow> u32 \<Rightarrow> u32" where "Maj x y z = (x AND y) OR (z AND (x OR y))"

definition Sigma0 :: "u32 \<Rightarrow> u32" where
  "Sigma0 x = (drop_bit 2 x OR push_bit 30 x) XOR (drop_bit 13 x OR push_bit 19 x) XOR (drop_bit 22 x OR push_bit 10 x)"

definition Sigma1 :: "u32 \<Rightarrow> u32" where
  "Sigma1 x = (drop_bit 6 x OR push_bit 26 x) XOR (drop_bit 11 x OR push_bit 21 x) XOR (drop_bit 25 x OR push_bit 7 x)"

definition sigma0 :: "u32 \<Rightarrow> u32" where
  "sigma0 x = (drop_bit 7 x OR push_bit 25 x) XOR (drop_bit 18 x OR push_bit 14 x) XOR drop_bit 3 x"

definition sigma1 :: "u32 \<Rightarrow> u32" where
  "sigma1 x = (drop_bit 17 x OR push_bit 15 x) XOR (drop_bit 19 x OR push_bit 13 x) XOR drop_bit 10 x"

definition ReadBE32 :: "bytes \<Rightarrow> u32" where
  "ReadBE32 p = word_of_nat (le_val (rev (take 4 p)))"

definition WriteBE32 :: "u32 \<Rightarrow> bytes" where
  "WriteBE32 x = be_bytes 4 (unat x)"

definition WriteBE64 :: "u64 \<Rightarrow> bytes" where
  "WriteBE64 x = be_bytes 8 (unat x)"

text \<open>
  The eight working variables, in the order the call of \<open>Round\<close> passes them: a call updates \<open>d\<close> and
  \<open>h\<close>, and the next call passes the variables rotated by one place.
\<close>

type_synonym registers = "u32 \<times> u32 \<times> u32 \<times> u32 \<times> u32 \<times> u32 \<times> u32 \<times> u32"

fun sha_Round :: "u32 \<Rightarrow> registers \<Rightarrow> registers" where
  "sha_Round k (a, b, c, d, e, f, g, h) =
     (let t1 = h + Sigma1 e + Ch e f g + k; t2 = Sigma0 a + Maj a b c
      in (t1 + t2, a, b, c, d + t1, e, f, g))"

text \<open>The calls of \<open>Round\<close> in order: the constant of the call and the window word it reads.\<close>

definition sha_rounds :: "(u32 \<times> nat) list" where
  "sha_rounds =
    [(0x428a2f98, 0), (0x71374491, 1), (0xb5c0fbcf, 2), (0xe9b5dba5, 3),
     (0x3956c25b, 4), (0x59f111f1, 5), (0x923f82a4, 6), (0xab1c5ed5, 7),
     (0xd807aa98, 8), (0x12835b01, 9), (0x243185be, 10), (0x550c7dc3, 11),
     (0x72be5d74, 12), (0x80deb1fe, 13), (0x9bdc06a7, 14), (0xc19bf174, 15),
     (0xe49b69c1, 0), (0xefbe4786, 1), (0x0fc19dc6, 2), (0x240ca1cc, 3),
     (0x2de92c6f, 4), (0x4a7484aa, 5), (0x5cb0a9dc, 6), (0x76f988da, 7),
     (0x983e5152, 8), (0xa831c66d, 9), (0xb00327c8, 10), (0xbf597fc7, 11),
     (0xc6e00bf3, 12), (0xd5a79147, 13), (0x06ca6351, 14), (0x14292967, 15),
     (0x27b70a85, 0), (0x2e1b2138, 1), (0x4d2c6dfc, 2), (0x53380d13, 3),
     (0x650a7354, 4), (0x766a0abb, 5), (0x81c2c92e, 6), (0x92722c85, 7),
     (0xa2bfe8a1, 8), (0xa81a664b, 9), (0xc24b8b70, 10), (0xc76c51a3, 11),
     (0xd192e819, 12), (0xd6990624, 13), (0xf40e3585, 14), (0x106aa070, 15),
     (0x19a4c116, 0), (0x1e376c08, 1), (0x2748774c, 2), (0x34b0bcb5, 3),
     (0x391c0cb3, 4), (0x4ed8aa4a, 5), (0x5b9cca4f, 6), (0x682e6ff3, 7),
     (0x748f82ee, 8), (0x78a5636f, 9), (0x84c87814, 10), (0x8cc70208, 11),
     (0x90befffa, 12), (0xa4506ceb, 13), (0xbef9a3f7, 14), (0xc67178f2, 15)]"

definition sha_Initialize :: registers where
  "sha_Initialize = (0x6a09e667, 0xbb67ae85, 0x3c6ef372, 0xa54ff53a, 0x510e527f, 0x9b05688c, 0x1f83d9ab, 0x5be0cd19)"

text \<open>The window of sixteen words: read for the first rounds, then updated in place.\<close>

definition sha_window :: "bytes \<Rightarrow> nat \<Rightarrow> u32 list \<Rightarrow> u32 list" where
  "sha_window chunk t w =
     w[t mod 16 := if t < 16 then ReadBE32 (drop (4 * t) chunk)
       else w ! (t mod 16) + (sigma1 (w ! ((t + 14) mod 16)) + w ! ((t + 9) mod 16) + sigma0 (w ! ((t + 1) mod 16)))]"

definition sha_step :: "bytes \<Rightarrow> nat \<Rightarrow> registers \<times> u32 list \<Rightarrow> registers \<times> u32 list" where
  "sha_step chunk t = (\<lambda>(r, w). let w' = sha_window chunk t w; (k, j) = sha_rounds ! t in (sha_Round (k + w' ! j) r, w'))"

fun sha_add :: "registers \<Rightarrow> registers \<Rightarrow> registers" where
  "sha_add (a, b, c, d, e, f, g, h) (a', b', c', d', e', f', g', h') =
     (a + a', b + b', c + c', d + d', e + e', f + f', g + g', h + h')"

definition sha_Transform1 :: "bytes \<Rightarrow> registers \<Rightarrow> registers" where
  "sha_Transform1 chunk s = sha_add s (fst (fold (sha_step chunk) [0..<64] (s, replicate 16 0)))"

fun sha_Transform :: "registers \<Rightarrow> bytes \<Rightarrow> nat \<Rightarrow> registers" where
  "sha_Transform s chunk 0 = s"
| "sha_Transform s chunk (Suc blocks) = sha_Transform (sha_Transform1 chunk s) (drop 64 chunk) blocks"

record CSHA256 =
  sha_s :: registers
  sha_buf :: bytes
  sha_bytes :: u64

definition CSHA256_init :: "bytes \<Rightarrow> CSHA256" where
  "CSHA256_init junk = \<lparr>sha_s = sha_Initialize, sha_buf = junk, sha_bytes = 0\<rparr>"

definition CSHA256_Reset :: "CSHA256 \<Rightarrow> CSHA256" where
  "CSHA256_Reset h = h\<lparr>sha_bytes := 0, sha_s := sha_Initialize\<rparr>"

text \<open>The three phases of \<open>Write\<close>: fill the buffer, transform the full blocks, keep what remains.\<close>

definition sha_fill :: "bytes \<Rightarrow> CSHA256 \<Rightarrow> CSHA256 \<times> bytes" where
  "sha_fill data h =
     (let bufsize = unat (sha_bytes h mod 64)
      in if bufsize \<noteq> 0 \<and> bufsize + length data \<ge> 64
         then let buf = memcpy (sha_buf h) bufsize (take (64 - bufsize) data)
              in (h\<lparr>sha_buf := buf, sha_bytes := sha_bytes h + of_nat (64 - bufsize), sha_s := sha_Transform (sha_s h) buf 1\<rparr>,
                  drop (64 - bufsize) data)
         else (h, data))"

definition sha_blocks :: "CSHA256 \<times> bytes \<Rightarrow> CSHA256 \<times> bytes" where
  "sha_blocks = (\<lambda>(h, data).
     if length data \<ge> 64
     then let blocks = length data div 64
          in (h\<lparr>sha_s := sha_Transform (sha_s h) data blocks, sha_bytes := sha_bytes h + of_nat (64 * blocks)\<rparr>,
              drop (64 * blocks) data)
     else (h, data))"

definition sha_keep :: "nat \<Rightarrow> CSHA256 \<times> bytes \<Rightarrow> CSHA256" where
  "sha_keep bufsize = (\<lambda>(h, data).
     if length data > 0
     then h\<lparr>sha_buf := memcpy (sha_buf h) bufsize data, sha_bytes := sha_bytes h + of_nat (length data)\<rparr>
     else h)"

definition CSHA256_Write :: "bytes \<Rightarrow> CSHA256 \<Rightarrow> CSHA256" where
  "CSHA256_Write data h =
     (let bufsize = unat (sha_bytes h mod 64);
          bufsize' = (if bufsize \<noteq> 0 \<and> bufsize + length data \<ge> 64 then 0 else bufsize)
      in sha_keep bufsize' (sha_blocks (sha_fill data h)))"

fun registers_list :: "registers \<Rightarrow> u32 list" where
  "registers_list (a, b, c, d, e, f, g, h) = [a, b, c, d, e, f, g, h]"

definition CSHA256_Finalize :: "CSHA256 \<Rightarrow> bytes \<times> CSHA256" where
  "CSHA256_Finalize h =
     (let pad = 0x80 # replicate 63 0;
          sizedesc = WriteBE64 (push_bit 3 (sha_bytes h));
          h1 = CSHA256_Write (take (1 + ((119 - unat (sha_bytes h mod 64)) mod 64)) pad) h;
          h2 = CSHA256_Write sizedesc h1
      in (concat (map WriteBE32 (registers_list (sha_s h2))), h2))"

definition CHash256_Finalize :: "CSHA256 \<Rightarrow> bytes \<times> CSHA256" where
  "CHash256_Finalize h =
     (let (buf, h1) = CSHA256_Finalize h in CSHA256_Finalize (CSHA256_Write buf (CSHA256_Reset h1)))"

section \<open>The compression function\<close>

text \<open>The schedule and the functions of the standard.\<close>

fun sha_W :: "bytes \<Rightarrow> nat \<Rightarrow> u32" where
  "sha_W chunk t = (if t < 16 then ReadBE32 (drop (4 * t) chunk)
     else (word_rotr 17 (sha_W chunk (t - 2)) XOR word_rotr 19 (sha_W chunk (t - 2)) XOR drop_bit 10 (sha_W chunk (t - 2)))
       + sha_W chunk (t - 7)
       + (word_rotr 7 (sha_W chunk (t - 15)) XOR word_rotr 18 (sha_W chunk (t - 15)) XOR drop_bit 3 (sha_W chunk (t - 15)))
       + sha_W chunk (t - 16))"

declare sha_W.simps [simp del]

fun round_spec :: "u32 \<Rightarrow> u32 \<Rightarrow> registers \<Rightarrow> registers" where
  "round_spec k w (a, b, c, d, e, f, g, h) =
     (let t1 = h + (word_rotr 6 e XOR word_rotr 11 e XOR word_rotr 25 e) + ((e AND f) XOR (NOT e AND g)) + k + w;
          t2 = (word_rotr 2 a XOR word_rotr 13 a XOR word_rotr 22 a) + ((a AND b) XOR (a AND c) XOR (b AND c))
      in (t1 + t2, a, b, c, d + t1, e, f, g))"

definition compress_spec :: "bytes \<Rightarrow> registers \<Rightarrow> registers" where
  "compress_spec chunk s = sha_add s (fold (\<lambda>t. round_spec (fst (sha_rounds ! t)) (sha_W chunk t)) [0..<64] s)"

lemma rotr_shifts:
  fixes x :: u32
  assumes "0 < k" "k < 32"
  shows "drop_bit k x OR push_bit (32 - k) x = word_rotr k x"
proof (rule bit_word_eqI)
  fix i
  assume "i < LENGTH(32)"
  then have i: "i < 32" by simp
  have r: "bit (word_rotr k x) i = bit x ((i + k) mod 32)" using i by (simp add: bit_word_rotr_iff)
  have l: "bit (drop_bit k x OR push_bit (32 - k) x) i = (bit x (i + k) \<or> 32 - k \<le> i \<and> bit x (i - (32 - k)))"
    using i by (simp add: bit_or_iff bit_drop_bit_eq bit_push_bit_iff add.commute)
  show "bit (drop_bit k x OR push_bit (32 - k) x) i = bit (word_rotr k x) i"
  proof (cases "i + k < 32")
    case True
    then show ?thesis unfolding l r by auto
  next
    case False
    then have "\<not> bit x (i + k)" "(i + k) mod 32 = i - (32 - k)" "32 - k \<le> i"
      using bit_imp_le_length [of x "i + k"] i assms by (auto simp: mod_if)
    then show ?thesis unfolding l r by simp
  qed
qed

lemma sigma_specs:
  "Sigma0 x = word_rotr 2 x XOR word_rotr 13 x XOR word_rotr 22 x"
  "Sigma1 x = word_rotr 6 x XOR word_rotr 11 x XOR word_rotr 25 x"
  "sigma0 x = word_rotr 7 x XOR word_rotr 18 x XOR drop_bit 3 x"
  "sigma1 x = word_rotr 17 x XOR word_rotr 19 x XOR drop_bit 10 x"
  by (simp_all add: Sigma0_def Sigma1_def sigma0_def sigma1_def rotr_shifts [symmetric])

lemma Ch_spec: "Ch x y z = (x AND y) XOR (NOT x AND z)"
  by (rule bit_word_eqI) (auto simp: Ch_def bit_simps)

lemma Maj_spec: "Maj x y z = (x AND y) XOR (x AND z) XOR (y AND z)"
  by (rule bit_word_eqI) (auto simp: Maj_def bit_simps)

lemma round_eq: "sha_Round (k + w) r = round_spec k w r"
  by (rule sha_Round.cases [of "(k, r)"]) (simp_all add: sigma_specs Ch_spec Maj_spec Let_def ac_simps)

text \<open>After \<open>t\<close> rounds the window holds the last sixteen words of the schedule.\<close>

definition window_holds :: "bytes \<Rightarrow> nat \<Rightarrow> u32 list \<Rightarrow> bool" where
  "window_holds chunk t w \<longleftrightarrow> length w = 16 \<and> (\<forall>i. i < t \<longrightarrow> t \<le> i + 16 \<longrightarrow> w ! (i mod 16) = sha_W chunk i)"

lemma mod16_inj:
  assumes "i \<noteq> t" "i \<le> t" "t < i + 16"
  shows "i mod 16 \<noteq> t mod (16::nat)"
proof
  assume "i mod 16 = t mod 16"
  then have "16 dvd t - i" using assms(2) by (metis mod_eq_dvd_iff_nat)
  then show False using assms by (auto dest: dvd_imp_le)
qed

lemma window_next:
  assumes "window_holds chunk t w"
  shows "sha_window chunk t w ! (t mod 16) = sha_W chunk t"
proof (cases "t < 16")
  case True
  then show ?thesis using assms by (subst sha_W.simps) (simp add: sha_window_def window_holds_def)
next
  case False
  have at: "w ! ((t + j) mod 16) = sha_W chunk (t - (16 - j))" if "j < 16" for j
  proof -
    have "t + j = (t - (16 - j)) + 16" using that False by simp
    then have "(t + j) mod 16 = (t - (16 - j)) mod 16" by (metis mod_add_self2)
    moreover have "t - (16 - j) < t" "t \<le> t - (16 - j) + 16" using that False by auto
    ultimately show ?thesis using assms by (simp add: window_holds_def)
  qed
  show ?thesis using assms False at [of 0] at [of 14] at [of 9] at [of 1]
    by (subst sha_W.simps) (simp add: sha_window_def window_holds_def sigma_specs ac_simps)
qed

lemma window_step: "window_holds chunk t w \<Longrightarrow> window_holds chunk (Suc t) (sha_window chunk t w)"
proof -
  assume a: "window_holds chunk t w"
  have "sha_window chunk t w ! (i mod 16) = sha_W chunk i" if "i < Suc t" "Suc t \<le> i + 16" for i
  proof (cases "i = t")
    case True
    then show ?thesis using window_next [OF a] by simp
  next
    case False
    then have "i mod 16 \<noteq> t mod 16" using mod16_inj that by simp
    then show ?thesis using a that False by (simp add: sha_window_def window_holds_def)
  qed
  then show ?thesis using a by (simp add: window_holds_def sha_window_def)
qed

lemma sha_rounds_word: "t < 64 \<Longrightarrow> snd (sha_rounds ! t) = t mod 16"
proof -
  have "map snd sha_rounds = map (\<lambda>t. t mod 16) [0..<64]" by (simp add: sha_rounds_def upt_rec)
  then have "map snd sha_rounds ! t = map (\<lambda>t. t mod 16) [0..<64] ! t" by simp
  then show "t < 64 \<Longrightarrow> snd (sha_rounds ! t) = t mod 16" by (simp add: sha_rounds_def [THEN arg_cong, of length])
qed

lemma rounds_eq:
  "t \<le> 64 \<Longrightarrow>
   fst (fold (sha_step chunk) [0..<t] (s, replicate 16 0)) = fold (\<lambda>t. round_spec (fst (sha_rounds ! t)) (sha_W chunk t)) [0..<t] s \<and>
   window_holds chunk t (snd (fold (sha_step chunk) [0..<t] (s, replicate 16 0)))"
proof (induction t)
  case 0
  then show ?case by (simp add: window_holds_def)
next
  case (Suc t)
  then show ?case by (simp add: sha_step_def split_beta Let_def sha_rounds_word window_next window_step round_eq)
qed

lemma Transform1_eq: "sha_Transform1 chunk s = compress_spec chunk s"
  using rounds_eq [of 64 chunk s] by (simp add: sha_Transform1_def compress_spec_def)

lemma sha_W_take: "64 \<le> length chunk \<Longrightarrow> sha_W (take 64 chunk) t = sha_W chunk t"
proof (induction t rule: less_induct)
  case (less t)
  have "ReadBE32 (drop (4 * t) (take 64 chunk)) = ReadBE32 (drop (4 * t) chunk)" if "t < 16"
    using that by (simp add: ReadBE32_def drop_take min_def)
  then show ?case using less by (subst (1 2) sha_W.simps) simp
qed

lemma compress_take: "64 \<le> length chunk \<Longrightarrow> compress_spec (take 64 chunk) s = compress_spec chunk s"
  by (simp add: compress_spec_def sha_W_take)

section \<open>The class \<open>CSHA256\<close>\<close>

definition sha_absorb :: "bytes \<Rightarrow> registers \<times> u64 \<Rightarrow> registers \<times> u64" where
  "sha_absorb b = (\<lambda>(s, c). (sha_Transform1 b s, c + 64))"

definition sha_view :: "CSHA256 \<Rightarrow> (registers \<times> u64) \<times> bytes" where
  "sha_view h = (let b = unat (sha_bytes h mod 64) in ((sha_s h, sha_bytes h - of_nat b), take b (sha_buf h)))"

definition sha_ok :: "CSHA256 \<Rightarrow> bool" where
  "sha_ok h \<longleftrightarrow> length (sha_buf h) = 64"

text \<open>The length in bytes of what is buffered is the byte count modulo the block size.\<close>

lemma unat_mod64: "unat (x mod 64 :: u64) = unat x mod 64"
  by (simp add: unat_mod_distrib)

lemma mod64_add: "unat ((x + of_nat k) mod 64 :: u64) = (unat (x mod 64) + k) mod 64"
proof -
  have "unat (x + of_nat k :: u64) mod 64 = (unat x + k) mod 64"
    by (simp add: unat_word_ariths unat_of_nat mod_mod_cancel mod_add_right_eq)
  then show ?thesis by (simp add: unat_mod64 mod_add_left_eq)
qed

lemma mod64_bound: "unat (x mod 64 :: u64) < 64"
  by (simp add: unat_mod64)

lemma absorb_all_sha:
  "absorb_all 64 sha_absorb (s, c) d =
     ((sha_Transform s d (length d div 64), c + of_nat (64 * (length d div 64))), drop (64 * (length d div 64)) d)"
proof (induction "length d" arbitrary: s c d rule: less_induct)
  case less
  show ?case
  proof (cases "length d < 64")
    case True
    then show ?thesis by (simp add: absorb_all_short)
  next
    case False
    then obtain q where q: "length d div 64 = Suc q" "length (drop 64 d) div 64 = q"
      by (cases "length d div 64") (auto simp: le_div_geq)
    have "absorb_all 64 sha_absorb (s, c) d = absorb_all 64 sha_absorb (sha_Transform1 d s, c + 64) (drop 64 d)"
      using False by (subst absorb_all.simps) (simp add: sha_absorb_def Transform1_eq compress_take)
    then show ?thesis using less [of "drop 64 d" "sha_Transform1 d s" "c + 64"] False q
      by (simp add: add.commute algebra_simps)
  qed
qed

text \<open>Phases two and three, on an object whose buffer is empty or is not filled by the data.\<close>

lemma sha_tail_empty:
  assumes "sha_ok h" "unat (sha_bytes h mod 64) = 0"
  shows "sha_ok (sha_keep 0 (sha_blocks (h, data))) \<and>
    sha_view (sha_keep 0 (sha_blocks (h, data))) = absorb_all 64 sha_absorb (sha_s h, sha_bytes h) data"
proof -
  define q r where "q = length data div 64" and "r = length data mod 64"
  have len: "length data = 64 * q + r" "r < 64" by (auto simp: q_def r_def)
  have b: "unat ((sha_bytes h + of_nat (64 * q)) mod 64) = 0" "unat ((sha_bytes h + of_nat (64 * q) + of_nat r) mod 64) = r"
    using assms(2) len(2) by (simp_all only: mod64_add) simp_all
  have st: "sha_keep 0 (sha_blocks (h, data)) =
    h\<lparr>sha_s := sha_Transform (sha_s h) data q, sha_bytes := sha_bytes h + of_nat (64 * q) + of_nat r,
      sha_buf := memcpy (sha_buf h) 0 (drop (64 * q) data)\<rparr>"
    using len by (cases "q = 0"; cases "r = 0")
      (auto simp: sha_keep_def sha_blocks_def Let_def q_def [symmetric] memcpy_def)
  have "length (drop (64 * q) data) = r" using len by simp
  then show ?thesis unfolding st absorb_all_sha q_def [symmetric]
    using assms(1) b len(2) by (simp add: sha_ok_def sha_view_def Let_def memcpy_def)
qed

lemma sha_tail_part:
  assumes "sha_ok h" "unat (sha_bytes h mod 64) = b" "b + length data < 64"
  shows "sha_ok (sha_keep b (sha_blocks (h, data))) \<and>
    sha_view (sha_keep b (sha_blocks (h, data))) = (fst (sha_view h), snd (sha_view h) @ data)"
proof (cases "data = []")
  case True
  then show ?thesis using assms by (simp add: sha_keep_def sha_blocks_def)
next
  case False
  have "unat ((sha_bytes h + of_nat (length data)) mod 64) = b + length data"
    using assms by (simp only: mod64_add) simp
  then show ?thesis using assms False
    by (simp add: sha_keep_def sha_blocks_def sha_ok_def sha_view_def Let_def)
qed

lemma sha_write_run:
  assumes "sha_ok h"
  shows "sha_ok (CSHA256_Write data h) \<and>
    sha_view (CSHA256_Write data h) = absorb_all 64 sha_absorb (fst (sha_view h)) (snd (sha_view h) @ data)"
proof -
  define b where "b = unat (sha_bytes h mod 64)"
  have b: "b < 64" "unat (sha_bytes h mod 64) = b" using mod64_bound [of "sha_bytes h"] by (auto simp: b_def)
  have v: "sha_view h = ((sha_s h, sha_bytes h - of_nat b), take b (sha_buf h))" by (simp add: sha_view_def b_def)
  consider "b = 0" | "b \<noteq> 0" "b + length data < 64" | "b \<noteq> 0" "64 \<le> b + length data" by linarith
  then show ?thesis
  proof cases
    case 1
    then show ?thesis using sha_tail_empty [OF assms, of data] b v by (simp add: CSHA256_Write_def sha_fill_def)
  next
    case 2
    then show ?thesis using sha_tail_part [OF assms b(2) 2(2)] b v assms
      by (simp add: CSHA256_Write_def sha_fill_def absorb_all_short sha_ok_def)
  next
    case 3
    let ?buf = "take b (sha_buf h) @ take (64 - b) data"
    let ?h = "h\<lparr>sha_buf := ?buf, sha_bytes := sha_bytes h + of_nat (64 - b), sha_s := sha_Transform1 ?buf (sha_s h)\<rparr>"
    have len: "length ?buf = 64" using assms 3 b by (simp add: sha_ok_def)
    have fill: "sha_fill data h = (?h, drop (64 - b) data)"
      using 3 b assms by (simp add: sha_fill_def Let_def memcpy_def sha_ok_def)
    have "sha_bytes ?h = sha_bytes h + of_nat (64 - b)" by simp
    then have "unat (sha_bytes ?h mod 64) = 0" using b by (simp only: mod64_add) simp
    moreover have "sha_ok ?h" using len by (simp add: sha_ok_def)
    ultimately have t: "sha_ok (CSHA256_Write data h) \<and>
      sha_view (CSHA256_Write data h) = absorb_all 64 sha_absorb (sha_s ?h, sha_bytes ?h) (drop (64 - b) data)"
      using sha_tail_empty [of ?h "drop (64 - b) data"] fill 3 b by (simp add: CSHA256_Write_def Let_def)
    have c: "sha_bytes ?h = sha_bytes h - of_nat b + 64" using b by (simp add: of_nat_diff)
    have "absorb_all 64 sha_absorb (fst (sha_view h)) (snd (sha_view h) @ data) =
      absorb_all 64 sha_absorb (sha_s ?h, sha_bytes ?h) (drop (64 - b) data)"
      using absorb_all_block [of 64 ?buf sha_absorb "fst (sha_view h)" "drop (64 - b) data"] len
      unfolding c by (simp add: v sha_absorb_def)
    then show ?thesis using t by simp
  qed
qed

text \<open>The padded message of the standard, and the digest.\<close>

definition sha_pad :: "nat \<Rightarrow> bytes" where
  "sha_pad len = 0x80 # replicate ((119 - len mod 64) mod 64) 0 @ be_bytes 8 (8 * len mod 2 ^ 64)"

definition sha_digest :: "registers \<Rightarrow> bytes" where
  "sha_digest s = concat (map WriteBE32 (registers_list s))"

definition sha256_spec :: "bytes \<Rightarrow> bytes" where
  "sha256_spec data = sha_digest (fst (absorb_all 64 compress_spec sha_Initialize (data @ sha_pad (length data))))"

definition sha_final :: "registers \<times> u64 \<Rightarrow> bytes \<Rightarrow> bytes" where
  "sha_final sc r =
     sha_digest (fst (fst (absorb_all 64 sha_absorb sc (r @ sha_pad (unat (snd sc + of_nat (length r)))))))"

lemma sha_view_total: "snd (fst (sha_view h)) + of_nat (unat (sha_bytes h mod 64)) = sha_bytes h"
  by (simp add: sha_view_def Let_def)

lemma sha_size: "WriteBE64 (push_bit 3 x) = be_bytes 8 (8 * unat x mod 2 ^ 64)"
  by (simp add: WriteBE64_def push_bit_eq_mult unat_mult_lem unat_word_ariths mult.commute)

lemma sha_finalize_view:
  assumes "sha_ok h"
  shows "fst (CSHA256_Finalize h) = sha_final (fst (sha_view h)) (snd (sha_view h))"
proof -
  define b where "b = unat (sha_bytes h mod 64)"
  let ?p = "take (1 + ((119 - b) mod 64)) (0x80 # replicate 63 0)"
  have "(119 - b) mod 64 \<le> 63" using mod_less_divisor [of 64 "119 - b"] by linarith
  then have p: "?p = 0x80 # replicate ((119 - b) mod 64) 0" by (simp add: min_absorb1)
  let ?l = "be_bytes 8 (8 * unat (sha_bytes h) mod 2 ^ 64)"
  have bm: "b = unat (sha_bytes h) mod 64" by (simp add: b_def unat_mod64)
  have len: "length (snd (sha_view h)) = b" using assms mod64_bound [of "sha_bytes h"]
    by (simp add: sha_view_def sha_ok_def b_def)
  have w1: "sha_ok (CSHA256_Write ?p h)"
    "sha_view (CSHA256_Write ?p h) = absorb_all 64 sha_absorb (fst (sha_view h)) (snd (sha_view h) @ ?p)"
    using sha_write_run [OF assms] by auto
  have "sha_view (CSHA256_Write ?l (CSHA256_Write ?p h)) =
    absorb_all 64 sha_absorb (fst (sha_view h)) ((snd (sha_view h) @ ?p) @ ?l)"
    using sha_write_run [OF w1(1), of ?l] w1(2) absorb_all_append [of 64 sha_absorb "fst (sha_view h)" "snd (sha_view h) @ ?p" ?l]
    by (simp add: split_beta)
  moreover have "snd (fst (sha_view h)) + of_nat (length (snd (sha_view h))) = sha_bytes h"
    unfolding len b_def by (rule sha_view_total)
  then have "(snd (sha_view h) @ ?p) @ ?l = snd (sha_view h) @ sha_pad (unat (snd (fst (sha_view h)) + of_nat (length (snd (sha_view h)))))"
    unfolding p by (simp add: sha_pad_def bm)
  moreover have "sha_s h' = fst (fst (sha_view h'))" for h' by (simp add: sha_view_def Let_def)
  ultimately show ?thesis
    by (simp add: CSHA256_Finalize_def Let_def sha_final_def sha_digest_def sha_size b_def [symmetric])
qed

lemma sha_fresh:
  "length junk = 64 \<Longrightarrow> h = CSHA256_init junk \<Longrightarrow> sha_ok h \<and> sha_view h = ((sha_Initialize, 0), [])"
  by (simp add: sha_ok_def sha_view_def CSHA256_init_def)

interpretation sha: hash_function 64 sha_absorb sha_view sha_ok "\<lambda>d h. Some (CSHA256_Write d h)" "(sha_Initialize, 0)"
  "\<lambda>h. sha_ok h \<and> sha_view h = ((sha_Initialize, 0), [])" "\<lambda>h. fst (CSHA256_Finalize h)" sha_final
proof unfold_locales
  fix h
  assume "sha_ok h"
  then show "length (snd (sha_view h)) < 64"
    using mod64_bound [of "sha_bytes h"] by (simp add: sha_view_def Let_def min_def)
next
  fix h d
  assume "sha_ok h"
  then show "\<exists>h'. Some (CSHA256_Write d h) = Some h' \<and> sha_ok h' \<and>
    sha_view h' = absorb_all 64 sha_absorb (fst (sha_view h)) (snd (sha_view h) @ d)"
    using sha_write_run by simp
qed (auto simp: sha_finalize_view)

lemma absorb_fst: "fst (fst (absorb_all 64 sha_absorb (s, c) d)) = fst (absorb_all 64 compress_spec s d)"
proof (induction "length d" arbitrary: s c d rule: less_induct)
  case less
  then show ?case by (subst (1 2) absorb_all.simps) (simp add: sha_absorb_def Transform1_eq)
qed

lemma sha_pad_mod: "sha_pad (unat (of_nat len :: u64)) = sha_pad len"
proof -
  have "unat (of_nat len :: u64) = len mod 2 ^ 64" by (simp add: unat_of_nat)
  moreover have "len mod 2 ^ 64 mod 64 = len mod 64" by (simp add: mod_mod_cancel)
  moreover have "8 * (len mod 2 ^ 64) mod 2 ^ 64 = 8 * len mod 2 ^ 64" by (rule mod_mult_right_eq)
  ultimately show ?thesis by (simp add: sha_pad_def)
qed

lemma sha_message: "case_prod sha_final (absorb_all 64 sha_absorb (sha_Initialize, 0) d) = sha256_spec d"
proof -
  obtain s c r where a: "absorb_all 64 sha_absorb (sha_Initialize, 0) d = ((s, c), r)" by (metis surj_pair)
  have "c = of_nat (64 * (length d div 64))" "length r = length d mod 64"
    using a unfolding absorb_all_sha by (auto simp: minus_mult_div_eq_mod)
  then have "c + of_nat (length r) = of_nat (length d)" by (metis mult_div_mod_eq of_nat_add)
  then have "sha_final (s, c) r = sha_digest (fst (fst (absorb_all 64 sha_absorb (s, c) (r @ sha_pad (length d)))))"
    by (simp add: sha_final_def sha_pad_mod)
  then show ?thesis
    using absorb_all_append [of 64 sha_absorb "(sha_Initialize, 0)" d "sha_pad (length d)"] a
    by (simp add: sha256_spec_def absorb_fst [of _ 0, symmetric])
qed

lemma puts_Some: "puts (\<lambda>d h. Some (f d h)) ds h = Some (fold f ds h)"
  by (induction ds arbitrary: h) auto

lemma sha256_pieces:
  "length junk = 64 \<Longrightarrow> fst (CSHA256_Finalize (fold CSHA256_Write ds (CSHA256_init junk))) = sha256_spec (concat ds)"
  using sha.digest_pieces [OF sha_fresh [OF _ refl], of junk ds] by (simp add: puts_Some sha_message)

text \<open>\<open>Finalize\<close> leaves an object whose buffer has its length, so \<open>Reset\<close> makes it fresh again.\<close>

lemma finalize_ok: "sha_ok h \<Longrightarrow> sha_ok (snd (CSHA256_Finalize h))"
  by (simp add: CSHA256_Finalize_def Let_def sha_write_run)

lemma reset_fresh: "sha_ok h \<Longrightarrow> sha_ok (CSHA256_Reset h) \<and> sha_view (CSHA256_Reset h) = ((sha_Initialize, 0), [])"
  by (simp add: sha_ok_def sha_view_def CSHA256_Reset_def)

lemma hash256_pieces:
  assumes "length junk = 64"
  shows "fst (CHash256_Finalize (fold CSHA256_Write ds (CSHA256_init junk))) = sha256_spec (sha256_spec (concat ds))"
proof -
  let ?h = "fold CSHA256_Write ds (CSHA256_init junk)"
  have "sha_ok ?h" using sha.puts_view [of "CSHA256_init junk" ds] sha_fresh [OF assms refl] by (simp add: puts_Some)
  then have "fst (CSHA256_Finalize (CSHA256_Write d (CSHA256_Reset (snd (CSHA256_Finalize ?h))))) = sha256_spec d" for d
    using sha.digest_once [OF reset_fresh [OF finalize_ok], of ?h d] by (simp add: sha_message)
  then show ?thesis by (simp add: CHash256_Finalize_def split_beta sha256_pieces [OF assms])
qed

lemma length_sha_digest: "length (sha_digest s) = 32"
  by (cases s rule: registers_list.cases) (simp add: sha_digest_def WriteBE32_def)

lemma length_sha256_spec: "length (sha256_spec d) = 32"
  by (simp add: sha256_spec_def length_sha_digest)

end
