(* ===== verification/Lru_Cache.thy ===== *)
theory Lru_Cache
  imports Rcpu_Prelude
begin

text \<open>
  The class \<open>LRUCache\<close> of \<open>pow.cpp\<close>: a list of keys in order of use and a map from keys to values and
  list positions. Every operation runs under the object's lock, so it is one step. The map is an
  association list with distinct keys; the iterator a map entry holds is the position of its key, which
  is unique in the list.
\<close>

section \<open>Operations\<close>

record ('k, 'v) lru =
  m_capacity :: nat
  m_list :: "'k list"
  m_map :: "('k \<times> 'v) list"

definition LRUCache :: "nat \<Rightarrow> ('k, 'v) lru" where
  "LRUCache capacity = \<lparr>m_capacity = (if capacity \<noteq> 0 then capacity else 1), m_list = [], m_map = []\<rparr>"

definition lru_contains :: "'k \<Rightarrow> ('k, 'v) lru \<Rightarrow> bool" where
  "lru_contains key c \<longleftrightarrow> map_of (m_map c) key \<noteq> None"

text \<open>\<open>splice\<close> of the element at the iterator to the front of the list.\<close>

definition splice_front :: "'k \<Rightarrow> 'k list \<Rightarrow> 'k list" where
  "splice_front key ks = key # remove1 key ks"

definition map_erase :: "'k \<Rightarrow> ('k \<times> 'v) list \<Rightarrow> ('k \<times> 'v) list" where
  "map_erase key kvs = filter (\<lambda>kv. fst kv \<noteq> key) kvs"

definition map_assign :: "'k \<Rightarrow> 'v \<Rightarrow> ('k \<times> 'v) list \<Rightarrow> ('k \<times> 'v) list" where
  "map_assign key value kvs = map (\<lambda>kv. if fst kv = key then (key, value) else kv) kvs"

definition lru_insert :: "'k \<Rightarrow> 'v \<Rightarrow> ('k, 'v) lru \<Rightarrow> ('k, 'v) lru" where
  "lru_insert key value c =
     (if map_of (m_map c) key \<noteq> None
      then c\<lparr>m_list := splice_front key (m_list c), m_map := map_assign key value (m_map c)\<rparr>
      else let ks = key # m_list c; kvs = (key, value) # m_map c
           in if length kvs > m_capacity c
              then c\<lparr>m_list := butlast ks, m_map := map_erase (last ks) kvs\<rparr>
              else c\<lparr>m_list := ks, m_map := kvs\<rparr>)"

text \<open>\<open>Inl\<close> is the exception \<open>std::out_of_range\<close>.\<close>

definition lru_get :: "'k \<Rightarrow> ('k, 'v) lru \<Rightarrow> string + 'v \<times> ('k, 'v) lru" where
  "lru_get key c = (case map_of (m_map c) key of
     None \<Rightarrow> Inl ''LRUCache: key not present''
   | Some v \<Rightarrow> Inr (v, c\<lparr>m_list := splice_front key (m_list c)\<rparr>))"

definition lru_try_get :: "'k \<Rightarrow> ('k, 'v) lru \<Rightarrow> 'v option \<times> ('k, 'v) lru" where
  "lru_try_get key c = (case map_of (m_map c) key of
     None \<Rightarrow> (None, c)
   | Some v \<Rightarrow> (Some v, c\<lparr>m_list := splice_front key (m_list c)\<rparr>))"

definition lru_clear :: "('k, 'v) lru \<Rightarrow> ('k, 'v) lru" where
  "lru_clear c = c\<lparr>m_list := [], m_map := []\<rparr>"

definition lru_size :: "('k, 'v) lru \<Rightarrow> nat" where
  "lru_size c = length (m_map c)"

section \<open>The invariant\<close>

definition lru_ok :: "('k, 'v) lru \<Rightarrow> bool" where
  "lru_ok c \<longleftrightarrow> 0 < m_capacity c \<and> distinct (m_list c) \<and> distinct (map fst (m_map c)) \<and>
     set (m_list c) = fst ` set (m_map c) \<and> length (m_map c) \<le> m_capacity c"

lemma lru_ok_length: "lru_ok c \<Longrightarrow> length (m_list c) = length (m_map c)"
  unfolding lru_ok_def by (metis distinct_card length_map list.set_map)

lemma fst_map_assign [simp]: "map fst (map_assign key v kvs) = map fst kvs"
  by (induction kvs) (auto simp: map_assign_def)

lemma set_map_assign [simp]: "fst ` set (map_assign key v kvs) = fst ` set kvs"
  by (metis fst_map_assign list.set_map)

lemma length_map_assign [simp]: "length (map_assign key v kvs) = length kvs"
  by (simp add: map_assign_def)

lemma map_of_map_assign:
  "map_of (map_assign key v kvs) k = (if k = key \<and> map_of kvs key \<noteq> None then Some v else map_of kvs k)"
  by (induction kvs) (auto simp: map_assign_def)

lemma map_of_map_erase: "map_of (map_erase key kvs) k = (if k = key then None else map_of kvs k)"
  by (induction kvs) (auto simp: map_erase_def)

lemma distinct_map_erase: "distinct (map fst kvs) \<Longrightarrow> distinct (map fst (map_erase key kvs))"
  by (simp add: map_erase_def distinct_map_filter)

lemma set_map_erase: "fst ` set (map_erase key kvs) = fst ` set kvs - {key}"
  by (force simp: map_erase_def)

lemma length_map_erase:
  "distinct (map fst kvs) \<Longrightarrow> key \<in> fst ` set kvs \<Longrightarrow> length (map_erase key kvs) = length kvs - 1"
proof (induction kvs)
  case (Cons kv kvs)
  have "map_erase key kvs = kvs" if "key \<notin> fst ` set kvs" using that by (force simp: map_erase_def intro: filter_True)
  then show ?case using Cons by (cases "fst kv = key") (auto simp: map_erase_def dest: length_pos_if_in_set)
qed simp

lemma splice_front_simps [simp]:
  "distinct ks \<Longrightarrow> distinct (splice_front k ks)" "k \<in> set ks \<Longrightarrow> distinct ks \<Longrightarrow> set (splice_front k ks) = set ks"
  by (auto simp: splice_front_def)

lemma lru_ok_init: "lru_ok (LRUCache n)"
  by (simp add: LRUCache_def lru_ok_def)

lemma in_list: "lru_ok c \<Longrightarrow> map_of (m_map c) k \<noteq> None \<longleftrightarrow> k \<in> set (m_list c)"
  by (simp add: lru_ok_def map_of_eq_None_iff)

lemma lru_ok_try_get: "lru_ok c \<Longrightarrow> lru_ok (snd (lru_try_get k c))"
  using in_list [of c k] by (auto simp: lru_try_get_def lru_ok_def split: option.splits)

lemma butlast_last_set: "ks \<noteq> [] \<Longrightarrow> distinct ks \<Longrightarrow> set (butlast ks) = set ks - {last ks}"
  by (cases ks rule: rev_cases) auto

lemma lru_ok_insert: "lru_ok c \<Longrightarrow> lru_ok (lru_insert k v c)"
proof (cases "map_of (m_map c) k = None")
  case True
  assume ok: "lru_ok c"
  have k: "k \<notin> set (m_list c)" using in_list [OF ok, of k] True by simp
  let ?ks = "k # m_list c" and ?kvs = "(k, v) # m_map c"
  have d: "distinct ?ks" "distinct (map fst ?kvs)" "set ?ks = fst ` set ?kvs" using ok k by (auto simp: lru_ok_def)
  show ?thesis
  proof (cases "length ?kvs > m_capacity c")
    case T: True
    have "last ?ks \<in> fst ` set ?kvs" using d(3) last_in_set [of ?ks] by blast
    then have "length (map_erase (last ?ks) ?kvs) \<le> m_capacity c" using length_map_erase [OF d(2)] ok by (simp add: lru_ok_def)
    moreover have "set (butlast ?ks) = fst ` set (map_erase (last ?ks) ?kvs)"
      using butlast_last_set [of ?ks] d(1,3) by (simp only: set_map_erase) simp
    ultimately show ?thesis
      using T True ok d distinct_butlast [OF d(1)] distinct_map_erase [OF d(2)] unfolding lru_insert_def lru_ok_def Let_def
      by (simp del: butlast.simps last.simps)
  next
    case False
    then show ?thesis using True ok d by (simp add: lru_insert_def lru_ok_def)
  qed
next
  case False
  assume ok: "lru_ok c"
  have "k \<in> set (m_list c)" using False in_list [OF ok, of k] by simp
  moreover have "lru_insert k v c = c\<lparr>m_list := splice_front k (m_list c), m_map := map_assign k v (m_map c)\<rparr>"
    using False by (simp add: lru_insert_def)
  ultimately show ?thesis using ok by (simp add: lru_ok_def)
qed

lemma lru_ok_clear: "lru_ok c \<Longrightarrow> lru_ok (lru_clear c)"
  by (simp add: lru_clear_def lru_ok_def)

section \<open>The specification: bindings in order of use\<close>

definition recent :: "('k, 'v) lru \<Rightarrow> ('k \<times> 'v) list" where
  "recent c = map (\<lambda>k. (k, the (map_of (m_map c) k))) (m_list c)"

definition spec_insert :: "nat \<Rightarrow> 'k \<Rightarrow> 'v \<Rightarrow> ('k \<times> 'v) list \<Rightarrow> ('k \<times> 'v) list" where
  "spec_insert cap k v kvs = take cap ((k, v) # map_erase k kvs)"

definition spec_touch :: "'k \<Rightarrow> ('k \<times> 'v) list \<Rightarrow> ('k \<times> 'v) list" where
  "spec_touch k kvs = (case map_of kvs k of None \<Rightarrow> kvs | Some v \<Rightarrow> (k, v) # map_erase k kvs)"

lemma map_of_values: "map_of (map (\<lambda>k. (k, f k)) ks) k = (if k \<in> set ks then Some (f k) else None)"
  by (induction ks) auto

lemma map_of_recent: "lru_ok c \<Longrightarrow> map_of (recent c) k = map_of (m_map c) k"
  using in_list [of c k] by (auto simp: recent_def map_of_values)

lemma length_recent [simp]: "length (recent c) = length (m_list c)"
  by (simp add: recent_def)

lemma map_erase_recent:
  "lru_ok c \<Longrightarrow> map_erase k (recent c) = map (\<lambda>k. (k, the (map_of (m_map c) k))) (remove1 k (m_list c))"
  by (simp add: lru_ok_def recent_def map_erase_def filter_map o_def distinct_remove1_removeAll removeAll_filter_not_eq eq_commute)

lemma recent_splice:
  assumes "lru_ok c" "map_of (m_map c) k = Some v"
  shows "map (\<lambda>k. (k, the (map_of (m_map c) k))) (splice_front k (m_list c)) = (k, v) # map_erase k (recent c)"
  using assms by (simp add: splice_front_def map_erase_recent)

lemma recent_try_get: "lru_ok c \<Longrightarrow> recent (snd (lru_try_get k c)) = spec_touch k (recent c)"
  by (auto simp: lru_try_get_def spec_touch_def map_of_recent recent_splice recent_def [of "c\<lparr>m_list := splice_front k (m_list c)\<rparr>"] split: option.splits)

lemma recent_insert_present:
  assumes "lru_ok c" "map_of (m_map c) k = Some w"
  shows "recent (lru_insert k v c) = spec_insert (m_capacity c) k v (recent c)"
proof -
  have d: "distinct (m_list c)" "k \<in> set (m_list c)" using assms in_list [of c k] by (auto simp: lru_ok_def)
  have "recent (lru_insert k v c) = (k, v) # map (\<lambda>j. (j, the (map_of (m_map c) j))) (remove1 k (m_list c))"
    using assms d by (auto simp: recent_def lru_insert_def splice_front_def map_of_map_assign set_remove1_eq)
  also have "\<dots> = (k, v) # map_erase k (recent c)" by (simp add: map_erase_recent [OF assms(1)])
  moreover have "length ((k, v) # map_erase k (recent c)) \<le> m_capacity c"
    using assms(1) d lru_ok_length [OF assms(1)] length_pos_if_in_set [OF d(2)]
    by (simp add: map_erase_recent lru_ok_def length_remove1 del: length_greater_0_conv)
  ultimately show ?thesis unfolding spec_insert_def by (simp only: take_all)
qed

lemma recent_insert_absent:
  assumes "lru_ok c" "map_of (m_map c) k = None"
  shows "recent (lru_insert k v c) = spec_insert (m_capacity c) k v (recent c)"
proof -
  let ?ks = "k # m_list c"
  have k: "k \<notin> set (m_list c)" "distinct ?ks" using assms in_list [of c k] by (auto simp: lru_ok_def)
  have len: "length (m_list c) = length (m_map c)" using lru_ok_length [OF assms(1)] .
  have e: "map_erase k (recent c) = recent c" unfolding map_erase_recent [OF assms(1)] using k(1) by (simp add: recent_def remove1_idem)
  have base: "map (\<lambda>j. (j, the (map_of ((k, v) # m_map c) j))) ?ks = (k, v) # recent c"
    using k(1) by (auto simp: recent_def)
  show ?thesis
  proof (cases "length ((k, v) # m_map c) > m_capacity c")
    case True
    then have cap: "m_capacity c = length (m_list c)" using assms(1) len by (simp add: lru_ok_def)
    have "last ?ks \<notin> set (butlast ?ks)" using butlast_last_set [OF _ k(2)] by auto
    then have "recent (lru_insert k v c) = map (\<lambda>j. (j, the (map_of ((k, v) # m_map c) j))) (butlast ?ks)"
      using True assms(2) unfolding recent_def lru_insert_def Let_def
      by (auto simp only: map_of_map_erase lru.simps not_None_eq if_True if_False intro!: map_cong)
        (auto simp: map_of_map_erase simp del: butlast.simps last.simps)
    also have "\<dots> = butlast ((k, v) # recent c)" unfolding map_butlast base ..
    also have "\<dots> = take (m_capacity c) ((k, v) # recent c)" by (simp only: butlast_conv_take length_Cons cap length_recent diff_Suc_1)
    finally show ?thesis unfolding spec_insert_def e .
  next
    case False
    then have "recent (lru_insert k v c) = (k, v) # recent c" using assms(2) base by (simp add: recent_def lru_insert_def)
    then show ?thesis unfolding spec_insert_def e using False len by simp
  qed
qed

lemma recent_insert: "lru_ok c \<Longrightarrow> recent (lru_insert k v c) = spec_insert (m_capacity c) k v (recent c)"
  by (cases "map_of (m_map c) k") (simp_all add: recent_insert_present recent_insert_absent)

lemma lru_capacity [simp]:
  "m_capacity (lru_insert k v c) = m_capacity c" "m_capacity (snd (lru_try_get k c)) = m_capacity c" "m_capacity (lru_clear c) = m_capacity c"
  by (simp_all add: lru_insert_def lru_try_get_def lru_clear_def Let_def split: option.splits)

section \<open>The contract of a cache\<close>

text \<open>
  What a client of the cache relies on: a lookup finds what was added last under the key, or nothing;
  looking does not change what is found. A predicate that holds of every binding added holds of every
  binding found.
\<close>

locale keyed_cache =
  fixes ok :: "'c \<Rightarrow> bool"
    and find_key :: "'k \<Rightarrow> 'c \<Rightarrow> 'v option"
    and add_key :: "'k \<Rightarrow> 'v \<Rightarrow> 'c \<Rightarrow> 'c"
    and look :: "'k \<Rightarrow> 'c \<Rightarrow> 'c"
    and empty :: "'c \<Rightarrow> 'c"
  assumes add_ok: "ok c \<Longrightarrow> ok (add_key k v c)"
    and look_ok: "ok c \<Longrightarrow> ok (look k c)"
    and empty_ok: "ok c \<Longrightarrow> ok (empty c)"
    and find_add_same: "ok c \<Longrightarrow> find_key k (add_key k v c) = Some v"
    and find_add_other: "ok c \<Longrightarrow> j \<noteq> k \<Longrightarrow> find_key j (add_key k v c) \<in> {None, find_key j c}"
    and find_look: "ok c \<Longrightarrow> find_key j (look k c) = find_key j c"
    and find_empty: "ok c \<Longrightarrow> find_key j (empty c) = None"
begin

definition coherent :: "('k \<Rightarrow> 'v \<Rightarrow> bool) \<Rightarrow> 'c \<Rightarrow> bool" where
  "coherent P c \<longleftrightarrow> ok c \<and> (\<forall>k v. find_key k c = Some v \<longrightarrow> P k v)"

lemma coherent_add: "coherent P c \<Longrightarrow> P k v \<Longrightarrow> coherent P (add_key k v c)"
  unfolding coherent_def using add_ok find_add_same find_add_other
  by (metis (no_types) empty_iff insert_iff option.distinct(1) option.inject)

lemma coherent_look: "coherent P c \<Longrightarrow> coherent P (look k c)"
  by (simp add: coherent_def look_ok find_look)

lemma coherent_empty: "coherent P c \<Longrightarrow> coherent P (empty c)"
  by (simp add: coherent_def empty_ok find_empty)

lemma coherent_found: "coherent P c \<Longrightarrow> find_key k c = Some v \<Longrightarrow> P k v"
  by (simp add: coherent_def)

end

lemma map_of_take_cases: "map_of (take n kvs) k = None \<or> map_of (take n kvs) k = map_of kvs k"
proof (induction kvs arbitrary: n)
  case (Cons kv kvs)
  then show ?case by (cases n) auto
qed simp

lemma insert_find_same: "lru_ok c \<Longrightarrow> map_of (m_map (lru_insert k v c)) k = Some v"
  using map_of_recent [OF lru_ok_insert, of c k v k] recent_insert [of c k v]
  by (cases "m_capacity c") (auto simp: spec_insert_def lru_ok_def)

lemma insert_find_other:
  assumes "lru_ok c" "j \<noteq> k"
  shows "map_of (m_map (lru_insert k v c)) j \<in> {None, map_of (m_map c) j}"
proof -
  have "map_of ((k, v) # map_erase k (recent c)) j = map_of (m_map c) j"
    using assms by (simp add: map_of_map_erase map_of_recent)
  then show ?thesis
    using map_of_recent [OF lru_ok_insert [OF assms(1)], of k v j] recent_insert [OF assms(1), of k v]
      map_of_take_cases [of "m_capacity c" "(k, v) # map_erase k (recent c)" j] by (auto simp: spec_insert_def)
qed

lemma clear_find: "map_of (m_map (lru_clear c)) j = None"
  by (simp add: lru_clear_def)

interpretation lru: keyed_cache lru_ok "\<lambda>k c. map_of (m_map c) k" lru_insert "\<lambda>k c. snd (lru_try_get k c)" lru_clear
proof unfold_locales
  fix c :: "('a, 'b) lru" and j k
  assume "lru_ok c"
  then show "map_of (m_map (snd (lru_try_get k c))) j = map_of (m_map c) j"
    by (simp add: lru_try_get_def split: option.splits)
qed (simp_all add: lru_ok_insert lru_ok_try_get lru_ok_clear insert_find_same insert_find_other [simplified] clear_find)

section \<open>Sequences of calls\<close>

datatype ('k, 'v) lru_op = Insert 'k 'v | TryGet 'k | Get 'k | Contains 'k | Clear | Size
datatype 'v lru_out = Unit | Value 'v | Absent | Throws | Truth bool | Count nat

fun lru_step :: "('k, 'v) lru_op \<Rightarrow> ('k, 'v) lru \<Rightarrow> 'v lru_out \<times> ('k, 'v) lru" where
  "lru_step (Insert k v) c = (Unit, lru_insert k v c)"
| "lru_step (TryGet k) c = (case lru_try_get k c of (Some v, c') \<Rightarrow> (Value v, c') | (None, c') \<Rightarrow> (Absent, c'))"
| "lru_step (Get k) c = (case lru_get k c of Inr (v, c') \<Rightarrow> (Value v, c') | Inl e \<Rightarrow> (Throws, c))"
| "lru_step (Contains k) c = (Truth (lru_contains k c), c)"
| "lru_step Clear c = (Unit, lru_clear c)"
| "lru_step Size c = (Count (lru_size c), c)"

fun spec_step :: "nat \<Rightarrow> ('k, 'v) lru_op \<Rightarrow> ('k \<times> 'v) list \<Rightarrow> 'v lru_out \<times> ('k \<times> 'v) list" where
  "spec_step cap (Insert k v) kvs = (Unit, spec_insert cap k v kvs)"
| "spec_step cap (TryGet k) kvs = (case map_of kvs k of Some v \<Rightarrow> Value v | None \<Rightarrow> Absent, spec_touch k kvs)"
| "spec_step cap (Get k) kvs = (case map_of kvs k of Some v \<Rightarrow> Value v | None \<Rightarrow> Throws, spec_touch k kvs)"
| "spec_step cap (Contains k) kvs = (Truth (map_of kvs k \<noteq> None), kvs)"
| "spec_step cap Clear kvs = (Unit, [])"
| "spec_step cap Size kvs = (Count (length kvs), kvs)"

fun outputs :: "('o \<Rightarrow> 's \<Rightarrow> 'r \<times> 's) \<Rightarrow> 'o list \<Rightarrow> 's \<Rightarrow> 'r list" where
  "outputs f [] s = []"
| "outputs f (x # xs) s = (let (r, s') = f x s in r # outputs f xs s')"

lemma recent_clear: "recent (lru_clear c) = []"
  by (simp add: lru_clear_def recent_def)

lemma lru_step_sim:
  assumes "lru_ok c"
  shows "fst (lru_step x c) = fst (spec_step (m_capacity c) x (recent c))"
    and "recent (snd (lru_step x c)) = snd (spec_step (m_capacity c) x (recent c))"
    and "lru_ok (snd (lru_step x c))" and "m_capacity (snd (lru_step x c)) = m_capacity c"
proof -
  have g: "lru_get k c = (case fst (lru_try_get k c) of None \<Rightarrow> Inl ''LRUCache: key not present'' | Some v \<Rightarrow> Inr (v, snd (lru_try_get k c)))" for k
    by (simp add: lru_get_def lru_try_get_def split: option.splits)
  have t: "fst (lru_try_get k c) = map_of (m_map c) k" "map_of (m_map c) k = None \<Longrightarrow> snd (lru_try_get k c) = c" for k
    by (simp_all add: lru_try_get_def split: option.splits)
  note st = g t map_of_recent [OF assms] split_beta recent_clear
  show "fst (lru_step x c) = fst (spec_step (m_capacity c) x (recent c))"
    using lru_ok_length [OF assms] by (cases x) (auto simp: st lru_contains_def lru_size_def split: option.splits)
  show "recent (snd (lru_step x c)) = snd (spec_step (m_capacity c) x (recent c))"
    using recent_try_get [OF assms] recent_insert [OF assms]
    by (cases x) (auto simp: st spec_touch_def split: option.splits)
  show "lru_ok (snd (lru_step x c))" "m_capacity (snd (lru_step x c)) = m_capacity c"
    using assms by (cases x; auto simp: st lru_ok_insert lru_ok_try_get lru_ok_clear split: option.splits)+
qed

lemma lru_outputs: "lru_ok c \<Longrightarrow> outputs lru_step xs c = outputs (spec_step (m_capacity c)) xs (recent c)"
proof (induction xs arbitrary: c)
  case (Cons x xs)
  note sim = lru_step_sim [OF Cons.prems, of x]
  show ?case using Cons.IH [OF sim(3)] sim by (simp add: split_beta Let_def)
qed simp

text \<open>
  How long a binding stays: while fewer other keys than the capacity have been used since, and nobody
  clears the cache.
\<close>

fun op_keys :: "('k, 'v) lru_op \<Rightarrow> 'k set" where
  "op_keys (Insert k v) = {k}"
| "op_keys (TryGet k) = {k}"
| "op_keys (Get k) = {k}"
| "op_keys _ = {}"

definition held :: "nat \<Rightarrow> 'k set \<Rightarrow> 'k \<Rightarrow> 'v \<Rightarrow> ('k \<times> 'v) list \<Rightarrow> bool" where
  "held cap K k v kvs \<longleftrightarrow> finite K \<and> card K < cap \<and> k \<notin> K \<and>
     (\<exists>pre post. kvs = pre @ (k, v) # post \<and> distinct (map fst pre) \<and> fst ` set pre \<subseteq> K)"

lemma map_erase_append: "map_erase j (a @ b) = map_erase j a @ map_erase j b"
  by (simp add: map_erase_def)

lemma held_front:
  assumes "held cap K k v kvs" "j \<in> K"
  shows "held cap K k v (take cap ((j, w) # map_erase j kvs))" and "held cap K k v ((j, w) # map_erase j kvs)"
proof -
  obtain pre post where p: "kvs = pre @ (k, v) # post" "distinct (map fst pre)" "fst ` set pre \<subseteq> K"
    and K: "finite K" "card K < cap" "k \<notin> K" using assms(1) by (auto simp: held_def)
  let ?pre = "(j, w) # map_erase j pre"
  have e: "(j, w) # map_erase j kvs = ?pre @ (k, v) # map_erase j post"
    using p(1) K(3) assms(2) by (auto simp: map_erase_def)
  have d: "distinct (map fst ?pre)" "fst ` set ?pre \<subseteq> K"
    using p(2,3) assms(2) distinct_map_erase [OF p(2), of j] set_map_erase [of j pre] by auto
  then have "length ?pre \<le> card K" using card_mono [OF K(1), of "fst ` set ?pre"] distinct_card [of "map fst ?pre"] by simp
  then have t: "take cap ((j, w) # map_erase j kvs) = ?pre @ (k, v) # take (cap - length ?pre - 1) (map_erase j post)"
    unfolding e take_append using K(2) by (cases "cap - length ?pre") auto
  show "held cap K k v (take cap ((j, w) # map_erase j kvs))" unfolding t held_def using d K by blast
  show "held cap K k v ((j, w) # map_erase j kvs)" unfolding e held_def using d K by blast
qed

lemma held_step:
  assumes "held cap K k v kvs" "op_keys x \<subseteq> K" "x \<noteq> Clear"
  shows "held cap K k v (snd (spec_step cap x kvs))"
proof (cases x)
  case (Insert j w)
  then show ?thesis using held_front(1) [OF assms(1)] assms(2) by (simp add: spec_insert_def)
next
  case (TryGet j)
  then show ?thesis using held_front(2) [OF assms(1)] assms(1,2) by (simp add: spec_touch_def split: option.splits)
next
  case (Get j)
  then show ?thesis using held_front(2) [OF assms(1)] assms(1,2) by (simp add: spec_touch_def split: option.splits)
qed (use assms in auto)

fun final_state :: "('o \<Rightarrow> 's \<Rightarrow> 'r \<times> 's) \<Rightarrow> 'o list \<Rightarrow> 's \<Rightarrow> 's" where
  "final_state f [] s = s"
| "final_state f (x # xs) s = final_state f xs (snd (f x s))"

lemma held_run:
  "held cap K k v kvs \<Longrightarrow> (\<And>x. x \<in> set xs \<Longrightarrow> op_keys x \<subseteq> K \<and> x \<noteq> Clear) \<Longrightarrow>
   held cap K k v (final_state (spec_step cap) xs kvs)"
proof (induction xs arbitrary: kvs)
  case (Cons x xs)
  then have "op_keys x \<subseteq> K" "x \<noteq> Clear" by auto
  then show ?case using Cons.IH [OF held_step [OF Cons.prems(1)]] Cons.prems(2) by simp
qed simp

lemma held_found: "held cap K k v kvs \<Longrightarrow> map_of kvs k = Some v"
proof -
  assume "held cap K k v kvs"
  then obtain pre post where p: "kvs = pre @ (k, v) # post" and s: "fst ` set pre \<subseteq> K" "k \<notin> K"
    unfolding held_def by (elim conjE exE)
  have "k \<notin> fst ` set pre" using s by (rule contra_subsetD)
  then have "map_of pre k = None" by (simp add: map_of_eq_None_iff)
  then show ?thesis using p by (simp add: map_add_def)
qed

lemma lru_final: "lru_ok c \<Longrightarrow> lru_ok (final_state lru_step xs c) \<and> recent (final_state lru_step xs c) = final_state (spec_step (m_capacity c)) xs (recent c)"
proof (induction xs arbitrary: c)
  case (Cons x xs)
  note sim = lru_step_sim [OF Cons.prems, of x]
  show ?case using Cons.IH [OF sim(3)] sim by simp
qed simp

lemma lru_survives:
  assumes "lru_ok c" "finite K" "card K < m_capacity c" "k \<notin> K" "\<And>x. x \<in> set xs \<Longrightarrow> op_keys x \<subseteq> K \<and> x \<noteq> Clear"
  shows "fst (lru_try_get k (final_state lru_step xs (lru_insert k v c))) = Some v"
proof -
  let ?c = "lru_insert k v c"
  have ok: "lru_ok ?c" using lru_ok_insert [OF assms(1)] .
  have "\<exists>post. recent ?c = (k, v) # post"
    using recent_insert [OF assms(1), of k v] assms(3) by (cases "m_capacity c") (auto simp: spec_insert_def)
  then have "held (m_capacity c) K k v (recent ?c)" using assms(2-4) by (auto simp: held_def intro: exI [of _ "[]"])
  then have "held (m_capacity c) K k v (final_state (spec_step (m_capacity c)) xs (recent ?c))"
    by (rule held_run) (rule assms(5))
  then have "map_of (recent (final_state lru_step xs ?c)) k = Some v" using lru_final [OF ok, of xs] by (simp add: held_found)
  then show ?thesis using map_of_recent lru_final [OF ok, of xs] by (fastforce simp: lru_try_get_def split: option.splits)
qed

end
