(* ===== verification/Rx_Vm.thy ===== *)
theory Rx_Vm
  imports Proxy_Encoding Sha256 Lru_Cache
begin

text \<open>
  The RandomX machines of \<open>pow.cpp\<close>: epochs, seeds, the four shared caches, \<open>GetVM\<close> and the background
  thread \<open>CreateFastVM\<close>. Any number of threads run at once; a step of a thread runs up to the next point
  where another thread can interfere, so one call of a cache or one locked section is one step (a lookup
  outside the lock that falls inside such a section may as well come before it: the section's own lookup
  changes nothing when it misses). The
  RandomX library is a parameter: how it makes its objects and which hash a machine computes. Whether
  an allocation succeeds and what \<open>g_isIBDFinished\<close> reads is an input of each step.
\<close>

section \<open>Epochs and seeds\<close>

definition csha256 :: "bytes \<Rightarrow> bytes" where
  "csha256 d = fst (CSHA256_Finalize (CSHA256_Write d (CSHA256_init (replicate 64 0))))"

definition GetEpoch :: "u32 \<Rightarrow> u32 \<Rightarrow> u32" where
  "GetEpoch nTimestamp nDuration = (if nDuration = 0 then 0 else nTimestamp div nDuration)"

definition RANDOMX_EPOCH_SEED_STRING :: "u32 \<Rightarrow> string" where
  "RANDOMX_EPOCH_SEED_STRING nEpoch = ''RCPU/RandomX/Epoch/'' @ dec_nat (unat nEpoch)"

definition GetSeedHash :: "u32 \<Rightarrow> bytes" where
  "GetSeedHash nEpoch =
     (let s = ascii_bytes (RANDOMX_EPOCH_SEED_STRING nEpoch);
          h1 = csha256 s
      in csha256 h1)"

section \<open>The library and the shared state\<close>

record ('c, 'd, 'm) randomx =
  randomx_init_cache :: "bytes \<Rightarrow> 'c"
  randomx_init_dataset :: "'c \<Rightarrow> 'd"
  randomx_create_light :: "'c \<Rightarrow> 'm"
  randomx_create_fast :: "'d \<Rightarrow> 'm"
  randomx_calculate_hash :: "'m \<Rightarrow> bytes \<Rightarrow> bytes"
  randomx_calculate_commitment :: "bytes \<Rightarrow> bytes \<Rightarrow> bytes"

text \<open>The library's documentation: the fast and the light mode compute the same hash.\<close>

definition modes_agree :: "('c, 'd, 'm) randomx \<Rightarrow> bool" where
  "modes_agree rx \<longleftrightarrow> (\<forall>c x. randomx_calculate_hash rx (randomx_create_fast rx (randomx_init_dataset rx c)) x =
     randomx_calculate_hash rx (randomx_create_light rx c) x)"

record ('c, 'd, 'm) rx_caches =
  cache_rx_cache :: "(u32, 'c) lru"
  cache_rx_vm_light :: "(u32, 'm) lru"
  cache_rx_vm_fast :: "(u32, 'm) lru"
  cache_rx_dataset :: "(u32, 'd) lru"

text \<open>Where a thread is: in \<open>GetVM\<close> (\<open>Gv\<close>) or in \<open>CreateFastVM\<close> (\<open>Fv\<close>), with its local objects.\<close>

datatype ('c, 'd, 'm) rx_pc =
  Gv_once
| Gv_allow
| Gv_fast
| Gv_light
| Gv_cache
| Gv_init_cache
| Gv_insert_cache 'c
| Gv_create 'c
| Gv_insert_light 'c 'm
| Gv_spawn 'c 'm
| Gv_track nat 'm
| Gv_return "'m option"
| Fv_dataset 'c
| Fv_init_dataset 'c
| Fv_insert_dataset 'd
| Fv_create 'd
| Fv_insert_fast 'm
| Fv_end

record ('c, 'd, 'm) rx_state =
  rx_shared :: "('c, 'd, 'm) rx_caches option"
  rx_allowed :: bool
  rx_threads :: "(u32 \<times> ('c, 'd, 'm) rx_pc) list"
  g_rx_threads :: "nat list"

definition rx_init :: "('c, 'd, 'm) rx_state" where
  "rx_init = \<lparr>rx_shared = None, rx_allowed = False, rx_threads = [], g_rx_threads = []\<rparr>"

text \<open>The arguments \<open>-randomxvmcachesize\<close> and \<open>-randomxfastmode\<close>.\<close>

record rx_args =
  randomxvmcachesize :: nat
  randomxfastmode :: bool

definition new_caches :: "rx_args \<Rightarrow> ('c, 'd, 'm) rx_caches" where
  "new_caches args = \<lparr>cache_rx_cache = LRUCache (randomxvmcachesize args), cache_rx_vm_light = LRUCache (randomxvmcachesize args),
     cache_rx_vm_fast = LRUCache (randomxvmcachesize args), cache_rx_dataset = LRUCache (randomxvmcachesize args)\<rparr>"

text \<open>A locked section that reuses a binding or inserts the new object: what is used, and the cache.\<close>

definition get_or_insert :: "u32 \<Rightarrow> 'v \<Rightarrow> (u32, 'v) lru \<Rightarrow> 'v \<times> (u32, 'v) lru" where
  "get_or_insert nEpoch new c = (case lru_try_get nEpoch c of
     (Some existing, c') \<Rightarrow> (existing, c')
   | (None, c') \<Rightarrow> (new, lru_insert nEpoch new c'))"

section \<open>Steps of \<open>GetVM\<close>\<close>

text \<open>
  A step of a thread for the epoch on the shared caches: the next point and the caches. Points that
  touch other state are handled below.
\<close>

fun gv_step :: "('c, 'd, 'm) randomx \<Rightarrow> bool \<Rightarrow> u32 \<Rightarrow> ('c, 'd, 'm) rx_pc \<Rightarrow> ('c, 'd, 'm) rx_caches \<Rightarrow>
    ('c, 'd, 'm) rx_pc \<times> ('c, 'd, 'm) rx_caches" where
  "gv_step rx alloc nEpoch Gv_fast s = (case lru_try_get nEpoch (cache_rx_vm_fast s) of
     (Some vm, c) \<Rightarrow> (Gv_return (Some vm), s\<lparr>cache_rx_vm_fast := c\<rparr>) | (None, c) \<Rightarrow> (Gv_light, s\<lparr>cache_rx_vm_fast := c\<rparr>))"
| "gv_step rx alloc nEpoch Gv_light s = (case lru_try_get nEpoch (cache_rx_vm_light s) of
     (Some vm, c) \<Rightarrow> (Gv_return (Some vm), s\<lparr>cache_rx_vm_light := c\<rparr>) | (None, c) \<Rightarrow> (Gv_cache, s\<lparr>cache_rx_vm_light := c\<rparr>))"
| "gv_step rx alloc nEpoch Gv_cache s = (case lru_try_get nEpoch (cache_rx_cache s) of
     (Some myCache, c) \<Rightarrow> (Gv_create myCache, s\<lparr>cache_rx_cache := c\<rparr>) | (None, c) \<Rightarrow> (Gv_init_cache, s\<lparr>cache_rx_cache := c\<rparr>))"
| "gv_step rx alloc nEpoch Gv_init_cache s =
     (if alloc then (Gv_insert_cache (randomx_init_cache rx (GetSeedHash nEpoch)), s) else (Gv_return None, s))"
| "gv_step rx alloc nEpoch (Gv_insert_cache newCache) s = (case get_or_insert nEpoch newCache (cache_rx_cache s) of
     (myCache, c) \<Rightarrow> (Gv_create myCache, s\<lparr>cache_rx_cache := c\<rparr>))"
| "gv_step rx alloc nEpoch (Gv_create myCache) s =
     (if alloc then (Gv_insert_light myCache (randomx_create_light rx myCache), s) else (Gv_return None, s))"
| "gv_step rx alloc nEpoch (Gv_insert_light myCache vmRef) s = (case lru_try_get nEpoch (cache_rx_vm_light s) of
     (Some existing, c) \<Rightarrow> (Gv_return (Some existing), s\<lparr>cache_rx_vm_light := c\<rparr>)
   | (None, c) \<Rightarrow> (Gv_spawn myCache vmRef, s\<lparr>cache_rx_vm_light := lru_insert nEpoch vmRef c\<rparr>))"
| "gv_step rx alloc nEpoch pc s = (pc, s)"

section \<open>Steps of \<open>CreateFastVM\<close>\<close>

fun fv_step :: "('c, 'd, 'm) randomx \<Rightarrow> bool \<Rightarrow> u32 \<Rightarrow> ('c, 'd, 'm) rx_pc \<Rightarrow> ('c, 'd, 'm) rx_caches \<Rightarrow>
    ('c, 'd, 'm) rx_pc \<times> ('c, 'd, 'm) rx_caches" where
  "fv_step rx alloc nEpoch (Fv_dataset myCache) s = (case lru_try_get nEpoch (cache_rx_dataset s) of
     (Some myDataset, c) \<Rightarrow> (Fv_create myDataset, s\<lparr>cache_rx_dataset := c\<rparr>)
   | (None, c) \<Rightarrow> (Fv_init_dataset myCache, s\<lparr>cache_rx_dataset := c\<rparr>))"
| "fv_step rx alloc nEpoch (Fv_init_dataset myCache) s =
     (if alloc then (Fv_insert_dataset (randomx_init_dataset rx myCache), s) else (Fv_end, s))"
| "fv_step rx alloc nEpoch (Fv_insert_dataset newDataset) s = (case get_or_insert nEpoch newDataset (cache_rx_dataset s) of
     (myDataset, c) \<Rightarrow> (Fv_create myDataset, s\<lparr>cache_rx_dataset := c\<rparr>))"
| "fv_step rx alloc nEpoch (Fv_create myDataset) s =
     (if alloc then (Fv_insert_fast (randomx_create_fast rx myDataset), s) else (Fv_end, s))"
| "fv_step rx alloc nEpoch (Fv_insert_fast myVM) s = (case lru_try_get nEpoch (cache_rx_vm_fast s) of
     (Some existing, c) \<Rightarrow> (Fv_end, s\<lparr>cache_rx_vm_fast := c\<rparr>)
   | (None, c) \<Rightarrow> (Fv_end, s\<lparr>cache_rx_vm_fast := lru_insert nEpoch myVM c\<rparr>))"
| "fv_step rx alloc nEpoch pc s = (pc, s)"

fun in_fast :: "('c, 'd, 'm) rx_pc \<Rightarrow> bool" where
  "in_fast (Fv_dataset _) = True" | "in_fast (Fv_init_dataset _) = True" | "in_fast (Fv_insert_dataset _) = True"
| "in_fast (Fv_create _) = True" | "in_fast (Fv_insert_fast _) = True" | "in_fast Fv_end = True" | "in_fast _ = False"

fun at_end :: "('c, 'd, 'm) rx_pc \<Rightarrow> bool" where
  "at_end (Gv_return _) = True" | "at_end Fv_end = True" | "at_end _ = False"

section \<open>Threads\<close>

definition goto :: "nat \<Rightarrow> u32 \<Rightarrow> ('c, 'd, 'm) rx_pc \<Rightarrow> ('c, 'd, 'm) rx_state \<Rightarrow> ('c, 'd, 'm) rx_state" where
  "goto t nEpoch pc st = st\<lparr>rx_threads := (rx_threads st)[t := (nEpoch, pc)]\<rparr>"

text \<open>\<open>None\<close> is the use of a cache that has not been created.\<close>

definition thread_step :: "('c, 'd, 'm) randomx \<Rightarrow> rx_args \<Rightarrow> bool \<Rightarrow> bool \<Rightarrow> nat \<Rightarrow> ('c, 'd, 'm) rx_state \<Rightarrow>
    ('c, 'd, 'm) rx_state option" where
  "thread_step rx args g_isIBDFinished alloc t st = (case rx_threads st ! t of (nEpoch, pc) \<Rightarrow>
     (case pc of
        Gv_once \<Rightarrow> Some (goto t nEpoch Gv_allow
          (st\<lparr>rx_shared := Some (case rx_shared st of Some s \<Rightarrow> s | None \<Rightarrow> new_caches args)\<rparr>))
      | Gv_allow \<Rightarrow>
          if g_isIBDFinished \<and> \<not> rx_allowed st
          then if randomxfastmode args
               then do {
                 s \<leftarrow> rx_shared st;
                 Some (goto t nEpoch Gv_fast (st\<lparr>rx_shared := Some (s\<lparr>cache_rx_vm_light := lru_clear (cache_rx_vm_light s)\<rparr>),
                   rx_allowed := True\<rparr>))
               }
               else Some (goto t nEpoch Gv_fast (st\<lparr>rx_allowed := True\<rparr>))
          else Some (goto t nEpoch Gv_fast st)
      | Gv_spawn myCache vmRef \<Rightarrow>
          if g_isIBDFinished \<and> randomxfastmode args
          then let st' = goto t nEpoch (Gv_track (length (rx_threads st)) vmRef) st
               in Some (st'\<lparr>rx_threads := rx_threads st' @ [(nEpoch, Fv_dataset myCache)]\<rparr>)
          else Some (goto t nEpoch (Gv_return (Some vmRef)) st)
      | Gv_track u vmRef \<Rightarrow> Some (goto t nEpoch (Gv_return (Some vmRef)) (st\<lparr>g_rx_threads := g_rx_threads st @ [u]\<rparr>))
      | Gv_return r \<Rightarrow> Some st
      | Fv_end \<Rightarrow> Some st
      | _ \<Rightarrow> do {
          s \<leftarrow> rx_shared st;
          let (pc', s') = (if in_fast pc then fv_step rx alloc nEpoch pc s else gv_step rx alloc nEpoch pc s);
          Some (goto t nEpoch pc' (st\<lparr>rx_shared := Some s'\<rparr>))
        }))"

text \<open>A caller enters \<open>GetVM\<close>.\<close>

definition call_GetVM :: "u32 \<Rightarrow> ('c, 'd, 'm) rx_state \<Rightarrow> ('c, 'd, 'm) rx_state" where
  "call_GetVM nEpoch st = st\<lparr>rx_threads := rx_threads st @ [(nEpoch, Gv_once)]\<rparr>"

text \<open>
  \<open>StopRandomXThreads\<close>: the list is taken under its lock; the threads in it are then joined, which returns
  once all of them have ended.
\<close>

definition StopRandomXThreads :: "('c, 'd, 'm) rx_state \<Rightarrow> nat list \<times> ('c, 'd, 'm) rx_state" where
  "StopRandomXThreads st = (g_rx_threads st, st\<lparr>g_rx_threads := []\<rparr>)"

inductive rx_reachable :: "('c, 'd, 'm) randomx \<Rightarrow> rx_args \<Rightarrow> ('c, 'd, 'm) rx_state \<Rightarrow> bool" for rx args where
  start: "rx_reachable rx args rx_init"
| call: "rx_reachable rx args st \<Longrightarrow> rx_reachable rx args (call_GetVM nEpoch st)"
| step: "rx_reachable rx args st \<Longrightarrow> t < length (rx_threads st) \<Longrightarrow> thread_step rx args ibd alloc t st = Some st' \<Longrightarrow>
    rx_reachable rx args st'"
| stop: "rx_reachable rx args st \<Longrightarrow> rx_reachable rx args (snd (StopRandomXThreads st))"

section \<open>What the objects are\<close>

definition cache_for :: "('c, 'd, 'm) randomx \<Rightarrow> u32 \<Rightarrow> 'c" where
  "cache_for rx e = randomx_init_cache rx (GetSeedHash e)"

definition light_for :: "('c, 'd, 'm) randomx \<Rightarrow> u32 \<Rightarrow> 'm" where
  "light_for rx e = randomx_create_light rx (cache_for rx e)"

definition dataset_for :: "('c, 'd, 'm) randomx \<Rightarrow> u32 \<Rightarrow> 'd" where
  "dataset_for rx e = randomx_init_dataset rx (cache_for rx e)"

definition fast_for :: "('c, 'd, 'm) randomx \<Rightarrow> u32 \<Rightarrow> 'm" where
  "fast_for rx e = randomx_create_fast rx (dataset_for rx e)"

lemmas for_defs = cache_for_def light_for_def dataset_for_def fast_for_def

text \<open>The type of each cache: what may be bound to an epoch.\<close>

definition caches_ok :: "('c, 'd, 'm) randomx \<Rightarrow> ('c, 'd, 'm) rx_caches \<Rightarrow> bool" where
  "caches_ok rx s \<longleftrightarrow> lru.coherent (\<lambda>e v. v = cache_for rx e) (cache_rx_cache s) \<and>
     lru.coherent (\<lambda>e v. v = light_for rx e) (cache_rx_vm_light s) \<and>
     lru.coherent (\<lambda>e v. v = fast_for rx e) (cache_rx_vm_fast s) \<and>
     lru.coherent (\<lambda>e v. v = dataset_for rx e) (cache_rx_dataset s)"

fun pc_ok :: "('c, 'd, 'm) randomx \<Rightarrow> u32 \<Rightarrow> ('c, 'd, 'm) rx_pc \<Rightarrow> bool" where
  "pc_ok rx e (Gv_insert_cache c) \<longleftrightarrow> c = cache_for rx e"
| "pc_ok rx e (Gv_create c) \<longleftrightarrow> c = cache_for rx e"
| "pc_ok rx e (Gv_insert_light c m) \<longleftrightarrow> c = cache_for rx e \<and> m = light_for rx e"
| "pc_ok rx e (Gv_spawn c m) \<longleftrightarrow> c = cache_for rx e \<and> m = light_for rx e"
| "pc_ok rx e (Gv_track u m) \<longleftrightarrow> m = light_for rx e"
| "pc_ok rx e (Gv_return r) \<longleftrightarrow> r \<in> {None, Some (light_for rx e), Some (fast_for rx e)}"
| "pc_ok rx e (Fv_dataset c) \<longleftrightarrow> c = cache_for rx e"
| "pc_ok rx e (Fv_init_dataset c) \<longleftrightarrow> c = cache_for rx e"
| "pc_ok rx e (Fv_insert_dataset d) \<longleftrightarrow> d = dataset_for rx e"
| "pc_ok rx e (Fv_create d) \<longleftrightarrow> d = dataset_for rx e"
| "pc_ok rx e (Fv_insert_fast m) \<longleftrightarrow> m = fast_for rx e"
| "pc_ok rx e _ \<longleftrightarrow> True"

definition rx_ok :: "('c, 'd, 'm) randomx \<Rightarrow> ('c, 'd, 'm) rx_state \<Rightarrow> bool" where
  "rx_ok rx st \<longleftrightarrow> (\<forall>s. rx_shared st = Some s \<longrightarrow> caches_ok rx s) \<and>
     (\<forall>(e, pc) \<in> set (rx_threads st). pc_ok rx e pc \<and> (rx_shared st = None \<longrightarrow> pc = Gv_once))"

text \<open>How many own steps are left at most; the spawned thread has its own count.\<close>

fun pc_rank :: "('c, 'd, 'm) rx_pc \<Rightarrow> nat" where
  "pc_rank Gv_once = 11" | "pc_rank Gv_allow = 10" | "pc_rank Gv_fast = 9" | "pc_rank Gv_light = 8" | "pc_rank Gv_cache = 7"
| "pc_rank Gv_init_cache = 6" | "pc_rank (Gv_insert_cache _) = 5" | "pc_rank (Gv_create _) = 4" | "pc_rank (Gv_insert_light _ _) = 3"
| "pc_rank (Gv_spawn _ _) = 2" | "pc_rank (Gv_track _ _) = 1" | "pc_rank (Gv_return _) = 0"
| "pc_rank (Fv_dataset _) = 5" | "pc_rank (Fv_init_dataset _) = 4" | "pc_rank (Fv_insert_dataset _) = 3" | "pc_rank (Fv_create _) = 2"
| "pc_rank (Fv_insert_fast _) = 1" | "pc_rank Fv_end = 0"

section \<open>Every step keeps the types\<close>

lemma lru_try_get_coherent:
  assumes "lru.coherent P c" "lru_try_get k c = (r, c')"
  shows "lru.coherent P c'" and "r = Some v \<Longrightarrow> P k v"
proof -
  show "lru.coherent P c'" using lru.coherent_look [OF assms(1), of k] assms(2) by simp
  show "r = Some v \<Longrightarrow> P k v"
    using lru.coherent_found [OF assms(1), of k v] assms(2) by (auto simp: lru_try_get_def split: option.splits)
qed

lemma get_or_insert_coherent:
  assumes "lru.coherent P c" "P k new" "get_or_insert k new c = (v, c')"
  shows "lru.coherent P c' \<and> P k v"
proof (cases "lru_try_get k c")
  case (Pair r d)
  note t = lru_try_get_coherent [OF assms(1) Pair]
  show ?thesis using assms(2,3) t lru.coherent_add [OF t(1) assms(2)] Pair
    by (cases r) (auto simp: get_or_insert_def)
qed

lemma new_caches_ok: "caches_ok rx (new_caches args)"
  by (simp add: caches_ok_def new_caches_def lru.coherent_def lru_ok_init) (simp add: LRUCache_def)

lemma caches_okD:
  assumes "caches_ok rx s"
  shows "lru_try_get e (cache_rx_cache s) = (r, c) \<Longrightarrow> lru.coherent (\<lambda>e v. v = cache_for rx e) c \<and> (\<forall>v. r = Some v \<longrightarrow> v = cache_for rx e)"
    and "lru_try_get e (cache_rx_vm_light s) = (q, l) \<Longrightarrow> lru.coherent (\<lambda>e v. v = light_for rx e) l \<and> (\<forall>v. q = Some v \<longrightarrow> v = light_for rx e)"
    and "lru_try_get e (cache_rx_vm_fast s) = (q, f) \<Longrightarrow> lru.coherent (\<lambda>e v. v = fast_for rx e) f \<and> (\<forall>v. q = Some v \<longrightarrow> v = fast_for rx e)"
    and "lru_try_get e (cache_rx_dataset s) = (p, d) \<Longrightarrow> lru.coherent (\<lambda>e v. v = dataset_for rx e) d \<and> (\<forall>v. p = Some v \<longrightarrow> v = dataset_for rx e)"
  using assms unfolding caches_ok_def by (blast dest: lru_try_get_coherent)+

lemma caches_ok_upd:
  assumes "caches_ok rx s"
  shows "lru.coherent (\<lambda>e v. v = cache_for rx e) c \<Longrightarrow> caches_ok rx (s\<lparr>cache_rx_cache := c\<rparr>)"
    and "lru.coherent (\<lambda>e v. v = light_for rx e) l \<Longrightarrow> caches_ok rx (s\<lparr>cache_rx_vm_light := l\<rparr>)"
    and "lru.coherent (\<lambda>e v. v = fast_for rx e) f \<Longrightarrow> caches_ok rx (s\<lparr>cache_rx_vm_fast := f\<rparr>)"
    and "lru.coherent (\<lambda>e v. v = dataset_for rx e) d \<Longrightarrow> caches_ok rx (s\<lparr>cache_rx_dataset := d\<rparr>)"
  using assms by (simp_all add: caches_ok_def)

lemma gv_step_ok:
  assumes ok: "caches_ok rx s" "pc_ok rx e pc" and g: "gv_step rx alloc e pc s = (pc', s')"
  shows "caches_ok rx s' \<and> pc_ok rx e pc'"
proof (cases pc)
  case Gv_fast
  obtain r c where t: "lru_try_get e (cache_rx_vm_fast s) = (r, c)" by force
  from caches_okD(3) [OF ok(1) t] show ?thesis using g Gv_fast t caches_ok_upd(3) [OF ok(1)] by (cases r) auto
next
  case Gv_light
  obtain r c where t: "lru_try_get e (cache_rx_vm_light s) = (r, c)" by force
  from caches_okD(2) [OF ok(1) t] show ?thesis using g Gv_light t caches_ok_upd(2) [OF ok(1)] by (cases r) auto
next
  case Gv_cache
  obtain r c where t: "lru_try_get e (cache_rx_cache s) = (r, c)" by force
  from caches_okD(1) [OF ok(1) t] show ?thesis using g Gv_cache t caches_ok_upd(1) [OF ok(1)] by (cases r) auto
next
  case (Gv_insert_cache n)
  obtain r c where t: "get_or_insert e n (cache_rx_cache s) = (r, c)" by force
  have "lru.coherent (\<lambda>e v. v = cache_for rx e) c \<and> r = cache_for rx e"
    using get_or_insert_coherent [OF _ _ t, of "\<lambda>e v. v = cache_for rx e"] ok Gv_insert_cache by (simp add: caches_ok_def)
  then show ?thesis using g Gv_insert_cache t caches_ok_upd(1) [OF ok(1)] by auto
next
  case (Gv_insert_light n m)
  obtain r c where t: "lru_try_get e (cache_rx_vm_light s) = (r, c)" by force
  note c = caches_okD(2) [OF ok(1) t]
  have "lru.coherent (\<lambda>e v. v = light_for rx e) (lru_insert e (light_for rx e) c)"
    by (rule lru.coherent_add) (use c in auto)
  then show ?thesis using c g ok(2) Gv_insert_light t caches_ok_upd(2) [OF ok(1)] by (cases r) auto
qed (use ok g in \<open>auto simp: for_defs split: if_splits\<close>)

lemma fv_step_ok:
  assumes ok: "caches_ok rx s" "pc_ok rx e pc" and g: "fv_step rx alloc e pc s = (pc', s')"
  shows "caches_ok rx s' \<and> pc_ok rx e pc'"
proof (cases pc)
  case (Fv_dataset n)
  obtain r c where t: "lru_try_get e (cache_rx_dataset s) = (r, c)" by force
  from caches_okD(4) [OF ok(1) t] show ?thesis using g ok(2) Fv_dataset t caches_ok_upd(4) [OF ok(1)] by (cases r) auto
next
  case (Fv_insert_dataset n)
  obtain r c where t: "get_or_insert e n (cache_rx_dataset s) = (r, c)" by force
  have "lru.coherent (\<lambda>e v. v = dataset_for rx e) c \<and> r = dataset_for rx e"
    using get_or_insert_coherent [OF _ _ t, of "\<lambda>e v. v = dataset_for rx e"] ok Fv_insert_dataset by (simp add: caches_ok_def)
  then show ?thesis using g Fv_insert_dataset t caches_ok_upd(4) [OF ok(1)] by auto
next
  case (Fv_insert_fast m)
  obtain r c where t: "lru_try_get e (cache_rx_vm_fast s) = (r, c)" by force
  note c = caches_okD(3) [OF ok(1) t]
  have "lru.coherent (\<lambda>e v. v = fast_for rx e) (lru_insert e (fast_for rx e) c)"
    by (rule lru.coherent_add) (use c in auto)
  then show ?thesis using c g ok(2) Fv_insert_fast t caches_ok_upd(3) [OF ok(1)] by (cases r) auto
qed (use ok g in \<open>auto simp: for_defs split: if_splits\<close>)

text \<open>The points that work on the shared caches only.\<close>

definition local_pc :: "('c, 'd, 'm) rx_pc \<Rightarrow> bool" where
  "local_pc pc \<longleftrightarrow> \<not> at_end pc \<and> pc \<notin> {Gv_once, Gv_allow} \<and> (\<forall>c m. pc \<noteq> Gv_spawn c m) \<and> (\<forall>u m. pc \<noteq> Gv_track u m)"

definition local_step :: "('c, 'd, 'm) randomx \<Rightarrow> bool \<Rightarrow> u32 \<Rightarrow> ('c, 'd, 'm) rx_pc \<Rightarrow> ('c, 'd, 'm) rx_caches \<Rightarrow>
    ('c, 'd, 'm) rx_pc \<times> ('c, 'd, 'm) rx_caches" where
  "local_step rx alloc e pc s = (if in_fast pc then fv_step rx alloc e pc s else gv_step rx alloc e pc s)"

lemma local_step_ok:
  "caches_ok rx s \<Longrightarrow> pc_ok rx e pc \<Longrightarrow> local_step rx alloc e pc s = (pc', s') \<Longrightarrow> caches_ok rx s' \<and> pc_ok rx e pc'"
  using gv_step_ok [of rx s e pc alloc pc' s'] fv_step_ok [of rx s e pc alloc pc' s']
  by (simp add: local_step_def split: if_splits)

lemma local_step_rank:
  "local_pc pc \<Longrightarrow> local_step rx alloc e pc s = (pc', s') \<Longrightarrow> pc_rank pc' < pc_rank pc"
  by (cases pc) (auto simp: local_pc_def local_step_def get_or_insert_def split: if_splits prod.splits option.splits)

lemma thread_step_local:
  assumes "rx_threads st ! t = (e, pc)" "local_pc pc"
  shows "thread_step rx args ibd alloc t st = (case rx_shared st of None \<Rightarrow> None
    | Some s \<Rightarrow> Some (goto t e (fst (local_step rx alloc e pc s)) (st\<lparr>rx_shared := Some (snd (local_step rx alloc e pc s))\<rparr>)))"
  using assms by (cases pc; cases "rx_shared st") (simp_all add: thread_step_def local_pc_def local_step_def split_beta)

lemma rx_okD:
  assumes "rx_ok rx st" "t < length (rx_threads st)" "rx_threads st ! t = (e, pc)"
  shows "pc_ok rx e pc" and "pc \<noteq> Gv_once \<Longrightarrow> \<exists>s. rx_shared st = Some s \<and> caches_ok rx s"
proof -
  have "(e, pc) \<in> set (rx_threads st)" using assms(2,3) nth_mem by fastforce
  then show "pc_ok rx e pc" and "pc \<noteq> Gv_once \<Longrightarrow> \<exists>s. rx_shared st = Some s \<and> caches_ok rx s"
    using assms(1) by (cases "rx_shared st"; auto simp: rx_ok_def)+
qed

lemma rx_ok_append: "rx_ok rx st \<Longrightarrow> pc_ok rx e pc \<Longrightarrow> rx_shared st \<noteq> None \<or> pc = Gv_once \<Longrightarrow>
    rx_ok rx (st\<lparr>rx_threads := rx_threads st @ [(e, pc)]\<rparr>)"
  by (auto simp: rx_ok_def)

text \<open>One step of one thread: it happens, keeps the invariant, brings the thread nearer to its end and moves no other.\<close>

definition advances :: "nat \<Rightarrow> ('c, 'd, 'm) rx_state \<Rightarrow> ('c, 'd, 'm) rx_state \<Rightarrow> bool" where
  "advances t st st' \<longleftrightarrow> length (rx_threads st) \<le> length (rx_threads st') \<and>
     (\<forall>u < length (rx_threads st). u \<noteq> t \<longrightarrow> rx_threads st' ! u = rx_threads st ! u) \<and>
     fst (rx_threads st' ! t) = fst (rx_threads st ! t) \<and>
     (at_end (snd (rx_threads st ! t)) \<or> pc_rank (snd (rx_threads st' ! t)) < pc_rank (snd (rx_threads st ! t)))"

definition good_step :: "('c, 'd, 'm) randomx \<Rightarrow> nat \<Rightarrow> ('c, 'd, 'm) rx_state \<Rightarrow> ('c, 'd, 'm) rx_state \<Rightarrow> bool" where
  "good_step rx t st st' \<longleftrightarrow> rx_ok rx st' \<and> advances t st st'"

lemma good_goto:
  assumes "rx_ok rx st" "t < length (rx_threads st)" "rx_threads st ! t = (e, pc)" "pc_ok rx e pc'" "pc_rank pc' < pc_rank pc" "caches_ok rx s"
  shows "good_step rx t st (goto t e pc' (st\<lparr>rx_shared := Some s, rx_allowed := a, g_rx_threads := g\<rparr>))"
proof -
  have "x = (e, pc') \<or> x \<in> set (rx_threads st)" if "x \<in> set ((rx_threads st)[t := (e, pc')])" for x
    using that set_update_subset_insert by fastforce
  then have "rx_ok rx (goto t e pc' (st\<lparr>rx_shared := Some s, rx_allowed := a, g_rx_threads := g\<rparr>))"
    using assms by (fastforce simp: rx_ok_def goto_def)
  then show ?thesis using assms by (simp add: good_step_def advances_def goto_def)
qed

lemma good_goto_same:
  assumes "rx_ok rx st" "t < length (rx_threads st)" "rx_threads st ! t = (e, pc)" "pc_ok rx e pc'" "pc_rank pc' < pc_rank pc" "rx_shared st = Some s"
  shows "good_step rx t st (goto t e pc' (st\<lparr>rx_allowed := a, g_rx_threads := g\<rparr>))"
proof -
  have "st\<lparr>rx_shared := Some s\<rparr> = st" unfolding assms(6) [symmetric] by simp
  moreover have "caches_ok rx s" using assms(1,6) by (simp add: rx_ok_def)
  ultimately show ?thesis using good_goto [OF assms(1-5), where s = s and a = a and g = g] by simp
qed

lemma step_local:
  assumes "rx_ok rx st" "t < length (rx_threads st)" "rx_threads st ! t = (e, pc)" "local_pc pc" "rx_shared st = Some s"
  shows "\<exists>st'. thread_step rx args ibd alloc t st = Some st' \<and> good_step rx t st st'"
proof -
  obtain pc' s' where l: "local_step rx alloc e pc s = (pc', s')" by force
  have "caches_ok rx s" "pc_ok rx e pc" using rx_okD(1) [OF assms(1-3)] assms(1,5) by (auto simp: rx_ok_def)
  then have "caches_ok rx s' \<and> pc_ok rx e pc'" "pc_rank pc' < pc_rank pc"
    using local_step_ok local_step_rank [OF assms(4)] l by blast+
  then show ?thesis
    using good_goto [OF assms(1-3), where a = "rx_allowed st" and g = "g_rx_threads st"]
      thread_step_local [OF assms(3,4), of rx args ibd alloc] assms(5) l by simp
qed

lemma step_once:
  assumes "rx_ok rx st" "t < length (rx_threads st)" "rx_threads st ! t = (e, Gv_once)"
  shows "\<exists>st'. thread_step rx args ibd alloc t st = Some st' \<and> good_step rx t st st'"
proof -
  have "caches_ok rx (case rx_shared st of Some s \<Rightarrow> s | None \<Rightarrow> new_caches args)"
    using assms(1) new_caches_ok [of rx args] by (cases "rx_shared st") (auto simp: rx_ok_def)
  then show ?thesis
    using good_goto [OF assms, where a = "rx_allowed st" and g = "g_rx_threads st" and pc' = Gv_allow] assms(3) by (simp add: thread_step_def)
qed

lemma step_allow:
  assumes "rx_ok rx st" "t < length (rx_threads st)" "rx_threads st ! t = (e, Gv_allow)" "rx_shared st = Some s"
  shows "\<exists>st'. thread_step rx args ibd alloc t st = Some st' \<and> good_step rx t st st'"
proof -
  have s: "caches_ok rx s" using assms(1,4) by (simp add: rx_ok_def)
  then have "caches_ok rx (s\<lparr>cache_rx_vm_light := lru_clear (cache_rx_vm_light s)\<rparr>)"
    by (auto simp: caches_ok_def intro: lru.coherent_empty)
  then have 1: "good_step rx t st (goto t e Gv_fast (st\<lparr>rx_shared := Some (s\<lparr>cache_rx_vm_light := lru_clear (cache_rx_vm_light s)\<rparr>), rx_allowed := True\<rparr>))"
    using good_goto [OF assms(1-3), where a = True and g = "g_rx_threads st" and pc' = Gv_fast] by simp
  have 2: "good_step rx t st (goto t e Gv_fast (st\<lparr>rx_allowed := a\<rparr>))" for a
    using good_goto_same [OF assms(1-3) _ _ assms(4), where a = a and g = "g_rx_threads st" and pc' = Gv_fast] by simp
  then have 3: "good_step rx t st (goto t e Gv_fast st)" using 2 [of "rx_allowed st"] by simp
  show ?thesis
    using 1 2 [of True] 3 assms(3,4)
    by (cases "ibd \<and> \<not> rx_allowed st"; cases "randomxfastmode args") (simp_all add: thread_step_def)
qed

lemma step_spawn:
  assumes "rx_ok rx st" "t < length (rx_threads st)" "rx_threads st ! t = (e, Gv_spawn c m)" "rx_shared st = Some s"
  shows "\<exists>st'. thread_step rx args ibd alloc t st = Some st' \<and> good_step rx t st st'"
proof -
  have s: "c = cache_for rx e" "m = light_for rx e" using rx_okD(1) [OF assms(1-3)] by auto
  note go = good_goto_same [OF assms(1-3) _ _ assms(4), where a = "rx_allowed st" and g = "g_rx_threads st"]
  let ?a = "goto t e (Gv_track (length (rx_threads st)) m) st"
  have a: "rx_ok rx ?a" using go [of "Gv_track (length (rx_threads st)) m"] s assms(4) by (simp add: good_step_def)
  have "rx_ok rx (?a\<lparr>rx_threads := rx_threads ?a @ [(e, Fv_dataset c)]\<rparr>)"
    using rx_ok_append [OF a, of e "Fv_dataset c"] s assms(4) by (simp add: goto_def)
  then have "good_step rx t st (?a\<lparr>rx_threads := rx_threads ?a @ [(e, Fv_dataset c)]\<rparr>)"
    using assms(2,3) by (simp add: good_step_def advances_def goto_def nth_append)
  then show ?thesis
    using go [of "Gv_return (Some m)"] s assms(3,4) by (simp add: thread_step_def Let_def)
qed

lemma step_track:
  assumes "rx_ok rx st" "t < length (rx_threads st)" "rx_threads st ! t = (e, Gv_track u m)" "rx_shared st = Some s"
  shows "\<exists>st'. thread_step rx args ibd alloc t st = Some st' \<and> good_step rx t st st'"
proof -
  have "m = light_for rx e" using rx_okD(1) [OF assms(1-3)] by simp
  then show ?thesis
    using good_goto_same [OF assms(1-3) _ _ assms(4), where a = "rx_allowed st" and g = "g_rx_threads st @ [u]" and pc' = "Gv_return (Some m)"] assms(3)
    by (simp add: thread_step_def)
qed

lemma thread_step_ok:
  assumes ok: "rx_ok rx st" "t < length (rx_threads st)"
  shows "\<exists>st'. thread_step rx args ibd alloc t st = Some st' \<and> good_step rx t st st'"
proof -
  obtain e pc where th: "rx_threads st ! t = (e, pc)" by force
  have s: "\<exists>s. rx_shared st = Some s" if "pc \<noteq> Gv_once" using rx_okD(2) [OF ok th that] by blast
  consider "local_pc pc" | "pc = Gv_once" | "pc = Gv_allow" | c m where "pc = Gv_spawn c m" | u m where "pc = Gv_track u m" | "at_end pc"
    unfolding local_pc_def by blast
  then show ?thesis
  proof cases
    case 1
    then have "pc \<noteq> Gv_once" by (auto simp: local_pc_def)
    then obtain s' where "rx_shared st = Some s'" using s by auto
    then show ?thesis by (rule step_local [OF ok th 1])
  next
    case (4 c m)
    then obtain s' where "rx_shared st = Some s'" using s by auto
    then show ?thesis using step_spawn [OF ok, of e c m s'] th 4 by simp
  next
    case (5 u m)
    then obtain s' where "rx_shared st = Some s'" using s by auto
    then show ?thesis using step_track [OF ok, of e u m s'] th 5 by simp
  next
    case 6
    then show ?thesis using ok th by (cases pc) (simp_all add: thread_step_def good_step_def advances_def)
  next
    case 2
    then show ?thesis using step_once [OF ok, of e] th by simp
  next
    case 3
    then obtain s' where "rx_shared st = Some s'" using s by auto
    then show ?thesis using step_allow [OF ok, of e s'] th 3 by simp
  qed
qed

lemma reachable_rx_ok: "rx_reachable rx args st \<Longrightarrow> rx_ok rx st"
proof (induction rule: rx_reachable.induct)
  case (call st e)
  then show ?case using rx_ok_append [of rx st e Gv_once] by (simp add: call_GetVM_def)
next
  case (step st t ibd alloc st')
  then show ?case using thread_step_ok [OF step.IH step.hyps(2), of args ibd alloc] by (auto simp: good_step_def)
qed (auto simp: rx_ok_def rx_init_def StopRandomXThreads_def)

end
