(* ===== verification/Mining_Claims.thy ===== *)
theory Mining_Claims
  imports Hash_Domain Block Rx_Vm
begin

text \<open>
  The header the mining proxy hashes is the proof-of-work input of the node, and the alignment
  script under \<^verbatim>\<open>scripts/\<close> checks the proxy's own computation.
\<close>


lemma length_ser32 [simp]: "length (ser_writedata32 w) = 4"
  by (simp add: ser_writedata32_def)

lemma ser32_neq_Nil [simp]: "ser_writedata32 w \<noteq> []"
  using length_ser32 [of w] by (metis list.size(3) zero_neq_numeral)







text \<open>
  C29: the alignment script computes what the proxy computes. Whenever the proxy makes a job of a
  template and builds a header for it, the script's copies return the same blob and the same header;
  and the script itself runs to the end, prints that it passed and raises no assertion.
\<close>

theorem hashdomain_mirrors_proxy:
  assumes "createRandomXJob sha n (as_proxy_template tpl target) = Inr job" and "merkleroot tpl \<noteq> []"
    and "buildHeader112 job (JStr nonce) (JStr ntime) = Inr (Some h)"
  shows "createJobBlob tpl = Inr (j_blob job) \<and> hd_buildHeader112 (j_blob job) nonce ntime = h \<and>
    hashdomain_run = Inr (Inr [''S-01 byte-alignment check PASSED'', ''proxy112 == SerializeRandomXHeader (112B, hashRandomX zeroed)''])"
  using createJobBlob_proxy [OF assms(1,2)] hd_buildHeader112_proxy [OF assms(3)] hashdomain_run_passes by simp

definition demo_tpl :: hd_template where
  "demo_tpl = \<lparr>previousblockhash = hexstr (rev uint256_null), merkleroot = hexstr (rev uint256_null),
     hd_bits = hexstr (rev (ser_writedata32 0x1d00ffff)), curtime = 1700000000\<rparr>"

lemma demo_tpl_job:
  "\<exists>job. createRandomXJob (\<lambda>d. d) 1 (as_proxy_template demo_tpl (hexstr (rev (1 # replicate 31 0)))) = Inr job \<and>
    j_blob job = hexstr (blob_bytes uint256_null uint256_null 1700000000 (ser_writedata32 0x1d00ffff))"
proof -
  have "uint256_null \<noteq> []" "Some uint256_null \<noteq> Some []" "ser_writedata32 0x1d00ffff \<noteq> []"
    by (simp_all add: uint256_null_def)
  then show ?thesis
    using createRandomXJob_hexstr [of "as_proxy_template demo_tpl (hexstr (rev (1 # replicate 31 0)))" uint256_null
      "Some uint256_null" "ser_writedata32 0x1d00ffff" "1 # replicate 31 0" "\<lambda>d. d" 1]
    by (auto simp: as_proxy_template_def demo_tpl_def)
qed

theorem hashdomain_mirrors_proxy_witness:
  "\<exists>job. createRandomXJob (\<lambda>d. d) 1 (as_proxy_template demo_tpl (hexstr (rev (1 # replicate 31 0)))) = Inr job \<and>
    createJobBlob demo_tpl = Inr (j_blob job) \<and> hd_buildHeader112 (j_blob job) (hexstr [1, 2, 3, 4]) (hexstr [5, 6, 7, 8]) =
      hexstr (le_bytes 4 0x20000000 @ uint256_null @ uint256_null @ [8, 7, 6, 5] @ ser_writedata32 0x1d00ffff @ [1, 2, 3, 4] @ replicate 32 0)"
proof -
  obtain job where job: "createRandomXJob (\<lambda>d. d) 1 (as_proxy_template demo_tpl (hexstr (rev (1 # replicate 31 0)))) = Inr job"
    "j_blob job = hexstr (blob_bytes uint256_null uint256_null 1700000000 (ser_writedata32 0x1d00ffff))"
    using demo_tpl_job by blast
  have "buildHeader112 job (JStr (hexstr [1, 2, 3, 4])) (JStr (hexstr [5, 6, 7, 8])) = Inr (Some
      (hexstr (le_bytes 4 0x20000000 @ uint256_null @ uint256_null @ [8, 7, 6, 5] @ ser_writedata32 0x1d00ffff @ [1, 2, 3, 4] @ replicate 32 0)))"
    using buildHeader112_hexstr [OF job(2), of "[1, 2, 3, 4]" "[5, 6, 7, 8]"] by (simp add: uint256_null_def)
  moreover have "merkleroot demo_tpl \<noteq> []"
    unfolding demo_tpl_def by (simp add: hexstr_neq_Nil uint256_null_def)
  ultimately show ?thesis using hashdomain_mirrors_proxy [OF job(1)] job(1) by blast
qed

end
