(* ===== verification/Keccak.thy ===== *)
theory Keccak
  imports Hash_Buffer
begin

unbundle bit_operations_syntax

text \<open>
  \<open>crypto/keccak.cpp\<close>: the permutation Keccak-f[1600] on an array of 25 lanes, and the streaming
  hashers \<open>CKeccak256\<close> and \<open>CKeccak512\<close>. The permutation is proved equal to the step mappings of the
  standard written over lane coordinates, and the hashers are shown to be the sponge of their input.
\<close>

definition rotl64 :: "u64 \<Rightarrow> nat \<Rightarrow> u64" where
  "rotl64 x k = push_bit k x OR drop_bit (64 - k) x"

definition KECCAK_RHO :: "nat list" where
  "KECCAK_RHO = [1, 3, 6, 10, 15, 21, 28, 36, 45, 55, 2, 14,
    27, 41, 56, 8, 25, 43, 62, 18, 39, 61, 20, 44]"

definition KECCAK_PI :: "nat list" where
  "KECCAK_PI = [10, 7, 11, 17, 18, 3, 5, 16, 8, 21, 24, 4,
    15, 23, 19, 13, 12, 2, 20, 14, 22, 9, 6, 1]"

definition KECCAK_RC :: "u64 list" where
  "KECCAK_RC = [
    0x0000000000000001, 0x0000000000008082,
    0x800000000000808a, 0x8000000080008000,
    0x000000000000808b, 0x0000000080000001,
    0x8000000080008081, 0x8000000000008009,
    0x000000000000008a, 0x0000000000000088,
    0x0000000080008009, 0x000000008000000a,
    0x000000008000808b, 0x800000000000008b,
    0x8000000000008089, 0x8000000000008003,
    0x8000000000008002, 0x8000000000000080,
    0x000000000000800a, 0x800000008000000a,
    0x8000000080008081, 0x8000000000008080,
    0x0000000080000001, 0x8000000080008008]"

text \<open>The four loops of one round; each updates the lanes in place, as the source does.\<close>

definition xor_column :: "nat \<Rightarrow> u64 \<Rightarrow> u64 list \<Rightarrow> u64 list" where
  "xor_column i t st = fold (\<lambda>j st. st[j + i := st ! (j + i) XOR t]) [0, 5, 10, 15, 20] st"

definition keccak_theta :: "u64 list \<Rightarrow> u64 list" where
  "keccak_theta st =
     (let bc = map (\<lambda>i. st ! i XOR st ! (i + 5) XOR st ! (i + 10) XOR st ! (i + 15) XOR st ! (i + 20)) [0..<5]
      in fold (\<lambda>i st.
           let t = bc ! ((i + 4) mod 5) XOR rotl64 (bc ! ((i + 1) mod 5)) 1
           in xor_column i t st) [0..<5] st)"

definition keccak_rho_pi :: "u64 list \<Rightarrow> u64 list" where
  "keccak_rho_pi st =
     fst (fold (\<lambda>i (st, t). let j = KECCAK_PI ! i in (st[j := rotl64 t (KECCAK_RHO ! i)], st ! j)) [0..<24] (st, st ! 1))"

definition chi_row :: "nat \<Rightarrow> u64 list \<Rightarrow> u64 list" where
  "chi_row j st =
     (let row = map (\<lambda>i. st ! (j + i)) [0..<5]
      in fold (\<lambda>i st. st[j + i := st ! (j + i) XOR (NOT (row ! ((i + 1) mod 5)) AND row ! ((i + 2) mod 5))]) [0..<5] st)"

definition keccak_chi :: "u64 list \<Rightarrow> u64 list" where
  "keccak_chi st = fold chi_row [0, 5, 10, 15, 20] st"

definition keccak_iota :: "nat \<Rightarrow> u64 list \<Rightarrow> u64 list" where
  "keccak_iota rnd st = st[0 := st ! 0 XOR KECCAK_RC ! rnd]"

definition keccakf :: "u64 list \<Rightarrow> u64 list" where
  "keccakf st = fold (\<lambda>rnd st. keccak_iota rnd (keccak_chi (keccak_rho_pi (keccak_theta st)))) [0..<24] st"

definition load64 :: "bytes \<Rightarrow> u64" where
  "load64 x = fold (\<lambda>i r. r OR push_bit (8 * i) (ucast (x ! i))) [0..<8] 0"

definition store64 :: "u64 \<Rightarrow> bytes" where
  "store64 u = map (\<lambda>i. ucast (drop_bit (8 * i) u)) [0..<8]"

definition keccak_absorb_block :: "nat \<Rightarrow> bytes \<Rightarrow> u64 list \<Rightarrow> u64 list" where
  "keccak_absorb_block rate block st =
     keccakf (fold (\<lambda>i st. st[i := st ! i XOR load64 (drop (8 * i) block)]) [0..<rate div 8] st)"

text \<open>
  A hasher object. The constructor leaves \<open>m_buf\<close> uninitialised, so it takes the bytes that happen
  to be there.
\<close>

record keccak_hasher =
  m_state :: "u64 list"
  m_buf :: bytes
  m_buflen :: nat

definition keccak_init :: "bytes \<Rightarrow> keccak_hasher" where
  "keccak_init junk = \<lparr>m_state = replicate 25 0, m_buf = junk, m_buflen = 0\<rparr>"

definition keccak_reset :: "nat \<Rightarrow> keccak_hasher" where
  "keccak_reset rate = \<lparr>m_state = replicate 25 0, m_buf = replicate rate 0, m_buflen = 0\<rparr>"

text \<open>One pass of the loop of \<open>Write\<close>, and the loop; an object whose buffer is full would not progress.\<close>

definition keccak_write_step :: "nat \<Rightarrow> bytes \<Rightarrow> keccak_hasher \<Rightarrow> keccak_hasher \<times> nat" where
  "keccak_write_step rate data h =
     (let tk = min (rate - m_buflen h) (length data);
          h1 = h\<lparr>m_buf := memcpy (m_buf h) (m_buflen h) (take tk data), m_buflen := m_buflen h + tk\<rparr>
      in (if m_buflen h1 = rate
          then h1\<lparr>m_state := keccak_absorb_block rate (m_buf h1) (m_state h1), m_buflen := 0\<rparr> else h1, tk))"

partial_function (option) keccak_write_loop :: "nat \<Rightarrow> bytes \<Rightarrow> keccak_hasher \<Rightarrow> keccak_hasher option" where
  "keccak_write_loop rate data h =
     (if data = [] then Some h
      else let (h', tk) = keccak_write_step rate data h in keccak_write_loop rate (drop tk data) h')"

declare keccak_write_loop.simps [code]

definition keccak_finalize :: "nat \<Rightarrow> nat \<Rightarrow> keccak_hasher \<Rightarrow> bytes \<times> keccak_hasher" where
  "keccak_finalize rate osize h =
     (let b0 = memcpy (m_buf h) (m_buflen h) (replicate (rate - m_buflen h) 0);
          b1 = b0[m_buflen h := b0 ! m_buflen h XOR 0x01];
          b2 = b1[rate - 1 := b1 ! (rate - 1) XOR 0x80];
          st = keccak_absorb_block rate b2 (m_state h)
      in (concat (map (\<lambda>i. store64 (st ! i)) [0..<osize div 8]), keccak_reset rate))"

definition CKeccak256_RATE :: nat where "CKeccak256_RATE = 136"
definition CKeccak512_RATE :: nat where "CKeccak512_RATE = 72"

definition CKeccak256_Write :: "bytes \<Rightarrow> keccak_hasher \<Rightarrow> keccak_hasher option" where
  "CKeccak256_Write data h = keccak_write_loop CKeccak256_RATE data h"

definition CKeccak512_Write :: "bytes \<Rightarrow> keccak_hasher \<Rightarrow> keccak_hasher option" where
  "CKeccak512_Write data h = keccak_write_loop CKeccak512_RATE data h"

definition CKeccak256_Finalize :: "keccak_hasher \<Rightarrow> bytes \<times> keccak_hasher" where
  "CKeccak256_Finalize h = keccak_finalize CKeccak256_RATE 32 h"

definition CKeccak512_Finalize :: "keccak_hasher \<Rightarrow> bytes \<times> keccak_hasher" where
  "CKeccak512_Finalize h = keccak_finalize CKeccak512_RATE 64 h"

definition Keccak256 :: "bytes \<Rightarrow> bytes \<Rightarrow> bytes option" where
  "Keccak256 junk data = map_option (\<lambda>h. fst (CKeccak256_Finalize h)) (CKeccak256_Write data (keccak_init junk))"

definition Keccak512 :: "bytes \<Rightarrow> bytes \<Rightarrow> bytes option" where
  "Keccak512 junk data = map_option (\<lambda>h. fst (CKeccak512_Finalize h)) (CKeccak512_Write data (keccak_init junk))"


section \<open>The permutation\<close>

text \<open>
  The step mappings of the standard, over the lane at column \<open>x\<close> and row \<open>y\<close>. The offsets of rho are
  the triangular numbers along the orbit of (1, 0); a round constant has bit \<open>2^j - 1\<close> from a linear
  feedback register.
\<close>

definition lane :: "u64 list \<Rightarrow> nat \<Rightarrow> nat \<Rightarrow> u64" where
  "lane st x y = st ! (x + 5 * y)"

definition lanes :: "(nat \<Rightarrow> nat \<Rightarrow> u64) \<Rightarrow> u64 list" where
  "lanes f = map (\<lambda>p. f (p mod 5) (p div 5)) [0..<25]"

definition theta_spec :: "u64 list \<Rightarrow> u64 list" where
  "theta_spec st =
     (let c = (\<lambda>x. lane st x 0 XOR lane st x 1 XOR lane st x 2 XOR lane st x 3 XOR lane st x 4)
      in lanes (\<lambda>x y. lane st x y XOR (c ((x + 4) mod 5) XOR rotl64 (c ((x + 1) mod 5)) 1)))"

fun rho_pos :: "nat \<Rightarrow> nat \<times> nat" where
  "rho_pos 0 = (1, 0)"
| "rho_pos (Suc t) = (let (x, y) = rho_pos t in (y, (2 * x + 3 * y) mod 5))"

definition rho_offset :: "nat \<Rightarrow> nat \<Rightarrow> nat" where
  "rho_offset x y =
     (case find (\<lambda>t. rho_pos t = (x, y)) [0..<24] of Some t \<Rightarrow> ((t + 1) * (t + 2) div 2) mod 64 | None \<Rightarrow> 0)"

definition rho_spec :: "u64 list \<Rightarrow> u64 list" where
  "rho_spec st = lanes (\<lambda>x y. if x = 0 \<and> y = 0 then lane st x y else rotl64 (lane st x y) (rho_offset x y))"

definition pi_spec :: "u64 list \<Rightarrow> u64 list" where
  "pi_spec st = lanes (\<lambda>x y. lane st ((x + 3 * y) mod 5) x)"

definition chi_spec :: "u64 list \<Rightarrow> u64 list" where
  "chi_spec st = lanes (\<lambda>x y. lane st x y XOR (NOT (lane st ((x + 1) mod 5) y) AND lane st ((x + 2) mod 5) y))"

definition lfsr_step :: "bool list \<Rightarrow> bool list" where
  "lfsr_step r = [r ! 7, r ! 0, r ! 1, r ! 2, r ! 3 \<noteq> r ! 7, r ! 4 \<noteq> r ! 7, r ! 5 \<noteq> r ! 7, r ! 6]"

fun lfsr_bits :: "nat \<Rightarrow> bool list \<Rightarrow> bool list" where
  "lfsr_bits 0 r = []"
| "lfsr_bits (Suc m) r = r ! 0 # lfsr_bits m (lfsr_step r)"

definition rc_bits :: "bool list" where
  "rc_bits = lfsr_bits 168 [True, False, False, False, False, False, False, False]"

definition rc_spec :: "nat \<Rightarrow> u64" where
  "rc_spec rnd = fold (\<lambda>j r. if rc_bits ! (7 * rnd + j) then r OR push_bit (2 ^ j - 1) 1 else r) [0..<7] 0"

definition iota_spec :: "nat \<Rightarrow> u64 list \<Rightarrow> u64 list" where
  "iota_spec rnd st = lanes (\<lambda>x y. if x = 0 \<and> y = 0 then lane st x y XOR rc_spec rnd else lane st x y)"

definition keccakf_spec :: "u64 list \<Rightarrow> u64 list" where
  "keccakf_spec st = fold (\<lambda>rnd st. iota_spec rnd (chi_spec (pi_spec (rho_spec (theta_spec st))))) [0..<24] st"

lemma upt_lits:
  "[0..<5] = [0, 1, 2, 3, 4::nat]"
  "[0..<24] = [0, 1, 2, 3, 4, 5, 6, 7, 8, 9, 10, 11, 12, 13, 14, 15, 16, 17, 18, 19, 20, 21, 22, 23::nat]"
  "[0..<25] = [0, 1, 2, 3, 4, 5, 6, 7, 8, 9, 10, 11, 12, 13, 14, 15, 16, 17, 18, 19, 20, 21, 22, 23, 24::nat]"
  by (simp_all add: upt_rec)

lemma lanes25:
  assumes "length (st :: u64 list) = 25"
  obtains a b c d e f g h i j k l m n' o' p q r s t u v w x y
  where "st = [a, b, c, d, e, f, g, h, i, j, k, l, m, n', o', p, q, r, s, t, u, v, w, x, y]"
  using assms by (auto simp: eval_nat_numeral length_Suc_conv)

lemma xor_column_map:
  assumes "length st = 25" "i < 5"
  shows "xor_column i t st = map (\<lambda>p. if p mod 5 = i then st ! p XOR t else st ! p) [0..<25]"
proof -
  have "i = 0 \<or> i = 1 \<or> i = 2 \<or> i = 3 \<or> i = 4" using assms(2) by auto
  then show ?thesis using assms(1) by (elim disjE lanes25) (simp_all add: xor_column_def upt_lits)
qed

lemma theta_fold:
  assumes "length st = 25"
  shows "m \<le> 5 \<Longrightarrow> fold (\<lambda>i st. xor_column i (t i) st) [0..<m] st =
    map (\<lambda>p. if p mod 5 < m then st ! p XOR t (p mod 5) else st ! p) [0..<25]"
proof (induction m)
  case 0
  then show ?case using assms map_nth [of st] by simp
next
  case (Suc m)
  then show ?case by (auto simp: xor_column_map less_Suc_eq)
qed

lemma theta_eq: "length st = 25 \<Longrightarrow> keccak_theta st = theta_spec st"
  by (simp add: keccak_theta_def theta_spec_def Let_def theta_fold lanes_def lane_def add.commute cong: if_cong)

lemma rho_table:
  "map (\<lambda>p. rho_offset (p mod 5) (p div 5)) [0..<25] =
   [0, 1, 62, 28, 27, 36, 44, 6, 55, 20, 3, 10, 43, 25, 39, 41, 45, 15, 21, 8, 18, 2, 61, 56, 14]"
  by code_simp

lemmas rho_offsets = rho_table [simplified upt_lits, simplified]

lemma rho_pi_eq: "length st = 25 \<Longrightarrow> keccak_rho_pi st = pi_spec (rho_spec st)"
  by (erule lanes25) (simp add: keccak_rho_pi_def KECCAK_PI_def KECCAK_RHO_def pi_spec_def rho_spec_def
    rho_offsets lanes_def lane_def upt_lits Let_def)

lemma chi_eq: "length st = 25 \<Longrightarrow> keccak_chi st = chi_spec st"
  by (erule lanes25) (simp add: keccak_chi_def chi_row_def chi_spec_def lanes_def lane_def upt_lits Let_def)

lemma rc_bits_val: "rc_bits =
  [True, False, False, False, False, False, False, False, True, False, True, True, False, False,
   False, True, True, True, True, False, True, False, False, False, False, True, True, True, True,
   True, True, True, True, False, False, True, False, False, False, False, True, False, True,
   False, False, True, True, True, True, True, False, True, False, True, False, True, False, True,
   True, True, False, False, False, False, False, True, True, False, False, False, True, False,
   True, False, True, True, False, False, True, True, False, False, True, False, True, True, True,
   True, True, True, False, True, True, True, True, False, False, True, True, False, True, True,
   True, False, True, True, True, False, False, True, False, True, False, True, False, False,
   True, False, True, False, False, False, True, False, False, True, False, True, True, False,
   True, False, False, False, True, True, False, False, True, True, True, False, False, True,
   True, True, True, False, False, False, True, True, False, True, True, False, False, False,
   False, True, False, False, False, True, False, True, True, True]"
  by (simp add: rc_bits_def lfsr_step_def eval_nat_numeral)

lemma rc_eq: "rnd < 24 \<Longrightarrow> rc_spec rnd = KECCAK_RC ! rnd"
proof -
  have "list_all (\<lambda>i. rc_spec i = KECCAK_RC ! i) [0..<24]"
    by (simp add: rc_spec_def rc_bits_val KECCAK_RC_def upt_rec)
  then show "rnd < 24 \<Longrightarrow> rc_spec rnd = KECCAK_RC ! rnd" by (simp add: list_all_iff)
qed

lemma iota_eq: "length st = 25 \<Longrightarrow> rnd < 24 \<Longrightarrow> keccak_iota rnd st = iota_spec rnd st"
  by (erule lanes25) (simp add: keccak_iota_def iota_spec_def rc_eq lanes_def lane_def upt_lits)

lemma length_lanes [simp]: "length (lanes f) = 25"
  by (simp add: lanes_def)

lemma length_specs [simp]:
  "length (theta_spec st) = 25" "length (rho_spec st) = 25" "length (pi_spec st) = 25"
  "length (chi_spec st) = 25" "length (iota_spec rnd st) = 25"
  by (simp_all add: theta_spec_def rho_spec_def pi_spec_def chi_spec_def iota_spec_def Let_def)

lemma keccakf_rounds:
  "length st = 25 \<Longrightarrow> set rs \<subseteq> {..<24} \<Longrightarrow>
   fold (\<lambda>rnd st. keccak_iota rnd (keccak_chi (keccak_rho_pi (keccak_theta st)))) rs st =
   fold (\<lambda>rnd st. iota_spec rnd (chi_spec (pi_spec (rho_spec (theta_spec st))))) rs st \<and>
   length (fold (\<lambda>rnd st. iota_spec rnd (chi_spec (pi_spec (rho_spec (theta_spec st))))) rs st) = 25"
  by (induction rs arbitrary: st) (auto simp: theta_eq rho_pi_eq chi_eq iota_eq)

lemma keccakf_eq: "length st = 25 \<Longrightarrow> keccakf st = keccakf_spec st \<and> length (keccakf st) = 25"
  unfolding keccakf_def keccakf_spec_def using keccakf_rounds [of st "[0..<24]"] by (simp add: lessThan_atLeast0)

section \<open>The hashers\<close>

definition keccak_view :: "keccak_hasher \<Rightarrow> u64 list \<times> bytes" where
  "keccak_view h = (m_state h, take (m_buflen h) (m_buf h))"

definition keccak_ok :: "nat \<Rightarrow> keccak_hasher \<Rightarrow> bool" where
  "keccak_ok rate h \<longleftrightarrow> length (m_buf h) = rate \<and> m_buflen h < rate"

definition keccak_pad :: "nat \<Rightarrow> nat \<Rightarrow> bytes" where
  "keccak_pad rate used = (if used + 1 = rate then [0x81] else [0x01] @ replicate (rate - used - 2) 0 @ [0x80])"

definition squeeze :: "nat \<Rightarrow> u64 list \<Rightarrow> bytes" where
  "squeeze osize st = concat (map (\<lambda>i. store64 (st ! i)) [0..<osize div 8])"

definition keccak_final :: "nat \<Rightarrow> nat \<Rightarrow> u64 list \<Rightarrow> bytes \<Rightarrow> bytes" where
  "keccak_final rate osize st r = squeeze osize (keccak_absorb_block rate (r @ keccak_pad rate (length r)) st)"

lemma keccak_step_full:
  assumes "keccak_ok rate h" "rate - m_buflen h \<le> length data"
  shows "\<exists>h'. keccak_write_step rate data h = (h', rate - m_buflen h) \<and> keccak_ok rate h' \<and>
    keccak_view h' = (keccak_absorb_block rate (take (m_buflen h) (m_buf h) @ take (rate - m_buflen h) data) (m_state h), [])"
  using assms by (auto simp: keccak_write_step_def keccak_ok_def keccak_view_def Let_def memcpy_def)

lemma keccak_step_part:
  assumes "keccak_ok rate h" "length data < rate - m_buflen h"
  shows "\<exists>h'. keccak_write_step rate data h = (h', length data) \<and> keccak_ok rate h' \<and>
    keccak_view h' = (m_state h, take (m_buflen h) (m_buf h) @ data)"
  using assms by (auto simp: keccak_write_step_def keccak_ok_def keccak_view_def Let_def memcpy_def)

lemma keccak_write_run:
  "0 < rate \<Longrightarrow> keccak_ok rate h \<Longrightarrow> \<exists>h'. keccak_write_loop rate data h = Some h' \<and> keccak_ok rate h' \<and>
    keccak_view h' = absorb_all rate (keccak_absorb_block rate) (fst (keccak_view h)) (snd (keccak_view h) @ data)"
proof (induction "length data" arbitrary: data h rule: less_induct)
  case less
  have ok: "length (m_buf h) = rate" "m_buflen h < rate" using less.prems by (auto simp: keccak_ok_def)
  consider "data = []" | "data \<noteq> []" "length data < rate - m_buflen h" | "rate - m_buflen h \<le> length data" by linarith
  then show ?case
  proof cases
    case 1
    then show ?thesis using less.prems ok
      by (subst keccak_write_loop.simps) (simp add: keccak_view_def absorb_all_short)
  next
    case 2
    obtain h' where h': "keccak_write_step rate data h = (h', length data)" "keccak_ok rate h'"
      "keccak_view h' = (m_state h, take (m_buflen h) (m_buf h) @ data)"
      using keccak_step_part [OF less.prems(2) 2(2)] by blast
    then show ?thesis using 2 ok
      by (subst keccak_write_loop.simps, subst keccak_write_loop.simps)
        (simp add: keccak_view_def absorb_all_short)
  next
    case 3
    let ?tk = "rate - m_buflen h"
    obtain h' where h': "keccak_write_step rate data h = (h', ?tk)" "keccak_ok rate h'"
      "keccak_view h' = (keccak_absorb_block rate (take (m_buflen h) (m_buf h) @ take ?tk data) (m_state h), [])"
      using keccak_step_full [OF less.prems(2) 3] by blast
    have ne: "data \<noteq> []" "length (drop ?tk data) < length data" using 3 ok by auto
    have "absorb_all rate (keccak_absorb_block rate) (m_state h) (take (m_buflen h) (m_buf h) @ data) =
      absorb_all rate (keccak_absorb_block rate) (fst (keccak_view h')) (drop ?tk data)"
      using absorb_all_block [OF less.prems(1), of "take (m_buflen h) (m_buf h) @ take ?tk data"
        "keccak_absorb_block rate" "m_state h" "drop ?tk data"] 3 ok h'(3) by simp
    moreover have "keccak_write_loop rate data h = keccak_write_loop rate (drop ?tk data) h'"
      using ne(1) h'(1) by (subst keccak_write_loop.simps) simp
    ultimately show ?thesis using less.hyps [OF ne(2) less.prems(1) h'(2)] h'(3)
      by (simp add: keccak_view_def [of h])
  qed
qed

lemma xor_pad_bytes: "(0::byte) XOR 1 = 1" "(0::byte) XOR 0x80 = 0x80" "(1::byte) XOR 0x80 = 0x81"
  by simp_all

lemma keccak_finalize_view:
  assumes "2 \<le> rate" "keccak_ok rate h"
  shows "fst (keccak_finalize rate osize h) = keccak_final rate osize (fst (keccak_view h)) (snd (keccak_view h))"
proof -
  define r where "r = take (m_buflen h) (m_buf h)"
  have r: "length r = m_buflen h" "m_buflen h < rate" using assms by (auto simp: r_def keccak_ok_def)
  obtain z where z: "rate - m_buflen h = Suc z" using r(2) by (metis Suc_diff_Suc)
  have b0: "memcpy (m_buf h) (m_buflen h) (replicate (rate - m_buflen h) 0) = r @ replicate (Suc z) 0"
    using assms by (simp add: r_def memcpy_def keccak_ok_def z [symmetric] del: replicate_Suc)
  have "(r @ replicate (Suc z) 0)[length r := (r @ replicate (Suc z) 0) ! length r XOR 1] = r @ 1 # replicate z (0::byte)"
    by (simp add: list_update_append)
  moreover have "(r @ 1 # replicate z 0)[rate - 1 := (r @ 1 # replicate z 0) ! (rate - 1) XOR 0x80] =
    r @ keccak_pad rate (length r)"
  proof (cases z)
    case 0
    then have "rate = Suc (length r)" using z r by simp
    then show ?thesis using 0 by (simp add: keccak_pad_def list_update_append nth_append)
  next
    case (Suc w)
    then have "rate - 1 = length r + Suc w" "rate - length r - 2 = w" "length r + 1 \<noteq> rate" using z r by auto
    moreover have "replicate (Suc w) (0::byte) = replicate w 0 @ [0]"
      by (simp add: replicate_append_same)
    ultimately show ?thesis using Suc
      by (simp add: keccak_pad_def list_update_append nth_append del: replicate_Suc)
  qed
  ultimately have "fst (keccak_finalize rate osize h) =
    squeeze osize (keccak_absorb_block rate (r @ keccak_pad rate (length r)) (m_state h))"
    unfolding keccak_finalize_def Let_def b0 unfolding squeeze_def r(1) [symmetric] by simp
  then show ?thesis by (simp add: keccak_final_def keccak_view_def r_def [symmetric])
qed

interpretation k256: hash_function CKeccak256_RATE "keccak_absorb_block CKeccak256_RATE" keccak_view
  "keccak_ok CKeccak256_RATE" CKeccak256_Write "replicate 25 0"
  "\<lambda>h. \<exists>junk. length junk = CKeccak256_RATE \<and> h = keccak_init junk"
  "\<lambda>h. fst (CKeccak256_Finalize h)" "keccak_final CKeccak256_RATE 32"
proof unfold_locales
  show "0 < CKeccak256_RATE" by (simp add: CKeccak256_RATE_def)
next
  fix h d
  assume "keccak_ok CKeccak256_RATE h"
  then show "\<exists>h'. CKeccak256_Write d h = Some h' \<and> keccak_ok CKeccak256_RATE h' \<and>
    keccak_view h' = absorb_all CKeccak256_RATE (keccak_absorb_block CKeccak256_RATE) (fst (keccak_view h)) (snd (keccak_view h) @ d)"
    unfolding CKeccak256_Write_def by (intro keccak_write_run) (simp_all add: CKeccak256_RATE_def)
next
  fix h
  assume "keccak_ok CKeccak256_RATE h"
  then show "fst (CKeccak256_Finalize h) = keccak_final CKeccak256_RATE 32 (fst (keccak_view h)) (snd (keccak_view h))"
    unfolding CKeccak256_Finalize_def by (intro keccak_finalize_view) (simp_all add: CKeccak256_RATE_def)
qed (auto simp: keccak_ok_def keccak_view_def keccak_init_def CKeccak256_RATE_def)

interpretation k512: hash_function CKeccak512_RATE "keccak_absorb_block CKeccak512_RATE" keccak_view
  "keccak_ok CKeccak512_RATE" CKeccak512_Write "replicate 25 0"
  "\<lambda>h. \<exists>junk. length junk = CKeccak512_RATE \<and> h = keccak_init junk"
  "\<lambda>h. fst (CKeccak512_Finalize h)" "keccak_final CKeccak512_RATE 64"
proof unfold_locales
  show "0 < CKeccak512_RATE" by (simp add: CKeccak512_RATE_def)
next
  fix h d
  assume "keccak_ok CKeccak512_RATE h"
  then show "\<exists>h'. CKeccak512_Write d h = Some h' \<and> keccak_ok CKeccak512_RATE h' \<and>
    keccak_view h' = absorb_all CKeccak512_RATE (keccak_absorb_block CKeccak512_RATE) (fst (keccak_view h)) (snd (keccak_view h) @ d)"
    unfolding CKeccak512_Write_def by (intro keccak_write_run) (simp_all add: CKeccak512_RATE_def)
next
  fix h
  assume "keccak_ok CKeccak512_RATE h"
  then show "fst (CKeccak512_Finalize h) = keccak_final CKeccak512_RATE 64 (fst (keccak_view h)) (snd (keccak_view h))"
    unfolding CKeccak512_Finalize_def by (intro keccak_finalize_view) (simp_all add: CKeccak512_RATE_def)
qed (auto simp: keccak_ok_def keccak_view_def keccak_init_def CKeccak512_RATE_def)

text \<open>
  The sponge of the standard: pad the whole message, absorb it block by block with the permutation
  of the standard, squeeze the digest.
\<close>

definition absorb_spec :: "nat \<Rightarrow> bytes \<Rightarrow> u64 list \<Rightarrow> u64 list" where
  "absorb_spec rate block st =
     keccakf_spec (map (\<lambda>i. if i < rate div 8 then st ! i XOR load64 (drop (8 * i) block) else st ! i) [0..<25])"

definition keccak_spec :: "nat \<Rightarrow> nat \<Rightarrow> bytes \<Rightarrow> bytes" where
  "keccak_spec rate osize data =
     squeeze osize (fst (absorb_all rate (absorb_spec rate) (replicate 25 0) (data @ keccak_pad rate (length data mod rate))))"

lemma xor_prefix:
  assumes "length st = 25"
  shows "m \<le> 25 \<Longrightarrow> fold (\<lambda>i st. st[i := st ! i XOR f i]) [0..<m] st =
    map (\<lambda>i. if i < m then st ! i XOR f i else st ! i) [0..<25]"
proof (induction m)
  case 0
  then show ?case using assms map_nth [of st] by simp
next
  case (Suc m)
  then show ?case by (auto simp: nth_list_update less_Suc_eq intro!: nth_equalityI)
qed

lemma absorb_block_spec:
  assumes "length st = 25" "rate div 8 \<le> 25"
  shows "keccak_absorb_block rate b st = absorb_spec rate b st \<and> length (absorb_spec rate b st) = 25"
proof -
  let ?x = "map (\<lambda>i. if i < rate div 8 then st ! i XOR load64 (drop (8 * i) b) else st ! i) [0..<25]"
  have "keccakf ?x = keccakf_spec ?x" "length (keccakf_spec ?x) = 25" using keccakf_eq [of ?x] by auto
  then show ?thesis unfolding keccak_absorb_block_def absorb_spec_def xor_prefix [OF assms] by simp
qed

lemma absorb_all_spec:
  assumes "rate div 8 \<le> 25"
  shows "length st = 25 \<Longrightarrow> absorb_all rate (keccak_absorb_block rate) st d = absorb_all rate (absorb_spec rate) st d \<and>
    length (fst (absorb_all rate (absorb_spec rate) st d)) = 25"
proof (induction "length d" arbitrary: st d rule: less_induct)
  case less
  show ?case
  proof (cases "rate = 0 \<or> length d < rate")
    case True
    then show ?thesis using less.prems by (subst (1 2 3) absorb_all.simps) simp
  next
    case False
    then have "length (drop rate d) < length d" by auto
    from less.hyps [OF this, of "absorb_spec rate (take rate d) st"]
    show ?thesis using False absorb_block_spec [OF less.prems assms, of "take rate d"]
      by (subst (1 2 3) absorb_all.simps) simp
  qed
qed

lemma keccak_sponge:
  assumes "2 \<le> rate" "rate div 8 \<le> 25"
  shows "case_prod (keccak_final rate osize) (absorb_all rate (keccak_absorb_block rate) (replicate 25 0) d) = keccak_spec rate osize d"
proof -
  obtain st r where sr: "absorb_all rate (absorb_spec rate) (replicate 25 0) d = (st, r)" by fastforce
  have len: "length st = 25" "length r = length d mod rate"
    using absorb_all_spec [OF assms(2), of "replicate 25 0" d] absorb_all_rest [of rate "absorb_spec rate" "replicate 25 0" d] assms sr
    by auto
  have "length r < rate" using len assms by simp
  then have "length (r @ keccak_pad rate (length r)) = rate" by (auto simp: keccak_pad_def)
  then have "absorb_all rate (absorb_spec rate) st (r @ keccak_pad rate (length r)) =
    (absorb_spec rate (r @ keccak_pad rate (length r)) st, [])"
    using absorb_all_block [of rate "r @ keccak_pad rate (length r)" "absorb_spec rate" st "[]"] assms by (simp add: absorb_all_short)
  then have "keccak_spec rate osize d = squeeze osize (absorb_spec rate (r @ keccak_pad rate (length r)) st)"
    using absorb_all_append [of rate "absorb_spec rate" "replicate 25 0" d "keccak_pad rate (length r)"] sr len assms
    by (simp add: keccak_spec_def)
  then show ?thesis
    using absorb_all_spec [OF assms(2), of "replicate 25 0" d] sr absorb_block_spec [OF len(1) assms(2)]
    by (simp add: keccak_final_def)
qed

lemma keccak256_pieces:
  "length junk = CKeccak256_RATE \<Longrightarrow>
   map_option (\<lambda>h. fst (CKeccak256_Finalize h)) (puts CKeccak256_Write ds (keccak_init junk)) =
   Some (keccak_spec CKeccak256_RATE 32 (concat ds))"
  by (subst k256.digest_pieces) (auto simp: keccak_sponge CKeccak256_RATE_def)

lemma keccak512_pieces:
  "length junk = CKeccak512_RATE \<Longrightarrow>
   map_option (\<lambda>h. fst (CKeccak512_Finalize h)) (puts CKeccak512_Write ds (keccak_init junk)) =
   Some (keccak_spec CKeccak512_RATE 64 (concat ds))"
  by (subst k512.digest_pieces) (auto simp: keccak_sponge CKeccak512_RATE_def)

lemma Keccak256_spec:
  "length junk = CKeccak256_RATE \<Longrightarrow> Keccak256 junk data = Some (keccak_spec CKeccak256_RATE 32 data)"
  unfolding Keccak256_def by (subst k256.digest_once) (auto simp: keccak_sponge CKeccak256_RATE_def)

lemma Keccak512_spec:
  "length junk = CKeccak512_RATE \<Longrightarrow> Keccak512 junk data = Some (keccak_spec CKeccak512_RATE 64 data)"
  unfolding Keccak512_def by (subst k512.digest_once) (auto simp: keccak_sponge CKeccak512_RATE_def)

lemma length_keccak_spec: "8 dvd osize \<Longrightarrow> length (keccak_spec rate osize data) = osize"
  by (auto simp: keccak_spec_def squeeze_def store64_def length_concat o_def sum_list_triv)

end
