(* ===== verification/Hash_Claims.thy ===== *)
theory Hash_Claims
  imports Keccak Sha256
begin

text \<open>
  The properties of the hash functions the node implements.
\<close>

text \<open>
  C30: the Keccak hashers compute the sponge of the standard. However the message is cut into calls of
  \<open>Write\<close>, and whatever bytes the uninitialised buffer holds at first, the loop of \<open>Write\<close> always ends,
  and \<open>Finalize\<close> gives the digest of the concatenated message under the permutation written over lane
  coordinates, with triangular rotation offsets and feedback-register round constants; the one-call
  functions give the same, and the digests have 32 and 64 bytes.
\<close>

theorem keccak_is_sponge:
  assumes "length junk = CKeccak256_RATE" and "length junk' = CKeccak512_RATE"
  shows "map_option (\<lambda>h. fst (CKeccak256_Finalize h)) (puts CKeccak256_Write ds (keccak_init junk)) =
      Some (keccak_spec CKeccak256_RATE 32 (concat ds)) \<and>
    map_option (\<lambda>h. fst (CKeccak512_Finalize h)) (puts CKeccak512_Write ds (keccak_init junk')) =
      Some (keccak_spec CKeccak512_RATE 64 (concat ds)) \<and>
    Keccak256 junk data = Some (keccak_spec CKeccak256_RATE 32 data) \<and>
    Keccak512 junk' data = Some (keccak_spec CKeccak512_RATE 64 data) \<and>
    length (keccak_spec CKeccak256_RATE 32 data) = 32 \<and>
    length (keccak_spec CKeccak512_RATE 64 data) = 64"
  using assms by (simp_all add: keccak256_pieces keccak512_pieces Keccak256_spec Keccak512_spec length_keccak_spec)

theorem keccak_is_sponge_witness:
  "Keccak256 (replicate 136 7) [1, 2] = Some (keccak_spec CKeccak256_RATE 32 [1, 2]) \<and>
   map_option (\<lambda>h. fst (CKeccak512_Finalize h)) (puts CKeccak512_Write [[1], [2]] (keccak_init (replicate 72 9))) =
     Some (keccak_spec CKeccak512_RATE 64 [1, 2])"
  using keccak_is_sponge [of "replicate 136 7" "replicate 72 9" "[[1], [2]]" "[1, 2]"]
  by (simp add: CKeccak256_RATE_def CKeccak512_RATE_def)



end
