(* ===== verification/Chain.thy ===== *)
theory Chain
  imports Block Cpp_Int
begin

text \<open>
  The block index: \<^verbatim>\<open>src/chain.h\<close>, \<^verbatim>\<open>src/chain.cpp\<close>, \<open>ComputeSecondAlgoCount\<close> of \<^verbatim>\<open>src/pow.cpp\<close>
  and \<open>BlockManager::AddToBlockIndex\<close> of \<^verbatim>\<open>src/node/blockstorage.cpp\<close>. Entries live in a map from
  block hashes; a pointer to an entry is its hash, \<open>nullptr\<close> is \<open>None\<close>. An operation that
  dereferences a missing entry or fails an assertion has the outer value \<open>None\<close>.
\<close>

section \<open>Entries\<close>

record CBlockIndex =
  pprev :: "bytes option"
  pskip :: "bytes option"
  nHeight :: int
  nFile :: int
  nDataPos :: u32
  nUndoPos :: u32
  nChainWork :: base_uint
  nSecondAlgoCount :: int
  nTx :: u32
  nChainTx :: u32
  nStatus :: u32
  idx_nVersion :: u32
  idx_hashMerkleRoot :: bytes
  nTime :: u32
  nBits :: u32
  idx_nNonce :: u32
  idx_hashRandomX :: bytes
  nSequenceId :: int
  nTimeMax :: u32

type_synonym block_map = "bytes \<rightharpoonup> CBlockIndex"

definition CBlockIndex_of :: "CBlockHeader \<Rightarrow> CBlockIndex" where
  "CBlockIndex_of block = \<lparr>pprev = None, pskip = None, nHeight = 0, nFile = 0, nDataPos = 0, nUndoPos = 0,
     nChainWork = of_u64 8 0, nSecondAlgoCount = -1, nTx = 0, nChainTx = 0, nStatus = 0,
     idx_nVersion = hdr_nVersion block, idx_hashMerkleRoot = hashMerkleRoot block, nTime = hdr_nTime block,
     nBits = hdr_nBits block, idx_nNonce = hdr_nNonce block, idx_hashRandomX = hdr_hashRandomX block,
     nSequenceId = 0, nTimeMax = 0\<rparr>"

definition GetBlockTime :: "CBlockIndex \<Rightarrow> int" where
  "GetBlockTime i = int (unat (nTime i))"

text \<open>The header is rebuilt from the entry; the previous hash is that of the entry \<open>pprev\<close>.\<close>

definition GetBlockHeader :: "CBlockIndex \<Rightarrow> CBlockHeader" where
  "GetBlockHeader i = \<lparr>hdr_nVersion = idx_nVersion i,
     hashPrevBlock = (case pprev i of Some p \<Rightarrow> p | None \<Rightarrow> uint256_null), hashMerkleRoot = idx_hashMerkleRoot i,
     hdr_nTime = nTime i, hdr_nBits = nBits i, hdr_nNonce = idx_nNonce i, hdr_hashRandomX = idx_hashRandomX i\<rparr>"

definition BLOCK_VALID_TREE :: u32 where "BLOCK_VALID_TREE = 2"
definition BLOCK_VALID_SCRIPTS :: u32 where "BLOCK_VALID_SCRIPTS = 5"
definition BLOCK_VALID_MASK :: u32 where "BLOCK_VALID_MASK = 1 OR 2 OR 3 OR 4 OR 5"
definition BLOCK_FAILED_MASK :: u32 where "BLOCK_FAILED_MASK = 32 OR 64"
definition BLOCK_ASSUMED_VALID :: u32 where "BLOCK_ASSUMED_VALID = 256"

definition IsValid :: "CBlockIndex \<Rightarrow> u32 \<Rightarrow> bool option" where
  "IsValid i nUpTo = do {
     assertion (nUpTo AND NOT BLOCK_VALID_MASK = 0);
     Some (if nStatus i AND BLOCK_FAILED_MASK \<noteq> 0 then False else (nStatus i AND BLOCK_VALID_MASK) \<ge> nUpTo)
   }"

definition RaiseValidity :: "CBlockIndex \<Rightarrow> u32 \<Rightarrow> (bool \<times> CBlockIndex) option" where
  "RaiseValidity i nUpTo = do {
     assertion (nUpTo AND NOT BLOCK_VALID_MASK = 0);
     Some (if nStatus i AND BLOCK_FAILED_MASK \<noteq> 0 then (False, i)
       else if (nStatus i AND BLOCK_VALID_MASK) < nUpTo then
         (let st = (if nStatus i AND BLOCK_ASSUMED_VALID \<noteq> 0 \<and> nUpTo \<ge> BLOCK_VALID_SCRIPTS
              then nStatus i AND NOT BLOCK_ASSUMED_VALID else nStatus i)
          in (True, i\<lparr>nStatus := (st AND NOT BLOCK_VALID_MASK) OR nUpTo\<rparr>))
       else (False, i))
   }"

section \<open>Ancestors\<close>

definition InvertLowestOne :: "int \<Rightarrow> int" where
  "InvertLowestOne n = n AND (n - 1)"

definition GetSkipHeight :: "int \<Rightarrow> int" where
  "GetSkipHeight height =
     (if height < 2 then 0
      else if height AND 1 \<noteq> 0 then InvertLowestOne (InvertLowestOne (height - 1)) + 1 else InvertLowestOne height)"

lemma InvertLowestOne_bounds: "0 < n \<Longrightarrow> 0 \<le> InvertLowestOne n \<and> InvertLowestOne n < n"
  using AND_upper2' [of "n - 1" "n - 1" n] by (auto simp: InvertLowestOne_def)

lemma GetSkipHeight_bounds: "0 < h \<Longrightarrow> 0 \<le> GetSkipHeight h \<and> GetSkipHeight h < h"
proof (cases "h < 2")
  case False
  then have 1: "0 \<le> InvertLowestOne (h - 1)" "InvertLowestOne (h - 1) < h - 1"
    using InvertLowestOne_bounds [of "h - 1"] by auto
  have 2: "0 \<le> InvertLowestOne (InvertLowestOne (h - 1)) \<and> InvertLowestOne (InvertLowestOne (h - 1)) < h - 1"
  proof (cases "InvertLowestOne (h - 1) = 0")
    case True
    then show ?thesis using False by (simp add: InvertLowestOne_def)
  next
    case F: False
    then show ?thesis using 1 InvertLowestOne_bounds [of "InvertLowestOne (h - 1)"] by linarith
  qed
  show ?thesis using False 2 InvertLowestOne_bounds [of h] by (auto simp: GetSkipHeight_def)
qed (simp add: GetSkipHeight_def)

text \<open>
  The loop of \<open>GetAncestor\<close>. It is entered with a height that is not negative, which the loop
  condition repeats here.
\<close>

function ancestor_walk :: "block_map \<Rightarrow> bytes \<Rightarrow> int \<Rightarrow> int \<Rightarrow> bytes option" where
  "ancestor_walk bm pindexWalk heightWalk height =
     (if heightWalk > height \<and> 0 \<le> height then
        do {
          i \<leftarrow> bm pindexWalk;
          let heightSkip = GetSkipHeight heightWalk;
          let heightSkipPrev = GetSkipHeight (heightWalk - 1);
          if pskip i \<noteq> None \<and> (heightSkip = height \<or>
             (heightSkip > height \<and> \<not> (heightSkipPrev < heightSkip - 2 \<and> heightSkipPrev \<ge> height)))
          then ancestor_walk bm (the (pskip i)) heightSkip height
          else do { q \<leftarrow> pprev i; ancestor_walk bm q (heightWalk - 1) height }
        }
      else Some pindexWalk)"
  by pat_completeness auto
termination
  by (relation "measure (\<lambda>(_, _, hw, _). nat hw)") (use GetSkipHeight_bounds in auto)

declare ancestor_walk.simps [simp del]

definition GetAncestor :: "block_map \<Rightarrow> bytes \<Rightarrow> int \<Rightarrow> bytes option option" where
  "GetAncestor bm this height = do {
     i \<leftarrow> bm this;
     if height > nHeight i \<or> height < 0 then Some None
     else do { p \<leftarrow> ancestor_walk bm this (nHeight i) height; Some (Some p) }
   }"

text \<open>\<open>BuildSkip\<close> on an entry that is not in the map yet: the entry with its \<open>pskip\<close> set.\<close>

definition BuildSkip :: "block_map \<Rightarrow> CBlockIndex \<Rightarrow> CBlockIndex option" where
  "BuildSkip bm i = (case pprev i of None \<Rightarrow> Some i
     | Some q \<Rightarrow> do { s \<leftarrow> GetAncestor bm q (GetSkipHeight (nHeight i)); Some (i\<lparr>pskip := s\<rparr>) })"

section \<open>Work\<close>

definition GetBlockProof :: "u32 \<Rightarrow> base_uint option" where
  "GetBlockProof bits' =
     (let (bnTarget, fNegative, fOverflow) = SetCompact bits' in
      if fNegative \<or> fOverflow \<or> EqualTo bnTarget 0 then Some (of_u64 8 0)
      else do { q \<leftarrow> div_uint (compl bnTarget) (add bnTarget (of_u64 8 1)); Some (add q (of_u64 8 1)) })"

definition GetBlockProofEquivalentTime :: "CBlockIndex \<Rightarrow> CBlockIndex \<Rightarrow> CBlockIndex \<Rightarrow> int \<Rightarrow> int option" where
  "GetBlockProofEquivalentTime to' from' tip nPowTargetSpacing =
     (let (r, sign) = (if CompareTo (nChainWork to') (nChainWork from') > 0
          then (sub (nChainWork to') (nChainWork from'), 1) else (sub (nChainWork from') (nChainWork to'), -1)) in
      do {
        p \<leftarrow> GetBlockProof (nBits tip);
        r \<leftarrow> div_uint (mul r (of_u64 8 (word_of_int nPowTargetSpacing))) p;
        Some (if bits r > 63 then sign * INT64_MAX else sign * int (unat (GetLow64 r)))
      })"

definition ComputeSecondAlgoCount :: "block_map \<Rightarrow> CBlockIndex \<Rightarrow> int \<Rightarrow> int option" where
  "ComputeSecondAlgoCount bm index nDualAlgoActivationHeight =
     (if nHeight index < nDualAlgoActivationHeight then Some 0
      else do {
        prev \<leftarrow> (case pprev index of Some q \<Rightarrow> map_option nSecondAlgoCount (bm q) | None \<Rightarrow> Some 0);
        if prev < 0 then Some (-1)
        else i64 (prev + (if idx_nVersion index AND BLOCK_VERSION_QHASH \<noteq> 0 then 1 else 0))
      })"

section \<open>Adding a header\<close>

record BlockManager =
  m_block_index :: block_map
  best_header :: "bytes option"
  m_dirty_blockindex :: "bytes set"

definition update_best_header :: "bytes option \<Rightarrow> block_map \<Rightarrow> bytes \<Rightarrow> bytes option" where
  "update_best_header best bm pindexNew = (case best of None \<Rightarrow> Some pindexNew
     | Some b \<Rightarrow> do {
         j \<leftarrow> bm b; i \<leftarrow> bm pindexNew;
         Some (if CompareTo (nChainWork j) (nChainWork i) < 0 then pindexNew else b)
       })"

definition AddToBlockIndex ::
  "(CBlockHeader \<Rightarrow> bytes) \<Rightarrow> int \<Rightarrow> CBlockHeader \<Rightarrow> BlockManager \<Rightarrow> (bytes \<times> BlockManager) option" where
  "AddToBlockIndex GetHash nDualAlgoActivationHeight block st =
     (let hash = GetHash block in
      if m_block_index st hash \<noteq> None then Some (hash, st)
      else let bm = (m_block_index st)(hash \<mapsto> CBlockIndex_of block); i = CBlockIndex_of block in
      do {
        i \<leftarrow> (case bm (hashPrevBlock block) of
            Some j \<Rightarrow> do {
              h \<leftarrow> i32 (nHeight j + 1);
              let i = i\<lparr>pprev := Some (hashPrevBlock block), nHeight := h\<rparr>;
              BuildSkip (bm(hash \<mapsto> i)) i
            }
          | None \<Rightarrow> Some i);
        prev \<leftarrow> (case pprev i of Some q \<Rightarrow> map_option Some (bm q) | None \<Rightarrow> Some None);
        let i = i\<lparr>nTimeMax := (case prev of Some j \<Rightarrow> max (nTimeMax j) (nTime i) | None \<Rightarrow> nTime i)\<rparr>;
        pw \<leftarrow> GetBlockProof (nBits i);
        let i = i\<lparr>nChainWork := add (case prev of Some j \<Rightarrow> nChainWork j | None \<Rightarrow> of_u64 8 0) pw\<rparr>;
        c \<leftarrow> ComputeSecondAlgoCount bm i nDualAlgoActivationHeight;
        let i = i\<lparr>nSecondAlgoCount := c\<rparr>;
        (_, i) \<leftarrow> RaiseValidity i BLOCK_VALID_TREE;
        let bm = bm(hash \<mapsto> i);
        best \<leftarrow> update_best_header (best_header st) bm hash;
        Some (hash, st\<lparr>m_block_index := bm, best_header := Some best,
          m_dirty_blockindex := insert hash (m_dirty_blockindex st)\<rparr>)
      })"

section \<open>The active chain\<close>

type_synonym vchain = "bytes option list"

definition Tip :: "vchain \<Rightarrow> bytes option" where
  "Tip vChain = (if length vChain > 0 then vChain ! (length vChain - 1) else None)"

definition chain_nth :: "vchain \<Rightarrow> int \<Rightarrow> bytes option" where
  "chain_nth vChain h = (if h < 0 \<or> h \<ge> int (length vChain) then None else vChain ! nat h)"

definition Height :: "vchain \<Rightarrow> int" where
  "Height vChain = int (length vChain) - 1"

definition Contains :: "block_map \<Rightarrow> vchain \<Rightarrow> bytes \<Rightarrow> bool option" where
  "Contains bm vChain pindex = do { i \<leftarrow> bm pindex; Some (chain_nth vChain (nHeight i) = Some pindex) }"

definition Next :: "block_map \<Rightarrow> vchain \<Rightarrow> bytes \<Rightarrow> bytes option option" where
  "Next bm vChain pindex = do {
     c \<leftarrow> Contains bm vChain pindex; i \<leftarrow> bm pindex;
     Some (if c then chain_nth vChain (nHeight i + 1) else None)
   }"

definition resize :: "nat \<Rightarrow> vchain \<Rightarrow> vchain" where
  "resize k v = take k v @ replicate (k - length v) None"

text \<open>The loops over \<open>pprev\<close>; one that never ends has the value \<open>None\<close>.\<close>

partial_function (option) SetTip_loop :: "block_map \<Rightarrow> bytes option \<Rightarrow> vchain \<Rightarrow> vchain option" where
  "SetTip_loop bm pindex vChain =
     (case pindex of None \<Rightarrow> Some vChain
      | Some p \<Rightarrow> do {
          i \<leftarrow> bm p;
          assertion (0 \<le> nHeight i \<and> nHeight i < int (length vChain));
          if vChain ! nat (nHeight i) = Some p then Some vChain
          else SetTip_loop bm (pprev i) (vChain[nat (nHeight i) := Some p])
        })"

definition SetTip :: "block_map \<Rightarrow> bytes \<Rightarrow> vchain \<Rightarrow> vchain option" where
  "SetTip bm block vChain = do {
     i \<leftarrow> bm block;
     SetTip_loop bm (Some block) (resize (nat (nHeight i + 1)) vChain)
   }"

partial_function (option) FindFork_loop :: "block_map \<Rightarrow> vchain \<Rightarrow> bytes option \<Rightarrow> bytes option option" where
  "FindFork_loop bm vChain pindex =
     (case pindex of None \<Rightarrow> Some None
      | Some p \<Rightarrow> do {
          c \<leftarrow> Contains bm vChain p;
          if c then Some pindex else do { i \<leftarrow> bm p; FindFork_loop bm vChain (pprev i) }
        })"

definition FindFork :: "block_map \<Rightarrow> vchain \<Rightarrow> bytes option \<Rightarrow> bytes option option" where
  "FindFork bm vChain pindex = (case pindex of None \<Rightarrow> Some None
     | Some p \<Rightarrow> do {
         i \<leftarrow> bm p;
         q \<leftarrow> (if nHeight i > Height vChain then GetAncestor bm p (Height vChain) else Some pindex);
         FindFork_loop bm vChain q
       })"

partial_function (option) common_loop :: "block_map \<Rightarrow> bytes option \<Rightarrow> bytes option \<Rightarrow> (bytes option \<times> bytes option) option" where
  "common_loop bm pa pb =
     (if pa \<noteq> pb \<and> pa \<noteq> None \<and> pb \<noteq> None then
        do { i \<leftarrow> bm (the pa); j \<leftarrow> bm (the pb); common_loop bm (pprev i) (pprev j) }
      else Some (pa, pb))"

definition LastCommonAncestor :: "block_map \<Rightarrow> bytes \<Rightarrow> bytes \<Rightarrow> bytes option option" where
  "LastCommonAncestor bm pa pb = do {
     i \<leftarrow> bm pa; j \<leftarrow> bm pb;
     (pa, pb) \<leftarrow> (if nHeight i > nHeight j then do { a \<leftarrow> GetAncestor bm pa (nHeight j); Some (a, Some pb) }
       else if nHeight j > nHeight i then do { b \<leftarrow> GetAncestor bm pb (nHeight i); Some (Some pa, b) }
       else Some (Some pa, Some pb));
     (pa, pb) \<leftarrow> common_loop bm pa pb;
     assertion (pa = pb);
     Some pa
   }"

text \<open>\<open>LocatorEntries\<close>: the hashes of the entries visited, with a step that doubles after ten.\<close>

partial_function (option) locator_loop :: "block_map \<Rightarrow> bytes option \<Rightarrow> int \<Rightarrow> bytes list \<Rightarrow> bytes list option" where
  "locator_loop bm index step have =
     (case index of None \<Rightarrow> Some have
      | Some p \<Rightarrow> do {
          i \<leftarrow> bm p;
          if nHeight i = 0 then Some (have @ [p])
          else do {
            a \<leftarrow> GetAncestor bm p (max (nHeight i - step) 0);
            s \<leftarrow> (if length (have @ [p]) > 10 then i32 (step * 2) else Some step);
            locator_loop bm a s (have @ [p])
          }
        })"

definition LocatorEntries :: "block_map \<Rightarrow> bytes option \<Rightarrow> bytes list option" where
  "LocatorEntries bm index = (if index = None then Some [] else locator_loop bm index 1 [])"

section \<open>Median time\<close>

definition nMedianTimeSpan :: nat where "nMedianTimeSpan = 11"

fun median_times :: "block_map \<Rightarrow> nat \<Rightarrow> bytes option \<Rightarrow> int list option" where
  "median_times bm 0 pindex = Some []"
| "median_times bm (Suc k) None = Some []"
| "median_times bm (Suc k) (Some p) = do { i \<leftarrow> bm p; ts \<leftarrow> median_times bm k (pprev i); Some (GetBlockTime i # ts) }"

definition GetMedianTimePast :: "block_map \<Rightarrow> bytes \<Rightarrow> int option" where
  "GetMedianTimePast bm this = do {
     ts \<leftarrow> median_times bm nMedianTimeSpan (Some this);
     Some (sort ts ! (length ts div 2))
   }"

section \<open>Following the parents\<close>

text \<open>The reference for ancestors: follow \<open>pprev\<close> a number of times.\<close>

fun parents :: "block_map \<Rightarrow> nat \<Rightarrow> bytes \<Rightarrow> bytes option" where
  "parents bm 0 p = Some p"
| "parents bm (Suc k) p = do { i \<leftarrow> bm p; q \<leftarrow> pprev i; parents bm k q }"

text \<open>
  The invariant of the index: an entry without parent has height 0, any other one is one above its
  parent, and \<open>pskip\<close> is the ancestor at \<open>GetSkipHeight\<close>.
\<close>

definition entry_ok :: "block_map \<Rightarrow> CBlockIndex \<Rightarrow> bool" where
  "entry_ok bm i \<longleftrightarrow> 0 \<le> nHeight i \<and> (case pprev i of None \<Rightarrow> nHeight i = 0 \<and> pskip i = None
     | Some q \<Rightarrow> \<exists>j. bm q = Some j \<and> nHeight i = nHeight j + 1 \<and>
         pskip i = parents bm (nat (nHeight j - GetSkipHeight (nHeight i))) q)"

definition index_ok :: "block_map \<Rightarrow> bool" where
  "index_ok bm \<longleftrightarrow> (\<forall>p i. bm p = Some i \<longrightarrow> entry_ok bm i)"

lemma index_okD: "index_ok bm \<Longrightarrow> bm p = Some i \<Longrightarrow> entry_ok bm i"
  by (simp add: index_ok_def)

lemma height_nonneg: "index_ok bm \<Longrightarrow> bm p = Some i \<Longrightarrow> 0 \<le> nHeight i"
  using index_okD by (auto simp: entry_ok_def)

lemma parent_ex:
  assumes "index_ok bm" and "bm p = Some i" and "0 < nHeight i"
  obtains q j where "pprev i = Some q" "bm q = Some j" "nHeight j = nHeight i - 1"
    "pskip i = parents bm (nat (nHeight j - GetSkipHeight (nHeight i))) q"
  using index_okD [OF assms(1,2)] assms(3) that by (cases "pprev i") (auto simp: entry_ok_def)

lemma parents_add: "parents bm (m + k) p = do { q \<leftarrow> parents bm m p; parents bm k q }"
  by (induction m arbitrary: p) (auto split: bind_splits)

lemma parents_ex:
  assumes "index_ok bm"
  shows "bm p = Some i \<Longrightarrow> int k \<le> nHeight i \<Longrightarrow> \<exists>q j. parents bm k p = Some q \<and> bm q = Some j \<and> nHeight j = nHeight i - int k"
proof (induction k arbitrary: p i)
  case (Suc k)
  have "0 < nHeight i" using Suc.prems by simp
  then obtain q j where q: "pprev i = Some q" "bm q = Some j" "nHeight j = nHeight i - 1"
    using parent_ex [OF assms Suc.prems(1)] by metis
  with Suc.IH [of q j] Suc.prems show ?case by auto
qed simp

lemma ancestor_walk_parents:
  assumes ok: "index_ok bm"
  shows "bm p = Some i \<Longrightarrow> nHeight i = hw \<Longrightarrow> 0 \<le> h \<Longrightarrow> h \<le> hw \<Longrightarrow> ancestor_walk bm p hw h = parents bm (nat (hw - h)) p"
proof (induction "nat hw" arbitrary: p i hw rule: less_induct)
  case less
  show ?case
  proof (cases "hw > h")
    case False
    with less.prems show ?thesis by (subst ancestor_walk.simps) simp
  next
    case True
    then have pos: "0 < nHeight i" "0 < hw" using less.prems by auto
    obtain q j where q: "pprev i = Some q" "bm q = Some j" "nHeight j = hw - 1"
      and sk: "pskip i = parents bm (nat (hw - 1 - GetSkipHeight hw)) q"
      using parent_ex [OF ok less.prems(1) pos(1)] less.prems(2) by metis
    let ?s = "GetSkipHeight hw"
    have sb: "0 \<le> ?s" "?s < hw" using GetSkipHeight_bounds [OF pos(2)] by auto
    have "int (nat (hw - 1 - ?s)) \<le> nHeight j" using sb q(3) by simp
    then obtain s k where s: "pskip i = Some s" "bm s = Some k" "nHeight k = ?s"
      using parents_ex [OF ok q(2)] sk q(3) sb by fastforce
    have step: "parents bm (nat (hw - h)) p = parents bm (nat (hw - 1 - h)) q"
    proof -
      have "nat (hw - h) = Suc (nat (hw - 1 - h))" using True by simp
      then show ?thesis using less.prems(1) q(1) by simp
    qed
    have down: "ancestor_walk bm q (hw - 1) h = parents bm (nat (hw - h)) p"
      unfolding step using less.hyps [of "hw - 1" q j] q True pos less.prems by simp
    have skip: "ancestor_walk bm s ?s h = parents bm (nat (hw - h)) p" if "h \<le> ?s"
    proof -
      have "nat (hw - 1 - h) = nat (hw - 1 - ?s) + nat (?s - h)" using that sb by simp
      then have "parents bm (nat (hw - h)) p = parents bm (nat (?s - h)) s"
        unfolding step using sk [symmetric] s(1) by (simp add: parents_add)
      then show ?thesis using less.hyps [of ?s s k] s sb that less.prems(3) pos by simp
    qed
    show ?thesis
      by (subst ancestor_walk.simps) (use True less.prems q(1) s(1) down skip in \<open>auto simp: Let_def\<close>)
  qed
qed

text \<open>\<open>GetAncestor\<close> is the naive walk.\<close>

lemma GetAncestor_parents:
  assumes "index_ok bm" and "bm p = Some i"
  shows "GetAncestor bm p h = Some (if 0 \<le> h \<and> h \<le> nHeight i then parents bm (nat (nHeight i - h)) p else None)"
    and "0 \<le> h \<Longrightarrow> h \<le> nHeight i \<Longrightarrow> \<exists>q j. GetAncestor bm p h = Some (Some q) \<and> bm q = Some j \<and> nHeight j = h"
proof -
  have r: "\<exists>q j. parents bm (nat (nHeight i - h)) p = Some q \<and> bm q = Some j \<and> nHeight j = h" if "0 \<le> h" "h \<le> nHeight i"
    using parents_ex [OF assms, of "nat (nHeight i - h)"] that by auto
  show g: "GetAncestor bm p h = Some (if 0 \<le> h \<and> h \<le> nHeight i then parents bm (nat (nHeight i - h)) p else None)"
  proof (cases "0 \<le> h \<and> h \<le> nHeight i")
    case True
    then have "ancestor_walk bm p (nHeight i) h = parents bm (nat (nHeight i - h)) p"
      using ancestor_walk_parents [OF assms refl] by simp
    then show ?thesis using True assms(2) r by (auto simp: GetAncestor_def)
  qed (use assms(2) in \<open>auto simp: GetAncestor_def\<close>)
  show "0 \<le> h \<Longrightarrow> h \<le> nHeight i \<Longrightarrow> \<exists>q j. GetAncestor bm p h = Some (Some q) \<and> bm q = Some j \<and> nHeight j = h"
    using r g by auto
qed

section \<open>Work\<close>

text \<open>A target that is not rejected is at least 1 and below \<open>2^256 - 1\<close>.\<close>

lemma cval_not_max:
  assumes "cval c < 2 ^ 256"
  shows "cval c + 1 < 2 ^ 256"
proof (cases "csize c \<le> 3")
  case True
  then have "cval c \<le> cword c" by (simp add: cval_def)
  then show ?thesis using cword_bound [of c] by simp
next
  case False
  then have "csize c - 3 = Suc (csize c - 4)" by simp
  then have "even (cval c)" using False by (simp add: cval_def)
  moreover have "odd ((2 :: nat) ^ 256 - 1)" by simp
  ultimately have "cval c \<noteq> 2 ^ 256 - 1" by metis
  with assms show ?thesis by linarith
qed

definition valid_target :: "u32 \<Rightarrow> bool" where
  "valid_target c \<longleftrightarrow> (case SetCompact c of (t, neg', ovf) \<Rightarrow> \<not> neg' \<and> \<not> ovf \<and> val t \<noteq> 0)"

lemma valid_target_cval:
  assumes "valid_target c"
  shows "val (fst (SetCompact c)) = cval c" and "0 < cval c" and "cval c + 1 < 2 ^ 256"
proof -
  obtain t n o' where t: "SetCompact c = (t, n, o')" by (cases "SetCompact c")
  have "\<not> o'" "val t \<noteq> 0" using assms by (simp_all add: valid_target_def t)
  then have "cval c < 2 ^ 256" using SetCompact_overflow [of c] t by simp
  then show "val (fst (SetCompact c)) = cval c" "cval c + 1 < 2 ^ 256"
    using val_SetCompact [of c] cval_not_max by simp_all
  then show "0 < cval c" using \<open>val t \<noteq> 0\<close> t by simp
qed

lemma work_quotient:
  fixes t W :: nat
  assumes "t + 1 \<le> W"
  shows "(W - 1 - t) div (t + 1) + 1 = W div (t + 1)"
proof -
  have "W = (W - 1 - t) + (t + 1)" using assms by simp
  then have "W div (t + 1) = ((W - 1 - t) + (t + 1)) div (t + 1)" by (rule arg_cong)
  also have "\<dots> = (W - 1 - t) div (t + 1) + 1" by (rule div_add_self2) simp
  finally show ?thesis by simp
qed

definition block_work :: "u32 \<Rightarrow> nat" where
  "block_work c = (if valid_target c then 2 ^ 256 div (cval c + 1) else 0)"

lemma GetBlockProof_val:
  "\<exists>r. GetBlockProof c = Some r \<and> length r = 8 \<and> val r = block_work c"
proof -
  obtain t n o' where t: "SetCompact c = (t, n, o')" by (cases "SetCompact c")
  have l: "length t = 8" using length_SetCompact [of c] t by simp
  show ?thesis
  proof (cases "valid_target c")
    case False
    then have "n \<or> o' \<or> EqualTo t 0" using l by (auto simp: valid_target_def t EqualTo_val)
    then show ?thesis using False by (simp add: GetBlockProof_def t block_work_def val_of_u64)
  next
    case True
    let ?v = "cval c"
    have v: "val t = ?v" "0 < ?v" "?v + 1 < 2 ^ 256" using valid_target_cval [OF True] t by auto
    have g: "\<not> (n \<or> o' \<or> EqualTo t 0)" using True l by (auto simp: valid_target_def t EqualTo_val)
    have a: "val (add t (of_u64 8 1)) = ?v + 1" using v l by (simp add: val_add val_of_u64)
    have cp: "val (compl t) = 2 ^ 256 - 1 - ?v" using val_compl [of t] l v(1) by simp
    obtain q where q: "div_uint (compl t) (add t (of_u64 8 1)) = Some q" "length q = 8"
      "val q = (2 ^ 256 - 1 - ?v) div (?v + 1)"
      using div_uint_val [of "compl t" "add t (of_u64 8 1)"] l a cp by auto
    have w: "val q + 1 = 2 ^ 256 div (?v + 1)" unfolding q(3) by (rule work_quotient) (use v in simp)
    have "(2 :: nat) ^ 256 div (?v + 1) \<le> 2 ^ 256 div 2" using v(2) by (intro div_le_mono2) simp_all
    then have "val q + 1 < 2 ^ 256" unfolding w by simp
    then have "val (add q (of_u64 8 1)) = block_work c" using q(2) w True by (simp add: val_add val_of_u64 block_work_def)
    then show ?thesis using g q by (simp add: GetBlockProof_def t)
  qed
qed

section \<open>Adding a header keeps the invariant\<close>

text \<open>A larger map has the same ancestors.\<close>

lemma parents_mono: "bm \<subseteq>\<^sub>m bm' \<Longrightarrow> parents bm k p = Some q \<Longrightarrow> parents bm' k p = Some q"
proof (induction k arbitrary: p)
  case (Suc k)
  then obtain i r where i: "bm p = Some i" "pprev i = Some r" "parents bm k r = Some q" by (auto simp: bind_eq_Some_conv)
  have "bm' p = Some i" using Suc.prems(1) i(1) by (auto simp: map_le_def dom_def)
  then show ?case using i Suc.IH [OF Suc.prems(1)] by simp
qed simp

lemma ancestor_walk_mono:
  "bm \<subseteq>\<^sub>m bm' \<Longrightarrow> ancestor_walk bm p hw h = Some q \<Longrightarrow> ancestor_walk bm' p hw h = Some q"
proof (induction bm p hw h rule: ancestor_walk.induct)
  case (1 bm p hw h)
  show ?case
  proof (cases "hw > h \<and> 0 \<le> h")
    case False
    have "p = q" using 1(4) False by (subst (asm) ancestor_walk.simps) (simp only: if_False option.inject)
    then show ?thesis using False by (subst ancestor_walk.simps) (simp only: if_False)
  next
    case True
    let ?c = "\<lambda>i. pskip i \<noteq> None \<and> (GetSkipHeight hw = h \<or>
      (GetSkipHeight hw > h \<and> \<not> (GetSkipHeight (hw - 1) < GetSkipHeight hw - 2 \<and> GetSkipHeight (hw - 1) \<ge> h)))"
    have w: "bm p \<bind> (\<lambda>i. if ?c i then ancestor_walk bm (the (pskip i)) (GetSkipHeight hw) h
        else pprev i \<bind> (\<lambda>r. ancestor_walk bm r (hw - 1) h)) = Some q"
      using 1(4) True by (subst (asm) ancestor_walk.simps) (simp add: Let_def)
    then obtain i where i: "bm p = Some i" by (auto simp: bind_eq_Some_conv)
    then have i': "bm' p = Some i" using 1(3) by (auto simp: map_le_def dom_def)
    show ?thesis
    proof (cases "?c i")
      case c: True
      then have "ancestor_walk bm' (the (pskip i)) (GetSkipHeight hw) h = Some q"
        using w i 1(1) [OF True i refl refl c 1(3)] by simp
      then show ?thesis by (subst ancestor_walk.simps) (use True i' c in \<open>simp add: Let_def\<close>)
    next
      case c: False
      have "pprev i \<bind> (\<lambda>r. ancestor_walk bm r (hw - 1) h) = Some q"
        using w by (simp only: i Option.bind.simps c if_False)
      then obtain r where r: "pprev i = Some r" "ancestor_walk bm r (hw - 1) h = Some q"
        by (auto simp: bind_eq_Some_conv)
      then have "ancestor_walk bm' r (hw - 1) h = Some q" using 1(2) [OF True i refl refl c r(1) 1(3)] by simp
      then show ?thesis by (subst ancestor_walk.simps) (use True i' c r(1) in \<open>auto simp: Let_def\<close>)
    qed
  qed
qed

lemma map_le_upd: "p \<notin> dom bm \<Longrightarrow> bm \<subseteq>\<^sub>m bm(p \<mapsto> i)"
  by (auto simp: map_le_def)

lemma map_le_Some: "bm \<subseteq>\<^sub>m bm' \<Longrightarrow> bm p = Some i \<Longrightarrow> bm' p = Some i"
  by (auto simp: map_le_def dom_def)

lemma GetAncestor_mono:
  assumes "index_ok bm" and "bm \<subseteq>\<^sub>m bm'" and "bm p = Some i" and "0 \<le> h" and "h \<le> nHeight i"
  shows "GetAncestor bm' p h = Some (parents bm (nat (nHeight i - h)) p)"
proof -
  have "GetAncestor bm p h = Some (parents bm (nat (nHeight i - h)) p)"
    using GetAncestor_parents(1) [OF assms(1,3), of h] assms(4,5) by simp
  moreover obtain q where "ancestor_walk bm p (nHeight i) h = Some q"
    using GetAncestor_parents(2) [OF assms(1,3,4,5)] assms(3-5) by (auto simp: GetAncestor_def bind_eq_Some_conv)
  moreover from this have "ancestor_walk bm' p (nHeight i) h = Some q" by (rule ancestor_walk_mono [OF assms(2)])
  ultimately show ?thesis using assms(3-5) map_le_Some [OF assms(2,3)]
    by (cases "parents bm (nat (nHeight i - h)) p") (auto simp: GetAncestor_def)
qed

lemma entry_ok_mono:
  assumes "index_ok bm" and "bm \<subseteq>\<^sub>m bm'" and "entry_ok bm i"
  shows "entry_ok bm' i"
proof (cases "pprev i")
  case None
  then show ?thesis using assms(3) by (simp add: entry_ok_def)
next
  case (Some q)
  then obtain j where j: "bm q = Some j" "nHeight i = nHeight j + 1" "0 \<le> nHeight i"
    "pskip i = parents bm (nat (nHeight j - GetSkipHeight (nHeight i))) q" using assms(3) by (auto simp: entry_ok_def)
  have "0 \<le> nHeight j" using height_nonneg [OF assms(1) j(1)] .
  then have "int (nat (nHeight j - GetSkipHeight (nHeight i))) \<le> nHeight j"
    using GetSkipHeight_bounds [of "nHeight i"] j(2) by simp
  then obtain r where r: "parents bm (nat (nHeight j - GetSkipHeight (nHeight i))) q = Some r"
    using parents_ex [OF assms(1) j(1)] by blast
  then show ?thesis using Some j map_le_Some [OF assms(2) j(1)] parents_mono [OF assms(2) r] by (simp add: entry_ok_def)
qed

lemma index_ok_add:
  assumes "index_ok bm" and "p \<notin> dom bm" and "entry_ok bm i"
  shows "index_ok (bm(p \<mapsto> i))"
  unfolding index_ok_def
proof (intro allI impI)
  fix q j assume "(bm(p \<mapsto> i)) q = Some j"
  then have "entry_ok bm j" using assms index_okD by (auto split: if_splits)
  then show "entry_ok (bm(p \<mapsto> i)) j" by (rule entry_ok_mono [OF assms(1) map_le_upd [OF assms(2)]])
qed

text \<open>
  The cumulative fields of an entry, in terms of its parent: work, second-algorithm count and
  largest time.
\<close>

definition prev_entry :: "block_map \<Rightarrow> CBlockIndex \<Rightarrow> CBlockIndex option" where
  "prev_entry bm i = (case pprev i of None \<Rightarrow> None | Some q \<Rightarrow> bm q)"

definition second_algo :: "CBlockIndex \<Rightarrow> bool" where
  "second_algo i \<longleftrightarrow> idx_nVersion i AND BLOCK_VERSION_QHASH \<noteq> 0"

definition totals_ok :: "int \<Rightarrow> block_map \<Rightarrow> CBlockIndex \<Rightarrow> bool" where
  "totals_ok act bm i \<longleftrightarrow> length (nChainWork i) = 8 \<and>
     val (nChainWork i) = ((case prev_entry bm i of None \<Rightarrow> 0 | Some j \<Rightarrow> val (nChainWork j)) + block_work (nBits i)) mod 2 ^ 256 \<and>
     nTimeMax i = (case prev_entry bm i of None \<Rightarrow> nTime i | Some j \<Rightarrow> max (nTimeMax j) (nTime i)) \<and>
     nSecondAlgoCount i = (if nHeight i < act then 0
       else (case prev_entry bm i of None \<Rightarrow> 0 | Some j \<Rightarrow> nSecondAlgoCount j) + (if second_algo i then 1 else 0)) \<and>
     0 \<le> nSecondAlgoCount i \<and> nSecondAlgoCount i \<le> nHeight i + 1"

definition manager_ok :: "int \<Rightarrow> BlockManager \<Rightarrow> bool" where
  "manager_ok act st \<longleftrightarrow> index_ok (m_block_index st) \<and>
     (\<forall>p i. m_block_index st p = Some i \<longrightarrow> totals_ok act (m_block_index st) i) \<and>
     (case best_header st of None \<Rightarrow> m_block_index st = Map.empty
      | Some b \<Rightarrow> \<exists>j. m_block_index st b = Some j \<and>
          (\<forall>p i. m_block_index st p = Some i \<longrightarrow> val (nChainWork i) \<le> val (nChainWork j)))"

lemma RaiseValidity_new: "nStatus i = 0 \<Longrightarrow> RaiseValidity i BLOCK_VALID_TREE = Some (True, i\<lparr>nStatus := 2\<rparr>)"
  by (simp add: RaiseValidity_def BLOCK_VALID_TREE_def BLOCK_VALID_MASK_def BLOCK_VALID_SCRIPTS_def BLOCK_ASSUMED_VALID_def)

text \<open>The links of the new entry.\<close>

definition linked :: "block_map \<Rightarrow> CBlockHeader \<Rightarrow> CBlockIndex" where
  "linked bm block = (case bm (hashPrevBlock block) of None \<Rightarrow> CBlockIndex_of block
     | Some j \<Rightarrow> (CBlockIndex_of block)\<lparr>pprev := Some (hashPrevBlock block), nHeight := nHeight j + 1,
         pskip := parents bm (nat (nHeight j - GetSkipHeight (nHeight j + 1))) (hashPrevBlock block)\<rparr>)"

definition height_room :: "block_map \<Rightarrow> CBlockHeader \<Rightarrow> bool" where
  "height_room bm block \<longleftrightarrow> (\<forall>j. bm (hashPrevBlock block) = Some j \<longrightarrow> nHeight j < INT32_MAX)"

lemma linked_ok: "index_ok bm \<Longrightarrow> entry_ok bm (linked bm block)"
  using height_nonneg [of bm "hashPrevBlock block"]
  by (auto simp: linked_def entry_ok_def CBlockIndex_of_def split: option.splits)

lemma linked_run:
  assumes ok: "index_ok bm" and new: "hash \<notin> dom bm" "hash \<noteq> hashPrevBlock block" and room: "height_room bm block"
  defines "bm1 \<equiv> bm(hash \<mapsto> CBlockIndex_of block)"
  shows "(case bm1 (hashPrevBlock block) of
      Some j \<Rightarrow> do {
        h \<leftarrow> i32 (nHeight j + 1);
        let i = (CBlockIndex_of block)\<lparr>pprev := Some (hashPrevBlock block), nHeight := h\<rparr>;
        BuildSkip (bm1(hash \<mapsto> i)) i
      }
    | None \<Rightarrow> Some (CBlockIndex_of block)) = Some (linked bm block)"
proof (cases "bm (hashPrevBlock block)")
  case None
  then show ?thesis using new by (simp add: bm1_def linked_def)
next
  case (Some j)
  let ?i = "(CBlockIndex_of block)\<lparr>pprev := Some (hashPrevBlock block), nHeight := nHeight j + 1\<rparr>"
  have j: "0 \<le> nHeight j" "nHeight j < INT32_MAX" using height_nonneg [OF ok Some] room Some by (auto simp: height_room_def)
  then have s: "0 \<le> GetSkipHeight (nHeight j + 1)" "GetSkipHeight (nHeight j + 1) \<le> nHeight j"
    using GetSkipHeight_bounds [of "nHeight j + 1"] by auto
  have "bm \<subseteq>\<^sub>m bm1(hash \<mapsto> ?i)" using new(1) by (auto simp: map_le_def bm1_def)
  then have "GetAncestor (bm1(hash \<mapsto> ?i)) (hashPrevBlock block) (GetSkipHeight (nHeight j + 1)) =
      Some (parents bm (nat (nHeight j - GetSkipHeight (nHeight j + 1))) (hashPrevBlock block))"
    by (rule GetAncestor_mono [OF ok _ Some s])
  then show ?thesis using Some new j by (simp add: bm1_def linked_def BuildSkip_def Let_def int_limits CBlockIndex_of_def)
qed

lemma linked_simps [simp]:
  "nStatus (linked bm block) = 0" "nBits (linked bm block) = hdr_nBits block" "nTime (linked bm block) = hdr_nTime block"
  "idx_nVersion (linked bm block) = hdr_nVersion block"
  by (simp_all add: linked_def CBlockIndex_of_def split: option.splits)

lemma prev_linked: "prev_entry bm (linked bm block) = bm (hashPrevBlock block)"
  by (auto simp: prev_entry_def linked_def CBlockIndex_of_def split: option.splits)

definition count_of :: "int \<Rightarrow> block_map \<Rightarrow> CBlockIndex \<Rightarrow> int" where
  "count_of act bm i = (if nHeight i < act then 0
     else (case prev_entry bm i of None \<Rightarrow> 0 | Some j \<Rightarrow> nSecondAlgoCount j) + (if second_algo i then 1 else 0))"

text \<open>The entry as it is stored.\<close>

definition stored :: "int \<Rightarrow> block_map \<Rightarrow> CBlockHeader \<Rightarrow> base_uint \<Rightarrow> CBlockIndex" where
  "stored act bm block work = (let i = linked bm block; prev = bm (hashPrevBlock block) in
     i\<lparr>nTimeMax := (case prev of Some j \<Rightarrow> max (nTimeMax j) (nTime i) | None \<Rightarrow> nTime i),
       nChainWork := add (case prev of Some j \<Rightarrow> nChainWork j | None \<Rightarrow> of_u64 8 0) work,
       nSecondAlgoCount := count_of act bm i, nStatus := 2\<rparr>)"

lemma count_bound:
  assumes "entry_ok bm i" and "\<And>j. prev_entry bm i = Some j \<Longrightarrow> totals_ok act bm j"
  shows "0 \<le> count_of act bm i" and "count_of act bm i \<le> nHeight i + 1"
proof -
  have h: "0 \<le> nHeight i" "\<And>j. prev_entry bm i = Some j \<Longrightarrow> nHeight i = nHeight j + 1"
    using assms(1) by (auto simp: entry_ok_def prev_entry_def split: option.splits)
  show "0 \<le> count_of act bm i" "count_of act bm i \<le> nHeight i + 1"
    using h assms(2) by (auto simp: count_of_def totals_ok_def split: option.splits)
qed

lemma count_run:
  assumes "index_ok bm" and "hash \<notin> dom bm" and "entry_ok bm i" and "nHeight i < INT32_MAX + 1"
    and "\<And>p j. bm p = Some j \<Longrightarrow> totals_ok act bm j"
  shows "ComputeSecondAlgoCount (bm(hash \<mapsto> x)) (i\<lparr>nTimeMax := a, nChainWork := b\<rparr>) act = Some (count_of act bm i)"
proof -
  have q: "q \<noteq> hash" if "pprev i = Some q" for q using that assms(2,3) by (auto simp: entry_ok_def)
  have t: "totals_ok act bm j" if "prev_entry bm i = Some j" for j
    using that assms(5) by (auto simp: prev_entry_def split: option.splits)
  have "0 \<le> count_of act bm i" "count_of act bm i \<le> nHeight i + 1"
    using count_bound [OF assms(3) t] by auto
  then have c: "i64 (count_of act bm i) = Some (count_of act bm i)" using assms(4) by (simp add: int_limits)
  show ?thesis
  proof (cases "pprev i")
    case None
    then show ?thesis using c by (auto simp: ComputeSecondAlgoCount_def count_of_def prev_entry_def second_algo_def)
  next
    case (Some r)
    then obtain j where j: "bm r = Some j" using assms(3) by (auto simp: entry_ok_def)
    have "totals_ok act bm j" by (rule assms(5) [OF j])
    then have "0 \<le> nSecondAlgoCount j" unfolding totals_ok_def by blast
    then show ?thesis using Some j q [OF Some] c by (auto simp: ComputeSecondAlgoCount_def count_of_def prev_entry_def second_algo_def)
  qed
qed

lemma linked_height: "index_ok bm \<Longrightarrow> height_room bm block \<Longrightarrow> nHeight (linked bm block) \<le> INT32_MAX"
  by (auto simp: linked_def CBlockIndex_of_def height_room_def int_limits split: option.splits)

lemma AddToBlockIndex_run:
  assumes ok: "manager_ok act st" and new: "m_block_index st (GetHash block) = None" "GetHash block \<noteq> hashPrevBlock block"
    and room: "height_room (m_block_index st) block"
  shows "\<exists>work best. length work = 8 \<and> val work = block_work (hdr_nBits block) \<and>
    AddToBlockIndex GetHash act block st = Some (GetHash block, st\<lparr>
      m_block_index := (m_block_index st)(GetHash block \<mapsto> stored act (m_block_index st) block work),
      best_header := Some best, m_dirty_blockindex := insert (GetHash block) (m_dirty_blockindex st)\<rparr>) \<and>
    best = (case best_header st of None \<Rightarrow> GetHash block | Some b \<Rightarrow>
      if CompareTo (nChainWork (the (m_block_index st b))) (nChainWork (stored act (m_block_index st) block work)) < 0
      then GetHash block else b)"
proof -
  let ?bm = "m_block_index st" and ?h = "GetHash block"
  let ?i = "linked ?bm block" and ?prev = "?bm (hashPrevBlock block)"
  have iok: "index_ok ?bm" and tok: "\<And>p j. ?bm p = Some j \<Longrightarrow> totals_ok act ?bm j" using ok by (auto simp: manager_ok_def)
  have nd: "?h \<notin> dom ?bm" using new(1) by auto
  obtain work where w: "GetBlockProof (hdr_nBits block) = Some work" "length work = 8" "val work = block_work (hdr_nBits block)"
    using GetBlockProof_val by blast
  note link = linked_run [OF iok nd new(2) room]
  have prev: "(case pprev ?i of Some q \<Rightarrow> map_option Some ((?bm(?h \<mapsto> CBlockIndex_of block)) q) | None \<Rightarrow> Some None) = Some ?prev"
    using new by (auto simp: linked_def CBlockIndex_of_def split: option.splits)
  have cnt: "ComputeSecondAlgoCount (?bm(?h \<mapsto> CBlockIndex_of block)) (?i\<lparr>nTimeMax := a, nChainWork := b\<rparr>) act = Some (count_of act ?bm ?i)"
    for a b by (rule count_run [OF iok nd linked_ok [OF iok]]) (use linked_height [OF iok room] tok in auto)
  have best: "update_best_header (best_header st) (?bm(?h \<mapsto> x)) ?h =
      Some (case best_header st of None \<Rightarrow> ?h | Some b \<Rightarrow> if CompareTo (nChainWork (the (?bm b))) (nChainWork x) < 0 then ?h else b)" for x
    using ok new by (auto simp: update_best_header_def manager_ok_def split: option.splits)
  show ?thesis
    unfolding stored_def Let_def using w link prev cnt new(1)
    by (intro exI [of _ work]) (simp add: AddToBlockIndex_def Let_def RaiseValidity_new best)
qed

text \<open>The totals of an entry survive new entries, and the new entry has them.\<close>

lemma prev_entry_add:
  assumes "entry_ok bm i" and "p \<notin> dom bm"
  shows "prev_entry (bm(p \<mapsto> x)) i = prev_entry bm i"
  using assms by (auto simp: prev_entry_def entry_ok_def split: option.splits)

lemma totals_ok_add: "entry_ok bm i \<Longrightarrow> p \<notin> dom bm \<Longrightarrow> totals_ok act bm i \<Longrightarrow> totals_ok act (bm(p \<mapsto> x)) i"
  by (unfold totals_ok_def prev_entry_add) assumption

lemma stored_simps [simp]:
  "pprev (stored act bm block work) = pprev (linked bm block)" "pskip (stored act bm block work) = pskip (linked bm block)"
  "nHeight (stored act bm block work) = nHeight (linked bm block)" "nBits (stored act bm block work) = hdr_nBits block"
  "nTime (stored act bm block work) = hdr_nTime block" "idx_nVersion (stored act bm block work) = hdr_nVersion block"
  "nSecondAlgoCount (stored act bm block work) = count_of act bm (linked bm block)"
  "nTimeMax (stored act bm block work) = (case bm (hashPrevBlock block) of Some j \<Rightarrow> max (nTimeMax j) (hdr_nTime block) | None \<Rightarrow> hdr_nTime block)"
  "nChainWork (stored act bm block work) = add (case bm (hashPrevBlock block) of Some j \<Rightarrow> nChainWork j | None \<Rightarrow> of_u64 8 0) work"
  by (simp_all add: stored_def Let_def split: option.split)

lemma entry_ok_stored: "index_ok bm \<Longrightarrow> entry_ok bm (stored act bm block work)"
  using linked_ok [of bm block] unfolding entry_ok_def stored_simps by blast

lemma prev_stored: "prev_entry bm (stored act bm block work) = bm (hashPrevBlock block)"
  using prev_linked [of bm block] by (simp add: prev_entry_def)

lemma stored_totals:
  assumes ok: "index_ok bm" "\<And>p j. bm p = Some j \<Longrightarrow> totals_ok act bm j"
    and w: "length work = 8" "val work = block_work (hdr_nBits block)"
  shows "totals_ok act bm (stored act bm block work)"
proof -
  let ?p = "bm (hashPrevBlock block)"
  have l: "length (case ?p of Some j \<Rightarrow> nChainWork j | None \<Rightarrow> of_u64 8 0) = 8"
    using ok(2) by (auto simp: totals_ok_def split: option.splits)
  have v: "val (case ?p of Some j \<Rightarrow> nChainWork j | None \<Rightarrow> of_u64 8 0) = (case ?p of None \<Rightarrow> 0 | Some j \<Rightarrow> val (nChainWork j))"
    using val_of_u64 [of 8 0] by (simp split: option.splits)
  have c: "0 \<le> count_of act bm (linked bm block)" "count_of act bm (linked bm block) \<le> nHeight (linked bm block) + 1"
    using count_bound [where act = act, OF linked_ok [OF ok(1), of block]] ok(2) by (auto simp: prev_linked)
  have s: "second_algo (stored act bm block work) = second_algo (linked bm block)" by (simp add: second_algo_def)
  show ?thesis unfolding totals_ok_def prev_stored stored_simps s
    using l v w c by (simp add: count_of_def prev_linked max.commute val_add split: option.splits)
qed

text \<open>The header with most work is kept as the best one.\<close>

lemma best_max:
  assumes "\<And>b. best_header st = Some b \<Longrightarrow> \<exists>j. m_block_index st b = Some j \<and>
      (\<forall>q i. m_block_index st q = Some i \<longrightarrow> val (nChainWork i) \<le> val (nChainWork j))"
    and "best_header st = None \<Longrightarrow> m_block_index st = Map.empty"
    and "h \<notin> dom (m_block_index st)" and "length (nChainWork x) = 8"
    and "\<And>q i. m_block_index st q = Some i \<Longrightarrow> length (nChainWork i) = 8"
    and "best = (case best_header st of None \<Rightarrow> h | Some b \<Rightarrow>
      if CompareTo (nChainWork (the (m_block_index st b))) (nChainWork x) < 0 then h else b)"
  shows "\<exists>j. ((m_block_index st)(h \<mapsto> x)) best = Some j \<and>
      (\<forall>q i. ((m_block_index st)(h \<mapsto> x)) q = Some i \<longrightarrow> val (nChainWork i) \<le> val (nChainWork j))"
proof (cases "best_header st")
  case None
  then show ?thesis using assms(2,6) by auto
next
  case (Some b)
  then obtain j where j: "m_block_index st b = Some j"
    "\<And>q i. m_block_index st q = Some i \<Longrightarrow> val (nChainWork i) \<le> val (nChainWork j)" using assms(1) by blast
  have "b \<noteq> h" using j(1) assms(3) by auto
  moreover have "CompareTo (nChainWork j) (nChainWork x) < 0 \<longleftrightarrow> val (nChainWork j) < val (nChainWork x)"
    using CompareTo_val [of "nChainWork j" "nChainWork x"] assms(4,5) j(1) by auto
  ultimately show ?thesis using Some j assms(6) by (fastforce dest: j(2))
qed

lemma manager_ok_add:
  assumes ok: "manager_ok act st" and new: "m_block_index st (GetHash block) = None" "GetHash block \<noteq> hashPrevBlock block"
    and room: "height_room (m_block_index st) block" and run: "AddToBlockIndex GetHash act block st = Some (p, st')"
  shows "manager_ok act st'"
proof -
  let ?bm = "m_block_index st" and ?h = "GetHash block"
  obtain work best where w: "length work = 8" "val work = block_work (hdr_nBits block)"
    and st': "st' = st\<lparr>m_block_index := ?bm(?h \<mapsto> stored act ?bm block work), best_header := Some best,
      m_dirty_blockindex := insert ?h (m_dirty_blockindex st)\<rparr>"
    and best: "best = (case best_header st of None \<Rightarrow> ?h | Some b \<Rightarrow>
      if CompareTo (nChainWork (the (?bm b))) (nChainWork (stored act ?bm block work)) < 0 then ?h else b)"
    using AddToBlockIndex_run [where GetHash = GetHash, OF ok new room] run by auto
  let ?s = "stored act ?bm block work"
  have iok: "index_ok ?bm" and tok: "\<And>p j. ?bm p = Some j \<Longrightarrow> totals_ok act ?bm j" using ok by (auto simp: manager_ok_def)
  have nd: "?h \<notin> dom ?bm" using new(1) by auto
  have ts: "totals_ok act ?bm ?s" by (rule stored_totals [OF iok tok w])
  have 1: "index_ok (?bm(?h \<mapsto> ?s))" by (rule index_ok_add [OF iok nd entry_ok_stored [OF iok]])
  have 2: "totals_ok act (?bm(?h \<mapsto> ?s)) i" if "(?bm(?h \<mapsto> ?s)) q = Some i" for q i
    using that totals_ok_add [OF entry_ok_stored [OF iok] nd ts] totals_ok_add [OF index_okD [OF iok] nd tok]
    by (auto split: if_splits)
  have len: "length (nChainWork i) = 8" if "totals_ok act ?bm i" for i using that by (simp add: totals_ok_def)
  have 3: "\<exists>j. (?bm(?h \<mapsto> ?s)) best = Some j \<and>
      (\<forall>q i. (?bm(?h \<mapsto> ?s)) q = Some i \<longrightarrow> val (nChainWork i) \<le> val (nChainWork j))"
    by (rule best_max [OF _ _ nd len [OF ts] len [OF tok] best])
      (use ok in \<open>auto simp: manager_ok_def split: option.splits\<close>)
  show ?thesis using 1 2 3 unfolding manager_ok_def st' by simp
qed

end
