(* ===== verification/Pow.thy ===== *)
theory Pow
  imports Asert Chain
begin

text \<open>
  The difficulty rules of \<open>pow.cpp\<close>: the ASERT schedule, the two schedules of the dual-algorithm rule,
  the legacy retarget and the presync check. \<open>None\<close> is a failed assertion, a null dereference, a signed
  overflow, a division by zero or an exception. The flag \<open>g_isRandomX\<close> is an argument.
\<close>

unbundle bit_operations_syntax

section \<open>Parameters\<close>

record ASERTAnchor =
  anchor_nHeight :: int
  anchor_nBits :: u32
  anchor_nPrevBlockTime :: int

record Params =
  powLimit :: bytes
  fPowAllowMinDifficultyBlocks :: bool
  fPowNoRetargeting :: bool
  nPowTargetSpacing :: int
  nPowTargetTimespan :: int
  fPowRandomX :: bool
  nRandomXEpochDuration :: u32
  nDualAlgoActivationHeight :: int
  nDualAlgoTargetSpacing :: int
  fDualAlgoEtchash :: bool
  nEtchashEpochLength :: int
  nEtchashBigEndianHeight :: int
  nASERTActivationHeight :: int
  nASERTHalfLife :: int
  asertAnchorParams :: "ASERTAnchor option"

definition DifficultyAdjustmentInterval :: "Params \<Rightarrow> int option" where
  "DifficultyAdjustmentInterval params =
     (if nPowTargetSpacing params = 0 then None else i64 (nPowTargetTimespan params sdiv nPowTargetSpacing params))"

definition rem64 :: "int \<Rightarrow> int \<Rightarrow> int option" where
  "rem64 x y = (if y = 0 then None else Some (x smod y))"

definition to_int32 :: "int \<Rightarrow> int" where
  "to_int32 x = sint (word_of_int x :: 32 word)"

definition hdr_GetBlockTime :: "CBlockHeader \<Rightarrow> int" where
  "hdr_GetBlockTime h = int (unat (hdr_nTime h))"

text \<open>Whether the header comes more than two spacings after its parent.\<close>

definition late_block :: "Params \<Rightarrow> CBlockIndex \<Rightarrow> CBlockHeader \<Rightarrow> bool option" where
  "late_block params i pblock = do {
     two \<leftarrow> i64 (2 * nPowTargetSpacing params);
     limit \<leftarrow> i64 (GetBlockTime i + two);
     Some (hdr_GetBlockTime pblock > limit)
   }"

section \<open>ASERT\<close>

definition GetNextASERTWorkRequired_at :: "CBlockIndex \<Rightarrow> CBlockHeader option \<Rightarrow> Params \<Rightarrow> ASERTAnchor \<Rightarrow> u32 option" where
  "GetNextASERTWorkRequired_at pindexPrev pblock params anchorParams = do {
     assertion (nHeight pindexPrev \<ge> anchor_nHeight anchorParams);
     special \<leftarrow> (if fPowAllowMinDifficultyBlocks params then Option.bind pblock (late_block params pindexPrev) else Some False);
     if special then GetCompact (UintToArith256 (powLimit params)) False
     else do {
       let limit = UintToArith256 (powLimit params);
       let refBlockTarget = fst (SetCompact (anchor_nBits anchorParams));
       nTimeDiff \<leftarrow> i64 (GetBlockTime pindexPrev - anchor_nPrevBlockTime anchorParams);
       nHeightDiff \<leftarrow> i32 (nHeight pindexPrev - anchor_nHeight anchorParams);
       nextTarget \<leftarrow> CalculateASERT refBlockTarget (nPowTargetSpacing params) nTimeDiff nHeightDiff limit (nASERTHalfLife params);
       GetCompact nextTarget False
     }
   }"

definition GetNextASERTWorkRequired ::
  "block_map \<Rightarrow> CBlockIndex \<Rightarrow> CBlockHeader option \<Rightarrow> Params \<Rightarrow> CBlockIndex option \<Rightarrow> u32 option" where
  "GetNextASERTWorkRequired bm pindexPrev pblock params pindexAnchorBlock = (case asertAnchorParams params of
     Some a \<Rightarrow> GetNextASERTWorkRequired_at pindexPrev pblock params a
   | None \<Rightarrow> do {
       anchor \<leftarrow> pindexAnchorBlock;
       anchorTime \<leftarrow> (case pprev anchor of Some q \<Rightarrow> map_option GetBlockTime (bm q) | None \<Rightarrow> Some (GetBlockTime anchor));
       GetNextASERTWorkRequired_at pindexPrev pblock params
         \<lparr>anchor_nHeight = nHeight anchor, anchor_nBits = nBits anchor, anchor_nPrevBlockTime = anchorTime\<rparr>
     })"

section \<open>Two algorithms\<close>

text \<open>The walk that counts the blocks of the second algorithm when no count is stored.\<close>

partial_function (option) count_walk :: "block_map \<Rightarrow> int \<Rightarrow> bytes option \<Rightarrow> int \<Rightarrow> int option" where
  "count_walk bm nActHeight p nQhashCount = (case p of None \<Rightarrow> Some nQhashCount
     | Some q \<Rightarrow> do {
         i \<leftarrow> bm q;
         if nHeight i \<ge> nActHeight
         then do {
           c \<leftarrow> (if idx_nVersion i AND BLOCK_VERSION_QHASH \<noteq> 0 then i64 (nQhashCount + 1) else Some nQhashCount);
           count_walk bm nActHeight (pprev i) c
         }
         else Some nQhashCount
       })"

declare count_walk.simps [code]

definition dual_ref_target :: "u32 \<Rightarrow> base_uint \<Rightarrow> base_uint" where
  "dual_ref_target nbits limit =
     (let t0 = shr (fst (SetCompact nbits)) 1;
          t1 = (if EqualTo t0 0 then of_u64 8 1 else t0)
      in if CompareTo t1 limit > 0 then limit else t1)"

definition GetDualAlgoWorkRequired :: "block_map \<Rightarrow> bytes \<Rightarrow> CBlockHeader option \<Rightarrow> Params \<Rightarrow> bool \<Rightarrow> u32 option" where
  "GetDualAlgoWorkRequired bm pindexLast pblock params fQhash = do {
     i \<leftarrow> bm pindexLast;
     let nActHeight = nDualAlgoActivationHeight params;
     let limit = UintToArith256 (powLimit params);
     assertion (nActHeight > 0);
     anchor \<leftarrow> GetAncestor bm pindexLast (nActHeight - 1);
     (case anchor of None \<Rightarrow> GetCompact limit False
      | Some a \<Rightarrow> do {
          pindexAnchor \<leftarrow> bm a;
          let refTarget = dual_ref_target (nBits pindexAnchor) limit;
          if fPowNoRetargeting params then GetCompact refTarget False
          else do {
            special \<leftarrow> (if fPowAllowMinDifficultyBlocks params
              then (case pblock of Some b \<Rightarrow> late_block params i b | None \<Rightarrow> Some False) else Some False);
            if special then GetCompact limit False
            else do {
              nQhashCount \<leftarrow> (if nSecondAlgoCount i < 0 then count_walk bm nActHeight (Some pindexLast) 0 else Some (nSecondAlgoCount i));
              nTotal \<leftarrow> i32 (nHeight i - (nActHeight - 1));
              nHeightDiff \<leftarrow> (if fQhash then Some nQhashCount else i64 (nTotal - nQhashCount));
              nTimeDiff \<leftarrow> i64 (GetBlockTime i - GetBlockTime pindexAnchor);
              nextTarget \<leftarrow> CalculateASERT refTarget (nDualAlgoTargetSpacing params) nTimeDiff nHeightDiff limit (nASERTHalfLife params);
              GetCompact nextTarget False
            }
          }
        })
   }"

section \<open>The legacy retarget\<close>

text \<open>
  The factor \<open>nActualTimespan\<close> is converted to \<open>uint32_t\<close> by the overload of \<open>*=\<close>, the divisor to \<open>uint64_t\<close>.
\<close>

definition scale_target :: "base_uint \<Rightarrow> int \<Rightarrow> int \<Rightarrow> base_uint \<Rightarrow> base_uint option" where
  "scale_target bnNew num den limit = do {
     bnNew512 \<leftarrow> div_uint (mul32 (from_width 16 bnNew) (word_of_int num)) (of_u64 16 (word_of_int den));
     Some (if CompareTo bnNew512 (from_width 16 limit) > 0 then limit else from_width 8 bnNew512)
   }"

definition CalculateNextWorkRequired :: "CBlockIndex \<Rightarrow> int \<Rightarrow> Params \<Rightarrow> u32 option" where
  "CalculateNextWorkRequired pindexLast nFirstBlockTime params =
     (if fPowNoRetargeting params then Some (nBits pindexLast)
      else do {
        actual \<leftarrow> i64 (GetBlockTime pindexLast - nFirstBlockTime);
        let actual = (if actual < nPowTargetTimespan params sdiv 4 then nPowTargetTimespan params sdiv 4 else actual);
        most \<leftarrow> i64 (nPowTargetTimespan params * 4);
        let actual = (if actual > most then most else actual);
        bnNew \<leftarrow> scale_target (fst (SetCompact (nBits pindexLast))) actual (nPowTargetTimespan params) (UintToArith256 (powLimit params));
        GetCompact bnNew False
      })"

text \<open>The walk back over blocks of minimum difficulty.\<close>

partial_function (option) last_regular :: "block_map \<Rightarrow> int \<Rightarrow> u32 \<Rightarrow> bytes \<Rightarrow> u32 option" where
  "last_regular bm interval nProofOfWorkLimit pindex = do {
     i \<leftarrow> bm pindex;
     m \<leftarrow> (if pprev i = None then Some 0 else rem64 (nHeight i) interval);
     (case pprev i of
        Some q \<Rightarrow> if m \<noteq> 0 \<and> nBits i = nProofOfWorkLimit then last_regular bm interval nProofOfWorkLimit q else Some (nBits i)
      | None \<Rightarrow> Some (nBits i))
   }"

declare last_regular.simps [code]

definition GetNextWorkRequired :: "bool \<Rightarrow> block_map \<Rightarrow> bytes \<Rightarrow> CBlockHeader option \<Rightarrow> Params \<Rightarrow> u32 option" where
  "GetNextWorkRequired g_isRandomX bm pindexLast pblock params = do {
     i \<leftarrow> bm pindexLast;
     next \<leftarrow> i32 (nHeight i + 1);
     if next \<ge> nDualAlgoActivationHeight params
     then GetDualAlgoWorkRequired bm pindexLast pblock params
            (case pblock of Some b \<Rightarrow> hdr_nVersion b AND BLOCK_VERSION_QHASH \<noteq> 0 | None \<Rightarrow> False)
     else do {
       nProofOfWorkLimit \<leftarrow> GetCompact (UintToArith256 (powLimit params)) False;
       (case (case asertAnchorParams params of Some a \<Rightarrow> if next \<ge> nASERTActivationHeight params then Some a else None | None \<Rightarrow> None) of
          Some a \<Rightarrow> GetNextASERTWorkRequired_at i pblock params a
        | None \<Rightarrow> do {
            interval \<leftarrow> DifficultyAdjustmentInterval params;
            m \<leftarrow> rem64 next interval;
            if m \<noteq> 0
            then if fPowAllowMinDifficultyBlocks params
                 then do {
                   b \<leftarrow> pblock;
                   late \<leftarrow> late_block params i b;
                   if late then Some nProofOfWorkLimit else last_regular bm interval nProofOfWorkLimit pindexLast
                 }
                 else Some (nBits i)
            else do {
              nHeightFirst \<leftarrow> (if g_isRandomX then map_option (max 0) (i32 (nHeight i - to_int32 interval))
                else do { d \<leftarrow> i64 (interval - 1); e \<leftarrow> i64 (nHeight i - d); Some (to_int32 e) });
              assertion (nHeightFirst \<ge> 0);
              first \<leftarrow> GetAncestor bm pindexLast nHeightFirst;
              f \<leftarrow> first;
              pindexFirst \<leftarrow> bm f;
              CalculateNextWorkRequired i (GetBlockTime pindexFirst) params
            }
          })
     }
   }"

section \<open>The presync check\<close>

definition PermittedDifficultyTransition :: "Params \<Rightarrow> int \<Rightarrow> u32 \<Rightarrow> u32 \<Rightarrow> bool option" where
  "PermittedDifficultyTransition params height old_nbits new_nbits =
     (if fPowAllowMinDifficultyBlocks params then Some True
      else if asertAnchorParams params \<noteq> None \<and> height \<ge> nASERTActivationHeight params then Some True
      else do {
        interval \<leftarrow> DifficultyAdjustmentInterval params;
        m \<leftarrow> rem64 height interval;
        if m = 0
        then do {
          let smallest_timespan = nPowTargetTimespan params sdiv 4;
          largest_timespan \<leftarrow> i64 (nPowTargetTimespan params * 4);
          let pow_limit = UintToArith256 (powLimit params);
          let observed_new_target = fst (SetCompact new_nbits);
          largest_difficulty_target \<leftarrow> scale_target (fst (SetCompact old_nbits)) largest_timespan (nPowTargetTimespan params) pow_limit;
          c \<leftarrow> GetCompact largest_difficulty_target False;
          let maximum_new_target = fst (SetCompact c);
          if CompareTo maximum_new_target observed_new_target < 0 then Some False
          else do {
            smallest \<leftarrow> div_uint (mul32 (fst (SetCompact old_nbits)) (word_of_int smallest_timespan))
              (of_u64 8 (word_of_int (nPowTargetTimespan params)));
            let smallest_difficulty_target = (if CompareTo smallest pow_limit > 0 then pow_limit else smallest);
            c \<leftarrow> GetCompact smallest_difficulty_target False;
            let minimum_new_target = fst (SetCompact c);
            Some (\<not> CompareTo minimum_new_target observed_new_target > 0)
          }
        }
        else Some (\<not> old_nbits \<noteq> new_nbits)
      })"

section \<open>The check of a hash\<close>

text \<open>The target of a field, or nothing when it is out of range.\<close>

definition DeriveTarget :: "u32 \<Rightarrow> Params \<Rightarrow> base_uint option" where
  "DeriveTarget nbits params = (let (bnTarget, fNegative, fOverflow) = SetCompact nbits in
     if fNegative \<or> EqualTo bnTarget 0 \<or> fOverflow \<or> CompareTo bnTarget (UintToArith256 (powLimit params)) > 0 then None
     else Some bnTarget)"

definition CheckProofOfWork :: "bytes \<Rightarrow> u32 \<Rightarrow> Params \<Rightarrow> bool" where
  "CheckProofOfWork hash nbits params = (case DeriveTarget nbits params of None \<Rightarrow> False
     | Some bnTarget \<Rightarrow> \<not> CompareTo (UintToArith256 hash) bnTarget > 0)"

end
