(* ===== verification/Qhash.thy ===== *)
theory Qhash
  imports Rx_Vm Cpp_Int "HOL-Library.Multiset"
begin

text \<open>
  The legacy second algorithm, \<open>crypto/qhash.cpp\<close>: a simulation of 16 qubits in fixed-point arithmetic.
  \<open>None\<close> is a signed overflow or an index outside an array. The vector \<open>amp\<close> is a list of 65536
  integers. The sum of its squares bounds every amplitude: a rotation increases it by a factor of at
  most \<open>1 + 2 ^ (-19)\<close> and a rounding term, and the permutations keep it.
\<close>

unbundle bit_operations_syntax

section \<open>Constants\<close>

definition Q30_ONE :: int where "Q30_ONE = 2 ^ 30"
definition Q30_HALF :: int where "Q30_HALF = 2 ^ 29"
definition NQUBITS :: nat where "NQUBITS = 16"
definition NAMP :: nat where "NAMP = 2 ^ 16"
definition NROUNDS :: nat where "NROUNDS = 2"

definition Q_COS :: "int list" where
  "Q_COS = [992008094, 759250125, 410903207, 0, - 410903207, - 759250125, - 992008094, - 1073741824]"

definition Q_SIN :: "int list" where
  "Q_SIN = [410903207, 759250125, 992008094, 1073741824, 992008094, 759250125, 410903207, 0]"

section \<open>Arithmetic\<close>

definition Q30_Mul :: "int \<Rightarrow> int \<Rightarrow> int option" where
  "Q30_Mul a b = do { p \<leftarrow> i64 (a * b); q \<leftarrow> i64 (p + Q30_HALF); Some (q div 2 ^ 30) }"

definition Rev16 :: "nat \<Rightarrow> nat" where
  "Rev16 i0 =
     (let i1 = push_bit 1 (i0 AND 0x5555) OR (drop_bit 1 i0 AND 0x5555);
          i2 = push_bit 2 (i1 AND 0x3333) OR (drop_bit 2 i1 AND 0x3333);
          i3 = push_bit 4 (i2 AND 0x0F0F) OR (drop_bit 4 i2 AND 0x0F0F)
      in push_bit 8 (i3 AND 0x00FF) OR (drop_bit 8 i3 AND 0x00FF))"

text \<open>The keystream: SHA-256 of the seed and a little-endian counter, cut to the wanted length.\<close>

function KeystreamBlocks :: "bytes \<Rightarrow> u32 \<Rightarrow> nat \<Rightarrow> bytes" where
  "KeystreamBlocks seed ctr n =
     (if n = 0 then []
      else let buf = fst (CSHA256_Finalize (CSHA256_Write (le_bytes 4 (unat ctr)) (CSHA256_Write seed (CSHA256_init (replicate 64 0)))))
           in take (min 32 n) buf @ KeystreamBlocks seed (ctr + 1) (n - min 32 n))"
  by auto
termination by (relation "measure (\<lambda>(_, _, n). n)") auto

declare KeystreamBlocks.simps [simp del]

section \<open>The circuit\<close>

definition rotate_pair :: "bool \<Rightarrow> int \<Rightarrow> int \<Rightarrow> int \<Rightarrow> int \<Rightarrow> (int \<times> int) option" where
  "rotate_pair neg_angle c s x y =
     (if \<not> neg_angle
      then do {
        cx \<leftarrow> Q30_Mul c x; sy \<leftarrow> Q30_Mul s y; nx \<leftarrow> i64 (cx - sy);
        sx \<leftarrow> Q30_Mul s x; cy \<leftarrow> Q30_Mul c y; ny \<leftarrow> i64 (sx + cy);
        Some (nx, ny)
      }
      else do {
        cx \<leftarrow> Q30_Mul c x; sy \<leftarrow> Q30_Mul s y; nx \<leftarrow> i64 (cx + sy);
        sx \<leftarrow> Q30_Mul (- s) x; cy \<leftarrow> Q30_Mul c y; ny \<leftarrow> i64 (sx + cy);
        Some (nx, ny)
      })"

definition gate_step :: "byte \<Rightarrow> nat \<Rightarrow> nat \<Rightarrow> int list \<Rightarrow> int list option" where
  "gate_step b q i amp =
     (let kidx = unat (b AND 7); neg_angle = drop_bit 7 b \<noteq> 0; c = Q_COS ! kidx; s = Q_SIN ! kidx; j = i OR 2 ^ q
      in if i AND 2 ^ q \<noteq> 0 then Some amp
         else if i < length amp \<and> j < length amp
         then do { (nx, ny) \<leftarrow> rotate_pair neg_angle c s (amp ! i) (amp ! j); Some (amp[i := nx, j := ny]) }
         else None)"

definition rotation_layer :: "bytes \<Rightarrow> int list \<Rightarrow> int list option" where
  "rotation_layer kr = steps (\<lambda>q. steps (gate_step (kr ! q) q) [0..<NAMP]) [0..<NQUBITS]"

definition swap_amp :: "nat \<Rightarrow> nat \<Rightarrow> int list \<Rightarrow> int list option" where
  "swap_amp i j amp = (if i < length amp \<and> j < length amp then Some (amp[i := amp ! j, j := amp ! i]) else None)"

definition cnot_step :: "nat \<Rightarrow> nat \<Rightarrow> nat \<Rightarrow> int list \<Rightarrow> int list option" where
  "cnot_step q t i amp =
     (let cbit = 2 ^ q; tbit = 2 ^ t in
      if i AND cbit \<noteq> 0 \<and> \<not> i AND tbit \<noteq> 0 then swap_amp i (i XOR tbit) amp else Some amp)"

definition cnot_ladder :: "byte \<Rightarrow> int list \<Rightarrow> int list option" where
  "cnot_ladder b = (let offset = unat (b AND 15) in
     steps (\<lambda>q. let t = (q + 1 + offset) AND 15 in if t = q then Some else steps (cnot_step q t) [0..<NAMP]) [0..<NQUBITS])"

definition reversal :: "int list \<Rightarrow> int list option" where
  "reversal = steps (\<lambda>i amp. let j = Rev16 i in if i < j then swap_amp i j amp else Some amp) [0..<NAMP]"

definition qround :: "bytes \<Rightarrow> nat \<Rightarrow> int list \<Rightarrow> int list option" where
  "qround key r amp = (let kr = drop (r * (NQUBITS + 1)) key in do {
     a1 \<leftarrow> rotation_layer kr amp;
     a2 \<leftarrow> cnot_ladder (kr ! NQUBITS) a1;
     reversal a2
   })"

section \<open>The digest\<close>

definition fold_step :: "int list \<Rightarrow> nat \<Rightarrow> int list \<Rightarrow> int list option" where
  "fold_step amp i acc = do { v \<leftarrow> i64 (acc ! (i AND 63) + amp ! i); Some (acc[i AND 63 := v]) }"

definition fold_bytes :: "int list \<Rightarrow> bytes" where
  "fold_bytes acc = concat (map (\<lambda>v. le_bytes 8 (nat (v mod 2 ^ 64))) acc)"

definition QHashFromSeed :: "bytes \<Rightarrow> bytes option" where
  "QHashFromSeed seed =
     (let amp0 = (replicate NAMP 0)[0 := Q30_ONE];
          key = KeystreamBlocks seed 0 (NROUNDS * (NQUBITS + 1))
      in do {
        amp \<leftarrow> steps (qround key) [0..<NROUNDS] amp0;
        acc \<leftarrow> steps (fold_step amp) [0..<NAMP] (replicate 64 0);
        Some (csha256 (csha256 (fold_bytes acc)))
      })"

section \<open>One rotation\<close>

lemma square_bound: "x * x \<le> b * b \<Longrightarrow> 0 \<le> b \<Longrightarrow> \<bar>x\<bar> \<le> (b :: int)"
  using abs_le_square_iff [of x b] by (simp add: power2_eq_square)

lemma abs_mult_bound: "\<bar>a\<bar> \<le> p \<Longrightarrow> \<bar>b\<bar> \<le> q \<Longrightarrow> \<bar>a * b\<bar> \<le> p * (q :: int)"
  unfolding abs_mult by (rule mult_mono') auto

lemma Q30_Mul_run:
  assumes "\<bar>a\<bar> \<le> 2 ^ 30" "\<bar>b\<bar> \<le> 2 ^ 31"
  shows "\<exists>m. Q30_Mul a b = Some m \<and> \<bar>2 ^ 30 * m - a * b\<bar> \<le> 2 ^ 29"
proof -
  have p: "\<bar>a * b\<bar> \<le> 2 ^ 61" using abs_mult_bound [OF assms] by simp
  have "2 ^ 30 * ((a * b + 2 ^ 29) div 2 ^ 30) = a * b + 2 ^ 29 - (a * b + 2 ^ 29) mod 2 ^ 30"
    by (simp add: minus_mod_eq_mult_div [symmetric])
  moreover have "0 \<le> (a * b + 2 ^ 29) mod 2 ^ 30" "(a * b + 2 ^ 29) mod 2 ^ 30 < 2 ^ 30" by simp_all
  moreover have "Q30_Mul a b = Some ((a * b + 2 ^ 29) div 2 ^ 30)"
    using p by (simp add: Q30_Mul_def Q30_HALF_def int_limits abs_le_iff)
  ultimately show ?thesis by (simp add: abs_le_iff)
qed

text \<open>A value with a small error added, squared.\<close>

lemma square_error: "0 \<le> K \<Longrightarrow> \<bar>r\<bar> \<le> e \<Longrightarrow> K * ((u + r) * (u + r)) \<le> (K + 1) * (u * u) + K * (K + 1) * (e * e)" for K u r e :: int
proof -
  assume K: "0 \<le> K" and r: "\<bar>r\<bar> \<le> e"
  have "r * r \<le> e * e" using abs_mult_bound [OF r r] by simp
  then have "K * (K + 1) * (r * r) \<le> K * (K + 1) * (e * e)" using K by (intro mult_left_mono) auto
  moreover have "0 \<le> (u - K * r) * (u - K * r)" by simp
  ultimately show ?thesis by (simp add: algebra_simps)
qed

definition unit_pair :: "int \<Rightarrow> int \<Rightarrow> bool" where
  "unit_pair c s \<longleftrightarrow> \<bar>c\<bar> \<le> 2 ^ 30 \<and> \<bar>s\<bar> \<le> 2 ^ 30 \<and> c * c + s * s \<le> 2 ^ 60 + 2 ^ 31"

lemma table_units: "k < 8 \<Longrightarrow> unit_pair (Q_COS ! k) (Q_SIN ! k)"
proof -
  assume "k < 8"
  then have "k \<in> {0, 1, 2, 3, 4, 5, 6, 7}" by auto
  then show ?thesis by (auto simp: unit_pair_def Q_COS_def Q_SIN_def)
qed

text \<open>The exact rotation and the rounding of its two coordinates.\<close>

lemma scale_energy:
  "2 ^ 80 * N \<le> (2 ^ 20 + 1) * ((2 ^ 60 + 2 ^ 31) * S) + (2 ^ 101 + 2 ^ 81) \<Longrightarrow> 0 \<le> S \<Longrightarrow> 2 ^ 19 * N \<le> (2 ^ 19 + 1) * S + (2 ^ 41 :: int)"
  by simp

lemma rotation_energy:
  assumes "unit_pair c s" and uv: "u * u + v * v = (c * c + s * s) * (x * x + y * y)"
    and "\<bar>2 ^ 30 * nx - u\<bar> \<le> 2 ^ 30" "\<bar>2 ^ 30 * ny - v\<bar> \<le> 2 ^ 30"
  shows "2 ^ 19 * (nx * nx + ny * ny) \<le> (2 ^ 19 + 1) * (x * x + y * y) + (2 ^ 41 :: int)"
proof -
  let ?K = "2 ^ 20 :: int" and ?S = "x * x + y * y"
  have "?K * ((2 ^ 30 * nx) * (2 ^ 30 * nx)) \<le> (?K + 1) * (u * u) + ?K * (?K + 1) * (2 ^ 30 * 2 ^ 30)"
    using square_error [OF _ assms(3), of ?K u] by simp
  moreover have "?K * ((2 ^ 30 * ny) * (2 ^ 30 * ny)) \<le> (?K + 1) * (v * v) + ?K * (?K + 1) * (2 ^ 30 * 2 ^ 30)"
    using square_error [OF _ assms(4), of ?K v] by simp
  ultimately have "2 ^ 80 * (nx * nx + ny * ny) \<le> (?K + 1) * (u * u + v * v) + (2 ^ 101 + 2 ^ 81)"
    by (simp add: algebra_simps)
  moreover have "(?K + 1) * (u * u + v * v) \<le> (?K + 1) * ((2 ^ 60 + 2 ^ 31) * ?S)"
    unfolding uv using assms(1) by (intro mult_left_mono mult_right_mono) (auto simp: unit_pair_def)
  ultimately show ?thesis by (intro scale_energy) simp_all
qed

lemma rotate_pair_run:
  assumes cs: "unit_pair c s" and xy: "\<bar>x\<bar> \<le> 2 ^ 31" "\<bar>y\<bar> \<le> 2 ^ 31"
  shows "\<exists>nx ny. rotate_pair g c s x y = Some (nx, ny) \<and> 2 ^ 19 * (nx * nx + ny * ny) \<le> (2 ^ 19 + 1) * (x * x + y * y) + (2 ^ 41 :: int)"
proof -
  have c: "\<bar>c\<bar> \<le> 2 ^ 30" "\<bar>s\<bar> \<le> 2 ^ 30" "\<bar>- s\<bar> \<le> 2 ^ 30" using cs by (auto simp: unit_pair_def)
  obtain cx where cx: "Q30_Mul c x = Some cx" "\<bar>2 ^ 30 * cx - c * x\<bar> \<le> 2 ^ 29" using Q30_Mul_run [OF c(1) xy(1)] by blast
  obtain cy where cy: "Q30_Mul c y = Some cy" "\<bar>2 ^ 30 * cy - c * y\<bar> \<le> 2 ^ 29" using Q30_Mul_run [OF c(1) xy(2)] by blast
  obtain sx where sx: "Q30_Mul s x = Some sx" "\<bar>2 ^ 30 * sx - s * x\<bar> \<le> 2 ^ 29" using Q30_Mul_run [OF c(2) xy(1)] by blast
  obtain sy where sy: "Q30_Mul s y = Some sy" "\<bar>2 ^ 30 * sy - s * y\<bar> \<le> 2 ^ 29" using Q30_Mul_run [OF c(2) xy(2)] by blast
  obtain mx where mx: "Q30_Mul (- s) x = Some mx" "\<bar>2 ^ 30 * mx - - s * x\<bar> \<le> 2 ^ 29" using Q30_Mul_run [OF c(3) xy(1)] by blast
  have p: "\<bar>c * x\<bar> \<le> 2 ^ 61" "\<bar>c * y\<bar> \<le> 2 ^ 61" "\<bar>s * x\<bar> \<le> 2 ^ 61" "\<bar>s * y\<bar> \<le> 2 ^ 61" "\<bar>- s * x\<bar> \<le> 2 ^ 61"
    using abs_mult_bound [OF c(1) xy(1)] abs_mult_bound [OF c(1) xy(2)] abs_mult_bound [OF c(2) xy(1)]
      abs_mult_bound [OF c(2) xy(2)] abs_mult_bound [OF c(3) xy(1)] by simp_all
  have i: "i64 (cx - sy) = Some (cx - sy)" "i64 (sx + cy) = Some (sx + cy)" "i64 (cx + sy) = Some (cx + sy)" "i64 (mx + cy) = Some (mx + cy)"
    using cx(2) cy(2) sx(2) sy(2) mx(2) p by (simp_all add: int_limits abs_le_iff)
  show ?thesis
  proof (cases g)
    case False
    have "2 ^ 19 * ((cx - sy) * (cx - sy) + (sx + cy) * (sx + cy)) \<le> (2 ^ 19 + 1) * (x * x + y * y) + (2 ^ 41 :: int)"
      by (rule rotation_energy [OF cs, of "c * x - s * y" "s * x + c * y"])
        (use cx(2) cy(2) sx(2) sy(2) in \<open>simp_all add: algebra_simps abs_le_iff\<close>)
    then show ?thesis using False cx(1) cy(1) sx(1) sy(1) i by (simp add: rotate_pair_def)
  next
    case True
    have "2 ^ 19 * ((cx + sy) * (cx + sy) + (mx + cy) * (mx + cy)) \<le> (2 ^ 19 + 1) * (x * x + y * y) + (2 ^ 41 :: int)"
      by (rule rotation_energy [OF cs, of "c * x + s * y" "- s * x + c * y"])
        (use cx(2) cy(2) mx(2) sy(2) in \<open>simp_all add: algebra_simps abs_le_iff\<close>)
    then show ?thesis using True cx(1) cy(1) mx(1) sy(1) i by (simp add: rotate_pair_def)
  qed
qed

section \<open>One gate\<close>

definition energy :: "int list \<Rightarrow> int" where
  "energy amp = (\<Sum>x\<leftarrow>amp. x * x)"

lemma energy_sum: "energy amp = (\<Sum>m<length amp. amp ! m * amp ! m)"
  by (simp add: energy_def sum_list_sum_nth lessThan_atLeast0)

text \<open>The energy in the middle of a gate, the pairs still to be rotated weighted higher.\<close>

definition partial_energy :: "nat \<Rightarrow> nat \<Rightarrow> int list \<Rightarrow> int" where
  "partial_energy q k amp = (\<Sum>m<length amp. (if unset_bit q m < k then 2 ^ 19 else 2 ^ 19 + 1) * (amp ! m * amp ! m))"

lemma or_power: "i OR 2 ^ q = set_bit q (i :: nat)"
  by (simp add: set_bit_eq_or)

lemma and_power: "i AND 2 ^ q \<noteq> 0 \<longleftrightarrow> bit (i :: nat) q"
  by (simp add: and_exp_eq_0_iff_not_bit)

lemma unset_same: "\<not> bit m q \<Longrightarrow> unset_bit q m = (m :: nat)" and unset_set: "bit m q \<Longrightarrow> set_bit q (unset_bit q m) = (m :: nat)"
    and unset_of_set: "\<not> bit m q \<Longrightarrow> unset_bit q (set_bit q m) = (m :: nat)"
  by (rule bit_eqI; auto simp: bit_simps)+

lemma unset_pair: "\<not> bit i q \<Longrightarrow> unset_bit q m = i \<longleftrightarrow> m = i \<or> m = set_bit q (i :: nat)"
  using unset_same [of m q] unset_set [of m q] unset_of_set [of i q] unset_same [of i q] by (cases "bit m q") auto

lemma sum_two: "finite A \<Longrightarrow> i \<in> A \<Longrightarrow> j \<in> A \<Longrightarrow> i \<noteq> j \<Longrightarrow> sum f A = f i + f j + sum f (A - {i, j})" for f :: "'a \<Rightarrow> int"
  by (simp add: sum.remove [of A i] sum.remove [of "A - {i}" j] insert_commute Diff_insert2 [symmetric])

lemma partial_step_skip:
  assumes "bit i q"
  shows "partial_energy q (Suc i) amp = partial_energy q i amp"
proof -
  have "unset_bit q m \<noteq> i" for m using assms by (auto simp: bit_simps)
  then have "unset_bit q m < Suc i \<longleftrightarrow> unset_bit q m < i" for m by (simp add: less_Suc_eq)
  then show ?thesis by (simp add: partial_energy_def)
qed

lemma partial_step_pair:
  assumes b: "\<not> bit i q" and l: "i < length amp" "set_bit q i < length amp"
    and n: "2 ^ 19 * (nx * nx + ny * ny) \<le> (2 ^ 19 + 1) * (amp ! i * amp ! i + amp ! set_bit q i * amp ! set_bit q i) + 2 ^ 41"
  shows "partial_energy q (Suc i) (amp[i := nx, set_bit q i := ny]) \<le> partial_energy q i amp + 2 ^ 41"
proof -
  let ?j = "set_bit q i" and ?B = "amp[i := nx, set_bit q i := ny]"
  have "bit ?j q" by (simp add: bit_simps)
  then have ij: "i \<noteq> ?j" using b by auto
  have u: "unset_bit q i = i" "unset_bit q ?j = i" using unset_pair [OF b] by auto
  define R where "R = (\<Sum>m\<in>{..<length amp} - {i, ?j}. (if unset_bit q m < i then 2 ^ 19 else 2 ^ 19 + 1) * (amp ! m * amp ! m))"
  have "(\<Sum>m\<in>{..<length amp} - {i, ?j}. (if unset_bit q m < Suc i then 2 ^ 19 else 2 ^ 19 + 1) * (?B ! m * ?B ! m)) = R"
    unfolding R_def by (rule sum.cong) (use unset_pair [OF b] in \<open>auto simp: less_Suc_eq\<close>)
  then have "partial_energy q (Suc i) ?B = 2 ^ 19 * (nx * nx) + 2 ^ 19 * (ny * ny) + R"
    using l ij unfolding partial_energy_def by (simp add: sum_two [of _ i ?j] u)
  moreover have "partial_energy q i amp = (2 ^ 19 + 1) * (amp ! i * amp ! i) + (2 ^ 19 + 1) * (amp ! ?j * amp ! ?j) + R"
    using l ij unfolding partial_energy_def R_def by (simp add: sum_two [of _ i ?j] u)
  ultimately show ?thesis using n by (simp add: distrib_left)
qed

lemma partial_bound: "m < length amp \<Longrightarrow> 2 ^ 19 * (amp ! m * amp ! m) \<le> partial_energy q k amp"
proof -
  assume m: "m < length amp"
  let ?f = "\<lambda>m. (if unset_bit q m < k then 2 ^ 19 else 2 ^ 19 + 1) * (amp ! m * amp ! m)"
  have "2 ^ 19 * (amp ! m * amp ! m) \<le> ?f m" by (simp add: mult_right_mono)
  also have "\<dots> \<le> sum ?f {..<length amp}" by (rule member_le_sum) (use m in auto)
  finally show ?thesis unfolding partial_energy_def .
qed

lemma partial_start: "partial_energy q 0 amp = (2 ^ 19 + 1) * energy amp"
  by (simp add: partial_energy_def energy_sum sum_distrib_left)

lemma partial_end:
  assumes "length amp = 2 ^ n" "q < n"
  shows "partial_energy q (length amp) amp = 2 ^ 19 * energy amp"
proof -
  have "unset_bit q m < 2 ^ n" if "m < 2 ^ n" for m :: nat
    using that assms(2) by (simp flip: take_bit_nat_eq_self_iff add: take_bit_unset_bit_eq)
  then show ?thesis using assms(1) by (simp add: partial_energy_def energy_sum sum_distrib_left)
qed

lemma below_power: "i < 2 ^ n \<Longrightarrow> j < 2 ^ n \<Longrightarrow> i OR j < (2 ^ n :: nat)" "i < 2 ^ n \<Longrightarrow> j < 2 ^ n \<Longrightarrow> i XOR j < (2 ^ n :: nat)"
  by (simp_all flip: take_bit_nat_eq_self_iff add: take_bit_or take_bit_xor)

lemma gate_step_eq: "gate_step b q i amp = (if bit i q then Some amp
    else if i < length amp \<and> set_bit q i < length amp
    then map_option (\<lambda>(nx, ny). amp[i := nx, set_bit q i := ny])
      (rotate_pair (drop_bit 7 b \<noteq> 0) (Q_COS ! unat (b AND 7)) (Q_SIN ! unat (b AND 7)) (amp ! i) (amp ! set_bit q i))
    else None)"
  unfolding gate_step_def Let_def and_power or_power by (auto simp: map_option_case split: bind_splits option.splits)

lemma gate_run:
  assumes "length amp = NAMP" "energy amp \<le> 2 ^ 61" "q < NQUBITS"
  shows "\<exists>amp'. steps (gate_step b q) [0..<NAMP] amp = Some amp' \<and> length amp' = NAMP \<and> 2 ^ 19 * energy amp' \<le> (2 ^ 19 + 1) * energy amp + 2 ^ 57"
proof -
  let ?c = "Q_COS ! unat (b AND 7)" and ?s = "Q_SIN ! unat (b AND 7)"
  let ?J = "\<lambda>k a. length a = NAMP \<and> partial_energy q k a \<le> (2 ^ 19 + 1) * energy amp + int k * 2 ^ 41"
  have "unat (b AND 7) < 8" using word_and_le1 [of b 7] by (simp add: word_le_nat_alt)
  then have cs: "unit_pair ?c ?s" by (rule table_units)
  have body: "\<exists>a'. gate_step b q k a = Some a' \<and> ?J (Suc k) a'" if k: "k < NAMP" and J: "?J k a" for k a
  proof (cases "bit k q")
    case True
    then show ?thesis using J by (simp add: gate_step_eq partial_step_skip)
  next
    case False
    have "(2 :: nat) ^ q < 2 ^ 16" using assms(3) by (intro power_strict_increasing) (auto simp: NQUBITS_def)
    then have l: "k < length a" "set_bit q k < length a" using below_power(1) [of k 16 "2 ^ q"] k J by (auto simp: NAMP_def or_power)
    have "(2 ^ 19 + 1) * energy amp + int k * 2 ^ 41 \<le> 2 ^ 81" using assms(2) k by (simp add: NAMP_def)
    then have "2 ^ 19 * (a ! m * a ! m) \<le> 2 ^ 81" if "m < length a" for m using partial_bound [OF that, of q k] J by linarith
    then have "\<bar>a ! m\<bar> \<le> 2 ^ 31" if "m < length a" for m using square_bound [of "a ! m" "2 ^ 31"] that by fastforce
    then obtain nx ny where n: "rotate_pair (drop_bit 7 b \<noteq> 0) ?c ?s (a ! k) (a ! set_bit q k) = Some (nx, ny)"
      "2 ^ 19 * (nx * nx + ny * ny) \<le> (2 ^ 19 + 1) * (a ! k * a ! k + a ! set_bit q k * a ! set_bit q k) + 2 ^ 41"
      using rotate_pair_run [OF cs] l by blast
    show ?thesis
      using partial_step_pair [OF False l n(2)] n(1) False l J by (simp add: gate_step_eq)
  qed
  have "?J 0 amp" using assms(1) partial_start [of q amp] by simp
  then obtain amp' where "steps (gate_step b q) [0..<NAMP] amp = Some amp' \<and> ?J NAMP amp'"
    using steps_count [where J = ?J and f = "gate_step b q", rotated, OF _ body] by blast
  then show ?thesis using partial_end [of amp' 16 q] assms(3) by (auto simp: NAMP_def NQUBITS_def)
qed

section \<open>Permutations\<close>

lemma energy_mset: "mset a = mset b \<Longrightarrow> energy a = energy b"
proof -
  assume "mset a = mset b"
  then have "mset (map (\<lambda>x. x * x) a) = mset (map (\<lambda>x. x * x) b)" by (simp add: mset_map)
  then show ?thesis unfolding energy_def by (metis sum_mset_sum_list)
qed

text \<open>Loops that only swap.\<close>

definition permutes_to :: "int list \<Rightarrow> int list option \<Rightarrow> bool" where
  "permutes_to a r \<longleftrightarrow> (\<exists>b. r = Some b \<and> length b = length a \<and> mset b = mset a)"

lemma swap_amp_permutes: "i < length a \<Longrightarrow> j < length a \<Longrightarrow> permutes_to a (swap_amp i j a)"
  by (simp add: permutes_to_def swap_amp_def mset_swap)

lemma steps_permutes:
  assumes "\<And>i b. i \<in> set is' \<Longrightarrow> length b = length a \<Longrightarrow> permutes_to b (f i b)"
  shows "permutes_to a (steps f is' a)"
  using steps_run [where I = "\<lambda>b. length b = length a \<and> mset b = mset a" and f = f and is' = is' and s = a] assms
  unfolding permutes_to_def by metis

lemma cnot_permutes: "length a = NAMP \<Longrightarrow> q < 16 \<Longrightarrow> t < 16 \<Longrightarrow> permutes_to a (steps (cnot_step q t) [0..<NAMP] a)"
proof (rule steps_permutes)
  fix i :: nat and b :: "int list"
  assume "length a = NAMP" "t < 16" "i \<in> set [0..<NAMP]" "length b = length a"
  moreover from \<open>t < 16\<close> have "(2 :: nat) ^ t < 2 ^ 16" by (intro power_strict_increasing) auto
  ultimately have "i < length b" "i XOR 2 ^ t < length b" using below_power(2) [of i 16 "2 ^ t"] by (auto simp: NAMP_def)
  then show "permutes_to b (cnot_step q t i b)"
    using swap_amp_permutes by (auto simp: cnot_step_def Let_def) (simp_all add: permutes_to_def)
qed

lemma ladder_permutes: "length a = NAMP \<Longrightarrow> permutes_to a (cnot_ladder b a)"
  unfolding cnot_ladder_def Let_def
proof (rule steps_permutes)
  fix q :: nat and c :: "int list"
  assume "length a = NAMP" "q \<in> set [0..<NQUBITS]" "length c = length a"
  moreover have "(q + 1 + unat (b AND 15)) AND 15 < 16"
    using take_bit_nat_less_exp [of 4 "q + 1 + unat (b AND 15)"] by (simp add: take_bit_eq_mask mask_numeral)
  ultimately show "permutes_to c ((if (q + 1 + unat (b AND 15)) AND 15 = q then Some
      else steps (cnot_step q ((q + 1 + unat (b AND 15)) AND 15)) [0..<NAMP]) c)"
    using cnot_permutes [of c q "(q + 1 + unat (b AND 15)) AND 15"] by (auto simp: NQUBITS_def permutes_to_def)
qed

lemma Rev16_less: "Rev16 i < 2 ^ 16"
proof -
  have m: "x AND 255 < 256" for x :: nat using take_bit_nat_less_exp [of 8 x] by (simp add: take_bit_eq_mask mask_numeral)
  have "push_bit 8 (x AND 255) < (2 ^ 16 :: nat)" for x using m [of x] by (simp add: push_bit_eq_mult)
  moreover have "x AND 255 < (2 ^ 16 :: nat)" for x using m [of x] by simp
  ultimately show ?thesis unfolding Rev16_def Let_def by (intro below_power)
qed

lemma reversal_permutes: "length a = NAMP \<Longrightarrow> permutes_to a (reversal a)"
  unfolding reversal_def Let_def
proof (rule steps_permutes)
  fix i :: nat and b :: "int list"
  assume "length a = NAMP" "i \<in> set [0..<NAMP]" "length b = length a"
  then have "i < length b" "Rev16 i < length b" using Rev16_less [of i] by (auto simp: NAMP_def)
  then show "permutes_to b (if i < Rev16 i then swap_amp i (Rev16 i) b else Some b)"
    using swap_amp_permutes by (auto simp: permutes_to_def)
qed

section \<open>The whole circuit\<close>

lemma layer_run:
  assumes "length amp = NAMP" "energy amp \<le> 2 ^ 60 + int g * 2 ^ 43" "g \<le> 16"
  shows "\<exists>a. rotation_layer kr amp = Some a \<and> length a = NAMP \<and> energy a \<le> 2 ^ 60 + int (g + 16) * 2 ^ 43"
proof -
  let ?J = "\<lambda>q a. length a = NAMP \<and> energy a \<le> 2 ^ 60 + int (g + q) * 2 ^ 43"
  have "\<exists>a'. steps (gate_step (kr ! q) q) [0..<NAMP] a = Some a' \<and> ?J (Suc q) a'" if q: "q < NQUBITS" and J: "?J q a" for q a
  proof -
    have "int (g + q) \<le> 32" using q assms(3) by (simp add: NQUBITS_def)
    then have e: "energy a \<le> 2 ^ 61" using J by simp
    obtain a' where a': "steps (gate_step (kr ! q) q) [0..<NAMP] a = Some a'" "length a' = NAMP"
      "2 ^ 19 * energy a' \<le> (2 ^ 19 + 1) * energy a + 2 ^ 57"
      using gate_run [OF _ e q, of "kr ! q"] J by blast
    then have "energy a' \<le> 2 ^ 60 + int (g + Suc q) * 2 ^ 43" using J e by simp
    then show ?thesis using a' by blast
  qed
  then have "\<exists>a. steps (\<lambda>q. steps (gate_step (kr ! q) q) [0..<NAMP]) [0..<NQUBITS] amp = Some a \<and> ?J NQUBITS a"
    by (rule steps_count [where J = ?J]) (use assms in auto)
  then show ?thesis by (simp add: rotation_layer_def NQUBITS_def)
qed

lemma qround_run:
  assumes "length amp = NAMP" "energy amp \<le> 2 ^ 60 + int g * 2 ^ 43" "g \<le> 16"
  shows "\<exists>a. qround key r amp = Some a \<and> length a = NAMP \<and> energy a \<le> 2 ^ 60 + int (g + 16) * 2 ^ 43"
proof -
  let ?kr = "drop (r * (NQUBITS + 1)) key"
  obtain a1 where a1: "rotation_layer ?kr amp = Some a1" "length a1 = NAMP" "energy a1 \<le> 2 ^ 60 + int (g + 16) * 2 ^ 43"
    using layer_run [OF assms] by blast
  obtain a2 where a2: "cnot_ladder (?kr ! NQUBITS) a1 = Some a2" "length a2 = NAMP" "mset a2 = mset a1"
    using ladder_permutes [OF a1(2)] a1(2) unfolding permutes_to_def by auto
  obtain a3 where a3: "reversal a2 = Some a3" "length a3 = NAMP" "mset a3 = mset a2"
    using reversal_permutes [OF a2(2)] a2(2) unfolding permutes_to_def by auto
  have "energy a3 = energy a1" using energy_mset [of a3 a1] a2(3) a3(3) by simp
  then show ?thesis using a1 a2 a3 by (simp add: qround_def Let_def)
qed

lemma amplitude_bound:
  assumes "length amp = NAMP" "energy amp \<le> 2 ^ 60 + 2 ^ 48" "m < NAMP"
  shows "\<bar>amp ! m\<bar> \<le> 2 ^ 30 + 2 ^ 17"
proof -
  have "amp ! m * amp ! m \<le> energy amp" unfolding energy_sum by (rule member_le_sum) (use assms in auto)
  then have "amp ! m * amp ! m \<le> (2 ^ 30 + 2 ^ 17) * (2 ^ 30 + 2 ^ 17)" using assms(2) by simp
  then show ?thesis by (rule square_bound) simp
qed

section \<open>The digest\<close>

lemma fold_run:
  assumes "length amp = NAMP" "\<And>m. m < NAMP \<Longrightarrow> \<bar>amp ! m\<bar> \<le> 2 ^ 31"
  shows "\<exists>acc. steps (fold_step amp) [0..<NAMP] (replicate 64 0) = Some acc \<and> length acc = 64"
proof -
  let ?J = "\<lambda>k acc. length acc = 64 \<and> (\<forall>m < 64. \<bar>acc ! m\<bar> \<le> int k * 2 ^ 31)"
  have mod: "k AND 63 < 64" for k :: nat using take_bit_nat_less_exp [of 6 k] by (simp add: take_bit_eq_mask mask_numeral)
  have "\<exists>acc'. fold_step amp k acc = Some acc' \<and> ?J (Suc k) acc'" if k: "k < NAMP" and J: "?J k acc" for k acc
  proof -
    let ?v = "acc ! (k AND 63) + amp ! k"
    have v: "\<bar>?v\<bar> \<le> int (Suc k) * 2 ^ 31" using J mod [of k] assms(2) [OF k] by (auto simp: abs_le_iff)
    also have "int (Suc k) * 2 ^ 31 \<le> 2 ^ 16 * 2 ^ 31" using k by (intro mult_right_mono) (auto simp: NAMP_def)
    finally have "i64 ?v = Some ?v" by (auto simp: int_limits abs_le_iff)
    moreover have "int k * 2 ^ 31 \<le> int (Suc k) * 2 ^ 31" by simp
    ultimately show ?thesis using J v mod [of k] by (auto simp: fold_step_def nth_list_update intro: order_trans)
  qed
  then have "\<exists>acc. steps (fold_step amp) [0..<NAMP] (replicate 64 0) = Some acc \<and> ?J NAMP acc"
    by (rule steps_count [where J = ?J]) auto
  then show ?thesis by blast
qed

lemma csha256_eq: "csha256 d = sha256_spec d"
  using sha256_pieces [of "replicate 64 0" "[d]"] by (simp add: csha256_def)

lemma length_csha256 [simp]: "length (csha256 d) = 32"
  by (simp add: csha256_eq length_sha256_spec)

lemma length_Keystream: "length (KeystreamBlocks seed ctr n) = n"
proof (induction seed ctr n rule: KeystreamBlocks.induct)
  case (1 seed ctr n)
  have "length (fst (CSHA256_Finalize (CSHA256_Write (le_bytes 4 (unat ctr)) (CSHA256_Write seed (CSHA256_init (replicate 64 0)))))) = 32"
    using sha256_pieces [of "replicate 64 0" "[seed, le_bytes 4 (unat ctr)]"] length_sha256_spec by simp
  then show ?case using 1 by (subst KeystreamBlocks.simps) (auto simp: Let_def)
qed

lemma circuit_run:
  "\<exists>amp. steps (qround key) [0..<NROUNDS] ((replicate NAMP 0)[0 := Q30_ONE]) = Some amp \<and> length amp = NAMP \<and>
     (\<forall>m < NAMP. \<bar>amp ! m\<bar> \<le> 2 ^ 30 + 2 ^ 17)"
proof -
  let ?J = "\<lambda>r a. length a = NAMP \<and> energy a \<le> 2 ^ 60 + int (16 * r) * 2 ^ 43"
  have r: "\<exists>a'. qround key r a = Some a' \<and> ?J (Suc r) a'" if "r < NROUNDS" "?J r a" for r a
    using qround_run [of a "16 * r" key r] that by (auto simp: NROUNDS_def)
  have "energy ((replicate NAMP 0)[0 := Q30_ONE]) = 2 ^ 60"
  proof -
    have "(replicate (Suc n) (0 :: int))[0 := Q30_ONE] = Q30_ONE # replicate n 0" for n by simp
    from this [of "NAMP - 1"] have "(replicate NAMP (0 :: int))[0 := Q30_ONE] = Q30_ONE # replicate (NAMP - 1) 0"
      by (simp add: NAMP_def del: replicate_Suc)
    then show ?thesis by (simp add: energy_def sum_list_replicate Q30_ONE_def)
  qed
  then have "?J 0 ((replicate NAMP 0)[0 := Q30_ONE])" by simp
  then have "\<exists>a. steps (qround key) [0..<NROUNDS] ((replicate NAMP 0)[0 := Q30_ONE]) = Some a \<and> ?J NROUNDS a"
    by (rule steps_count [where J = ?J, rotated]) (rule r)
  then show ?thesis using amplitude_bound by (auto simp: NROUNDS_def)
qed

end
