(* ===== verification/Etchash.thy ===== *)
theory Etchash
  imports Keccak "HOL-Library.Monad_Syntax"
begin

text \<open>
  \<open>crypto/etchash.cpp\<close>: the memory-hard hash of the second proof of work. \<open>None\<close> is an access out of
  range or a division by zero; the sizes of the arrays are natural numbers, all other integers are
  words of the width the source gives them. The search for the prime-bounded sizes is a loop that may
  in principle not end.
\<close>

unbundle bit_operations_syntax

section \<open>Constants and arrays\<close>

definition HASH_BYTES :: nat where "HASH_BYTES = 64"
definition HASH_WORDS :: nat where "HASH_WORDS = 16"
definition MIX_BYTES :: nat where "MIX_BYTES = 128"
definition MIX_WORDS :: nat where "MIX_WORDS = 32"
definition DATASET_PARENTS :: nat where "DATASET_PARENTS = 256"
definition CACHE_ROUNDS :: nat where "CACHE_ROUNDS = 3"
definition LOOP_ACCESSES :: nat where "LOOP_ACCESSES = 64"
definition CACHE_INIT_BYTES :: u64 where "CACHE_INIT_BYTES = 2 ^ 24"
definition CACHE_GROWTH_BYTES :: u64 where "CACHE_GROWTH_BYTES = 2 ^ 17"
definition DATASET_INIT_BYTES :: u64 where "DATASET_INIT_BYTES = 2 ^ 30"
definition DATASET_GROWTH_BYTES :: u64 where "DATASET_GROWTH_BYTES = 2 ^ 23"

lemmas etchash_consts = HASH_BYTES_def HASH_WORDS_def MIX_BYTES_def MIX_WORDS_def DATASET_PARENTS_def
  CACHE_ROUNDS_def LOOP_ACCESSES_def CACHE_INIT_BYTES_def CACHE_GROWTH_BYTES_def DATASET_INIT_BYTES_def DATASET_GROWTH_BYTES_def

text \<open>Checked reads and writes of a block of an array.\<close>

definition slice :: "'a list \<Rightarrow> nat \<Rightarrow> nat \<Rightarrow> 'a list option" where
  "slice xs off len = (if off + len \<le> length xs then Some (take len (drop off xs)) else None)"

definition overwrite :: "'a list \<Rightarrow> nat \<Rightarrow> 'a list \<Rightarrow> 'a list option" where
  "overwrite xs off d = (if off + length d \<le> length xs then Some (memcpy xs off d) else None)"

text \<open>A call of \<open>Keccak512\<close>; the digest does not depend on what the buffer of the hasher holds at first.\<close>

definition call_Keccak512 :: "bytes \<Rightarrow> bytes option" where
  "call_Keccak512 data = Keccak512 (replicate CKeccak512_RATE 0) data"

definition call_Keccak256 :: "bytes \<Rightarrow> bytes option" where
  "call_Keccak256 data = Keccak256 (replicate CKeccak256_RATE 0) data"

section \<open>Mixing and modular arithmetic\<close>

definition fnv1a :: "u32 \<Rightarrow> u32 \<Rightarrow> u32" where
  "fnv1a a b = (a * 0x01000193) XOR b"

definition fnv_hash :: "u32 list \<Rightarrow> u32 list \<Rightarrow> u32 list" where
  "fnv_hash mix data = map2 (\<lambda>x d. (x * 0x01000193) XOR d) mix data"

definition load32 :: "bytes \<Rightarrow> u32" where
  "load32 p = ucast (p ! 0) OR push_bit 8 (ucast (p ! 1)) OR push_bit 16 (ucast (p ! 2)) OR push_bit 24 (ucast (p ! 3))"

definition store32 :: "u32 \<Rightarrow> bytes" where
  "store32 v = [ucast v, ucast (drop_bit 8 v), ucast (drop_bit 16 v), ucast (drop_bit 24 v)]"

lemma drop_bit_less: "b \<noteq> 0 \<Longrightarrow> unat (drop_bit 1 (b :: u64)) < unat b"
  by (simp add: drop_bit_eq_div unat_div_distrib unat_gt_0)

function mulmod_loop :: "u64 \<Rightarrow> u64 \<Rightarrow> u64 \<Rightarrow> u64 \<Rightarrow> u64" where
  "mulmod_loop m a b r =
     (if b = 0 then r
      else let r' = (if b AND 1 \<noteq> 0 then let s = r + a in if s \<ge> m \<or> s < a then s - m else s else r);
               a1 = push_bit 1 a;
               a' = (if a1 \<ge> m then a1 - m else a1)
           in mulmod_loop m a' (drop_bit 1 b) r')"
  by pat_completeness auto
termination by (relation "measure (\<lambda>(m, a, b, r). unat b)") (use drop_bit_less in auto)

declare mulmod_loop.simps [simp del]

definition mulmod :: "u64 \<Rightarrow> u64 \<Rightarrow> u64 \<Rightarrow> u64" where
  "mulmod a b m = mulmod_loop m a b 0"

function powmod_loop :: "u64 \<Rightarrow> u64 \<Rightarrow> u64 \<Rightarrow> u64 \<Rightarrow> u64" where
  "powmod_loop m base e r =
     (if e = 0 then r
      else powmod_loop m (mulmod base base m) (drop_bit 1 e) (if e AND 1 \<noteq> 0 then mulmod r base m else r))"
  by pat_completeness auto
termination by (relation "measure (\<lambda>(m, base, e, r). unat e)") (use drop_bit_less in auto)

declare powmod_loop.simps [simp del]

text \<open>A zero modulus divides by zero.\<close>

definition powmod :: "u64 \<Rightarrow> u64 \<Rightarrow> u64 \<Rightarrow> u64 option" where
  "powmod base e m = (if m = 0 then None else Some (powmod_loop m (base mod m) e (1 mod m)))"

section \<open>The primality test\<close>

definition SMALL_PRIMES :: "u64 list" where
  "SMALL_PRIMES = [2, 3, 5, 7, 11, 13, 17, 19, 23, 29, 31, 37]"

definition BASES :: "u64 list" where
  "BASES = [2, 325, 9375, 28178, 450775, 9780504, 1795265022]"

partial_function (option) split_even :: "u64 \<Rightarrow> nat \<Rightarrow> (u64 \<times> nat) option" where
  "split_even d r = (if d AND 1 = 0 then split_even (drop_bit 1 d) (r + 1) else Some (d, r))"

declare split_even.simps [code]

text \<open>The repeated squarings: whether one of them gives \<open>n - 1\<close>.\<close>

fun square_until :: "u64 \<Rightarrow> u64 \<Rightarrow> nat \<Rightarrow> bool" where
  "square_until n x 0 \<longleftrightarrow> False"
| "square_until n x (Suc k) \<longleftrightarrow> (let x' = mulmod x x n in if x' = n - 1 then True else square_until n x' k)"

fun test_bases :: "u64 \<Rightarrow> u64 \<Rightarrow> nat \<Rightarrow> u64 list \<Rightarrow> bool option" where
  "test_bases n d r [] = Some True"
| "test_bases n d r (b # bs) =
     (let a = b mod n
      in if a = 0 then test_bases n d r bs
         else do {
           x \<leftarrow> powmod a d n;
           if x = 1 \<or> x = n - 1 then test_bases n d r bs
           else if square_until n x (r - 1) then test_bases n d r bs else Some False
         })"

definition IsPrime :: "u64 \<Rightarrow> bool option" where
  "IsPrime n =
     (if n < 2 then Some False
      else case find (\<lambda>p. n mod p = 0) SMALL_PRIMES of
        Some p \<Rightarrow> Some (n = p)
      | None \<Rightarrow> do { (d, r) \<leftarrow> split_even (n - 1) 0; test_bases n d r BASES })"

section \<open>Sizes and seeds\<close>

partial_function (option) prime_size :: "u64 \<Rightarrow> u64 \<Rightarrow> u64 option" where
  "prime_size unit sz = do {
     p \<leftarrow> IsPrime (sz div unit);
     if p then Some sz else prime_size unit (sz - 2 * unit)
   }"

declare prime_size.simps [code]

definition CalcCacheSize :: "u64 \<Rightarrow> u64 option" where
  "CalcCacheSize epoch = prime_size (of_nat HASH_BYTES) (CACHE_INIT_BYTES + CACHE_GROWTH_BYTES * epoch - of_nat HASH_BYTES)"

definition CalcDatasetSize :: "u64 \<Rightarrow> u64 option" where
  "CalcDatasetSize epoch = prime_size (of_nat MIX_BYTES) (DATASET_INIT_BYTES + DATASET_GROWTH_BYTES * epoch - of_nat MIX_BYTES)"

fun seed_loop :: "nat \<Rightarrow> bytes \<Rightarrow> bytes option" where
  "seed_loop 0 seed = Some seed"
| "seed_loop (Suc k) seed = do { seed' \<leftarrow> call_Keccak256 seed; seed_loop k seed' }"

definition SeedForEpoch :: "u64 \<Rightarrow> bytes option" where
  "SeedForEpoch epoch = seed_loop (unat epoch) (replicate 32 0)"

section \<open>The cache\<close>

function cache_fill :: "nat \<Rightarrow> nat \<Rightarrow> bytes \<Rightarrow> bytes option" where
  "cache_fill cache_size off cache =
     (if off < cache_size
      then do {
        src \<leftarrow> slice cache (off - HASH_BYTES) HASH_BYTES;
        h \<leftarrow> call_Keccak512 src;
        cache' \<leftarrow> overwrite cache off h;
        cache_fill cache_size (off + HASH_BYTES) cache'
      }
      else Some cache)"
  by pat_completeness auto
termination by (relation "measure (\<lambda>(s, off, c). s - off)") (auto simp: HASH_BYTES_def)

declare cache_fill.simps [simp del]

text \<open>
  One step of the RandMemoHash. The offset of the row to mix in is computed in 32 bits: the row number
  is a remainder of \<open>uint32_t(rows)\<close>, and its product with the row size wraps.
\<close>

definition memo_step :: "nat \<Rightarrow> nat \<Rightarrow> bytes \<Rightarrow> bytes option" where
  "memo_step rows j cache =
     (let src_off = ((j + rows - 1) mod rows) * HASH_BYTES; dst_off = j * HASH_BYTES; rows32 = (of_nat rows :: u32)
      in do {
        dst \<leftarrow> slice cache dst_off 4;
        xor_off \<leftarrow> (if rows32 = 0 then None else Some (unat ((load32 dst mod rows32) * of_nat HASH_BYTES)));
        a \<leftarrow> slice cache src_off HASH_BYTES;
        b \<leftarrow> slice cache xor_off HASH_BYTES;
        h \<leftarrow> call_Keccak512 (map2 (\<lambda>x y. x XOR y) a b);
        overwrite cache dst_off h
      })"

definition GenerateCache :: "nat \<Rightarrow> bytes \<Rightarrow> u32 list option" where
  "GenerateCache cache_size seed =
     (let rows = cache_size div HASH_BYTES
      in do {
        h \<leftarrow> call_Keccak512 seed;
        c0 \<leftarrow> overwrite (replicate cache_size 0) 0 h;
        c1 \<leftarrow> cache_fill cache_size HASH_BYTES c0;
        c2 \<leftarrow> steps (\<lambda>_. steps (memo_step rows) [0..<rows]) [0..<CACHE_ROUNDS] c1;
        Some (map (\<lambda>i. load32 (drop (4 * i) c2)) [0..<cache_size div 4])
      })"

section \<open>Dataset items\<close>

text \<open>A checked read of a row of words; index and product are 32-bit.\<close>

definition cache_row :: "u32 list \<Rightarrow> u32 \<Rightarrow> u32 list option" where
  "cache_row cache_words i = slice cache_words (unat (i * of_nat HASH_WORDS)) HASH_WORDS"

definition umod32 :: "u32 \<Rightarrow> u32 \<Rightarrow> u32 option" where
  "umod32 x y = (if y = 0 then None else Some (x mod y))"

definition words_of :: "bytes \<Rightarrow> nat \<Rightarrow> u32 list" where
  "words_of b k = map (\<lambda>i. load32 (drop (4 * i) b)) [0..<k]"

definition parent_step :: "u32 list \<Rightarrow> u32 \<Rightarrow> u32 \<Rightarrow> nat \<Rightarrow> u32 list \<Rightarrow> u32 list option" where
  "parent_step cache_words rows index i int_mix = do {
     parent \<leftarrow> umod32 (fnv1a (index XOR of_nat i) (int_mix ! (i mod 16))) rows;
     row \<leftarrow> cache_row cache_words parent;
     Some (fnv_hash int_mix row)
   }"

definition GenerateDatasetItem :: "u32 list \<Rightarrow> u32 \<Rightarrow> bytes option" where
  "GenerateDatasetItem cache_words index =
     (let rows = (of_nat (length cache_words div HASH_WORDS) :: u32)
      in do {
        i \<leftarrow> umod32 index rows;
        row \<leftarrow> cache_row cache_words i;
        mix_hash \<leftarrow> call_Keccak512 (concat (map store32 (row[0 := row ! 0 XOR index])));
        int_mix \<leftarrow> steps (parent_step cache_words rows index) [0..<DATASET_PARENTS] (words_of mix_hash HASH_WORDS);
        call_Keccak512 (concat (map store32 int_mix))
      })"

section \<open>Hashimoto\<close>

definition access_step :: "u32 list \<Rightarrow> u32 \<Rightarrow> u32 \<Rightarrow> nat \<Rightarrow> u32 list \<Rightarrow> u32 list option" where
  "access_step cache_words rows seed_head i mix = do {
     parent \<leftarrow> umod32 (fnv1a (of_nat i XOR seed_head) (mix ! (i mod MIX_WORDS))) rows;
     item0 \<leftarrow> GenerateDatasetItem cache_words (2 * parent);
     item1 \<leftarrow> GenerateDatasetItem cache_words (2 * parent + 1);
     Some (fnv_hash mix (words_of item0 HASH_WORDS @ words_of item1 HASH_WORDS))
   }"

text \<open>The compression of the mix, in place.\<close>

definition compress_mix :: "u32 list \<Rightarrow> u32 list" where
  "compress_mix mix =
     fold (\<lambda>i mix. mix[i div 4 := fnv1a (fnv1a (fnv1a (mix ! i) (mix ! (i + 1))) (mix ! (i + 2))) (mix ! (i + 3))])
       [0, 4, 8, 12, 16, 20, 24, 28] mix"

definition HashimotoLight :: "u64 \<Rightarrow> u32 list \<Rightarrow> bytes \<Rightarrow> u64 \<Rightarrow> (bytes \<times> bytes) option" where
  "HashimotoLight dataset_size cache_words header_hash nonce =
     (let rows = (ucast (dataset_size div of_nat MIX_BYTES) :: u32)
      in do {
        seed \<leftarrow> call_Keccak512 (header_hash @ store32 (ucast nonce) @ store32 (ucast (drop_bit 32 nonce)));
        let seed_head = load32 seed;
        let mix = map (\<lambda>i. load32 (drop (4 * (i mod HASH_WORDS)) seed)) [0..<MIX_WORDS];
        mix' \<leftarrow> steps (access_step cache_words rows seed_head) [0..<LOOP_ACCESSES] mix;
        let digest = concat (map store32 (take 8 (compress_mix mix')));
        result \<leftarrow> call_Keccak256 (seed @ digest);
        Some (digest, result)
      })"

end
