(* ===== verification/Etchash_Prime.thy ===== *)
theory Etchash_Prime
  imports Etchash
begin

text \<open>
  The modular arithmetic of the primality test is exact for moduli up to \<open>2 ^ 63\<close>, and there the test
  accepts every prime: Fermat's little theorem and the square roots of one, from elementary facts on
  greatest common divisors.
\<close>

unbundle bit_operations_syntax

section \<open>Exact modular arithmetic\<close>

lemma odd_and_1: "(b AND 1 \<noteq> 0) = odd (unat (b :: u64))"
proof -
  have "unat (b AND 1) = unat b mod 2" by (simp add: and_one_eq unat_mod_distrib)
  then show ?thesis by (metis odd_iff_mod_2_eq_one not_mod_2_eq_1_eq_0 unat_eq_zero zero_neq_one)
qed

lemma unat_half: "unat (drop_bit (Suc 0) (b :: u64)) = unat b div 2"
  by (simp add: drop_bit_eq_div unat_div_distrib)

lemma mod_double: "x < 2 * m \<Longrightarrow> x mod m = (if x < m then x else x - (m::nat))"
  by (auto simp: mod_if)

lemma unat_add_lt: "unat a + unat b < 2 ^ 64 \<Longrightarrow> unat (a + b :: u64) = unat a + unat b"
  by (simp add: unat_word_ariths)

lemma unat_reduce:
  fixes x m :: u64
  assumes "unat x < 2 * unat m"
  shows "unat (if x \<ge> m then x - m else x) = unat x mod unat m"
  using assms by (simp add: mod_double unat_sub word_le_nat_alt)

lemma mod_add_mul: "((r mod m) + (a mod m) * k) mod m = (r + a * k) mod (m::nat)"
  by (rule mod_add_cong) (simp_all add: mod_mult_left_eq)

lemma mulmod_loop_exact:
  "unat m \<le> 2 ^ 63 \<Longrightarrow> a < m \<Longrightarrow> r < m \<Longrightarrow>
   unat (mulmod_loop m a b r) = (unat r + unat a * unat b) mod unat m"
proof (induction m a b r rule: mulmod_loop.induct)
  case (1 m a b r)
  show ?case
  proof (cases "b = 0")
    case True
    then show ?thesis using 1(4) by (subst mulmod_loop.simps) (simp add: word_less_nat_alt)
  next
    case False
    have lt: "unat a < unat m" "unat r < unat m" using 1(3,4) by (auto simp: word_less_nat_alt)
    define r' where "r' = (if b AND 1 \<noteq> 0 then let s = r + a in if s \<ge> m \<or> s < a then s - m else s else r)"
    define a' where "a' = (if push_bit 1 a \<ge> m then push_bit 1 a - m else push_bit 1 a)"
    have ra: "unat (r + a) = unat r + unat a" using lt 1(2) by (intro unat_add_lt) simp
    then have "\<not> r + a < a" by (simp add: word_less_nat_alt)
    then have r': "unat r' = (unat r + unat a * (unat b mod 2)) mod unat m"
      using unat_reduce [of "r + a" m] ra lt
      by (auto simp: r'_def odd_and_1 Let_def odd_iff_mod_2_eq_one even_iff_mod_2_eq_zero)
    have pa: "unat (push_bit 1 a) = 2 * unat a" using lt 1(2)
      by (simp add: push_bit_eq_mult unat_word_ariths mult.commute)
    then have a': "unat a' = (2 * unat a) mod unat m" using unat_reduce [of "push_bit 1 a" m] lt by (simp add: a'_def)
    have "a' < m" "r' < m" using a' r' lt by (simp_all add: word_less_nat_alt)
    then have "unat (mulmod_loop m a' (drop_bit 1 b) r') = (unat r' + unat a' * (unat b div 2)) mod unat m"
      using 1(1) [OF False r'_def refl a'_def [unfolded Let_def]] 1(2) by (simp add: unat_half)
    also have "\<dots> = (unat r + unat a * (unat b mod 2) + 2 * unat a * (unat b div 2)) mod unat m"
      unfolding r' a' by (rule mod_add_mul)
    also have "unat r + unat a * (unat b mod 2) + 2 * unat a * (unat b div 2) = unat r + unat a * unat b"
    proof -
      have "unat a * unat b = unat a * (2 * (unat b div 2) + unat b mod 2)" by simp
      then show ?thesis by (simp only: distrib_left ac_simps)
    qed
    finally have "unat (mulmod_loop m a' (drop_bit 1 b) r') = (unat r + unat a * unat b) mod unat m" .
    moreover have "mulmod_loop m a b r = mulmod_loop m a' (drop_bit 1 b) r'"
      by (subst mulmod_loop.simps) (simp only: False if_False Let_def r'_def a'_def)
    ultimately show ?thesis by simp
  qed
qed

lemma mulmod_exact:
  assumes "unat m \<le> 2 ^ 63" "a < m"
  shows "unat (mulmod a b m) = unat a * unat b mod unat m"
  using mulmod_loop_exact [OF assms, of 0 b] assms(2) by (simp add: mulmod_def word_less_nat_alt)

lemma mulmod_less: "unat m \<le> 2 ^ 63 \<Longrightarrow> a < m \<Longrightarrow> mulmod a b m < m"
  by (simp add: word_less_nat_alt mulmod_exact)

lemma mod_mul_pow: "(a mod m) * (b mod m) ^ k mod m = a * b ^ k mod (m::nat)"
  by (rule mod_mult_cong) (simp_all add: power_mod)

lemma pow_halve: "b ^ (e mod 2) * (b * b) ^ (e div 2) = (b::nat) ^ e"
proof -
  have "b ^ (e mod 2) * (b * b) ^ (e div 2) = b ^ (e mod 2 + 2 * (e div 2))"
    by (simp only: power_add power_mult power2_eq_square)
  then show ?thesis by simp
qed

lemma powmod_loop_exact:
  "unat m \<le> 2 ^ 63 \<Longrightarrow> base < m \<Longrightarrow> r < m \<Longrightarrow>
   unat (powmod_loop m base e r) = unat r * unat base ^ unat e mod unat m"
proof (induction m base e r rule: powmod_loop.induct)
  case (1 m base e r)
  show ?case
  proof (cases "e = 0")
    case True
    then show ?thesis using 1(4) by (subst powmod_loop.simps) (simp add: word_less_nat_alt)
  next
    case False
    define r' where "r' = (if e AND 1 \<noteq> 0 then mulmod r base m else r)"
    have r': "unat r' = unat r * unat base ^ (unat e mod 2) mod unat m" "r' < m"
      using 1(2-4) by (auto simp: r'_def odd_and_1 mulmod_exact mulmod_less odd_iff_mod_2_eq_one even_iff_mod_2_eq_zero word_less_nat_alt)
    have "unat (powmod_loop m (mulmod base base m) (drop_bit 1 e) r') =
        unat r' * (unat base * unat base mod unat m) ^ (unat e div 2) mod unat m"
      using 1(1) [OF False] 1(2,3) r'(2) by (simp add: r'_def mulmod_less mulmod_exact unat_half)
    also have "\<dots> = unat r * unat base ^ (unat e mod 2) * (unat base * unat base) ^ (unat e div 2) mod unat m"
      unfolding r'(1) by (rule mod_mul_pow)
    also have "unat r * unat base ^ (unat e mod 2) * (unat base * unat base) ^ (unat e div 2) = unat r * unat base ^ unat e"
      by (simp only: mult.assoc pow_halve)
    finally show ?thesis using False by (subst powmod_loop.simps) (simp add: r'_def [symmetric])
  qed
qed

lemma powmod_exact:
  assumes "m \<noteq> 0" "unat m \<le> 2 ^ 63"
  shows "\<exists>x. powmod base e m = Some x \<and> unat x = unat base ^ unat e mod unat m \<and> x < m"
proof -
  have p: "0 < unat m" using assms(1) by (simp add: unat_gt_0)
  have l: "base mod m < m" "1 mod m < m" using mod_less_divisor [OF p] by (simp_all only: word_less_nat_alt unat_mod_distrib)
  have "unat (powmod_loop m (base mod m) e (1 mod m)) = (1 mod unat m) * (unat base mod unat m) ^ unat e mod unat m"
    using powmod_loop_exact [OF assms(2) l] by (simp add: unat_mod_distrib)
  also have "\<dots> = unat base ^ unat e mod unat m" using mod_mul_pow [of 1 "unat m" "unat base"] by simp
  finally show ?thesis using assms(1) p by (simp add: powmod_def word_less_nat_alt)
qed

text \<open>Above \<open>2 ^ 63\<close> the doubling of \<open>a\<close> loses a bit that the comparison does not see.\<close>

lemma mulmod_wraps: "mulmod (2 ^ 64 - 60) 2 (2 ^ 64 - 59) = 2 ^ 64 - 120"
  unfolding mulmod_def by (subst mulmod_loop.simps, simp, subst mulmod_loop.simps, simp, subst mulmod_loop.simps, simp)

section \<open>The test accepts every prime\<close>

definition is_prime :: "nat \<Rightarrow> bool" where
  "is_prime p \<longleftrightarrow> 1 < p \<and> (\<forall>d. d dvd p \<longrightarrow> d = 1 \<or> d = p)"

lemma prime_coprime: "is_prime p \<Longrightarrow> \<not> p dvd a \<Longrightarrow> coprime p a"
  unfolding is_prime_def by (metis coprime_iff_gcd_eq_1 gcd_dvd1 gcd_dvd2)

lemma prime_dvd_mult: "is_prime p \<Longrightarrow> p dvd a * b \<Longrightarrow> p dvd a \<or> p dvd b"
  using prime_coprime coprime_dvd_mult_right_iff by blast

lemma prime_dvd_prod: "is_prime p \<Longrightarrow> p dvd (\<Prod>i\<in>S. f i) \<Longrightarrow> \<exists>i\<in>S. p dvd f i"
proof (induction S rule: infinite_finite_induct)
  case (insert x S)
  then show ?case using prime_dvd_mult [of p "f x"] by auto
qed (auto simp: is_prime_def)

lemma not_dvd_less: "0 < i \<Longrightarrow> i < p \<Longrightarrow> \<not> p dvd (i::nat)"
  by (auto dest: dvd_imp_le)

text \<open>Multiplication by \<open>a\<close> permutes the non-zero residues.\<close>

lemma mult_permutes:
  assumes "is_prime p" "\<not> p dvd a"
  shows "bij_betw (\<lambda>i. a * i mod p) {1..<p} {1..<p}"
proof -
  let ?f = "\<lambda>i. a * i mod p"
  have p: "0 < p" using assms(1) by (simp add: is_prime_def)
  have "inj_on ?f {1..<p}"
  proof (rule linorder_inj_onI')
    fix i j
    assume ij: "i \<in> {1..<p}" "j \<in> {1..<p}" "i < j"
    show "?f i \<noteq> ?f j"
    proof
      assume "?f i = ?f j"
      then have "p dvd a * j - a * i" using ij(3) by (metis less_imp_le mod_eq_dvd_iff_nat mult_le_mono2)
      then have "p dvd a * (j - i)" by (simp add: diff_mult_distrib2)
      then have "p dvd j - i" using prime_dvd_mult [OF assms(1)] assms(2) by blast
      then show False using ij by (auto dest: dvd_imp_le)
    qed
  qed
  moreover have "?f ` {1..<p} \<subseteq> {1..<p}"
  proof
    fix y
    assume "y \<in> ?f ` {1..<p}"
    then obtain i where i: "y = ?f i" "i \<in> {1..<p}" by blast
    have "\<not> p dvd i" using i(2) by (simp add: not_dvd_less)
    then have "\<not> p dvd a * i" using prime_dvd_mult [OF assms(1)] assms(2) by blast
    then have "y \<noteq> 0" using i(1) by (simp add: dvd_eq_mod_eq_0)
    then show "y \<in> {1..<p}" using i(1) p by (simp add: Suc_le_eq)
  qed
  ultimately show ?thesis by (simp add: bij_betw_def endo_inj_surj)
qed

lemma fermat:
  assumes "is_prime p" "\<not> p dvd a"
  shows "a ^ (p - 1) mod p = 1"
proof -
  let ?P = "\<Prod>i\<in>{1..<p}. i"
  have p: "1 < p" using assms(1) by (simp add: is_prime_def)
  have "?P = (\<Prod>i\<in>{1..<p}. a * i mod p)"
    using prod.reindex_bij_betw [OF mult_permutes [OF assms], of "\<lambda>x. x"] by simp
  then have "?P mod p = (\<Prod>i\<in>{1..<p}. a * i) mod p" by (simp add: mod_prod_eq)
  also have "(\<Prod>i\<in>{1..<p}. a * i) = a ^ (p - 1) * ?P" by (simp add: prod.distrib)
  finally have e: "(a ^ (p - 1) * ?P) mod p = ?P mod p" by simp
  have "1 \<le> a ^ (p - 1)" using assms(2) by (cases "a = 0") (auto simp: Suc_le_eq)
  then have "p dvd (a ^ (p - 1) - 1) * ?P"
    using e mod_eq_dvd_iff_nat [of ?P "a ^ (p - 1) * ?P" p] by (simp add: diff_mult_distrib)
  moreover have "\<not> p dvd ?P"
  proof
    assume "p dvd ?P"
    then obtain i where "i \<in> {1..<p}" "p dvd i" using prime_dvd_prod [OF assms(1)] by blast
    then show False using not_dvd_less [of i p] by simp
  qed
  ultimately have "p dvd a ^ (p - 1) - 1" using prime_dvd_mult [OF assms(1)] by blast
  then have "a ^ (p - 1) mod p = 1 mod p" using \<open>1 \<le> a ^ (p - 1)\<close> mod_eq_dvd_iff_nat by blast
  then show ?thesis using p by simp
qed

text \<open>The square roots of one.\<close>

lemma sqrt_one:
  assumes "is_prime p" "x * x mod p = 1" "x < p"
  shows "x = 1 \<or> x = p - 1"
proof -
  have x: "1 \<le> x" using assms(2) by (cases x) auto
  have "x * x mod p = 1 mod p" using assms by (simp add: is_prime_def)
  then have "p dvd x * x - 1" using x mod_eq_dvd_iff_nat [of 1 "x * x" p] by (simp add: Suc_le_eq)
  moreover have "x * x - 1 = (x - 1) * (x + 1)" using x by (simp add: algebra_simps)
  ultimately have "p dvd x - 1 \<or> p dvd x + 1" using prime_dvd_mult [OF assms(1)] by metis
  then show ?thesis using assms(3) x by (auto dest!: dvd_imp_le)
qed

section \<open>The steps of the test\<close>

lemma split_even_run:
  "d \<noteq> 0 \<Longrightarrow> \<exists>d' k. split_even d r = Some (d', r + k) \<and> unat d = unat d' * 2 ^ k \<and> odd (unat d')"
proof (induction "unat d" arbitrary: d r rule: less_induct)
  case less
  show ?case
  proof (cases "d AND 1 = 0")
    case True
    then have ev: "even (unat d)" using odd_and_1 by blast
    then have "unat d div 2 \<noteq> 0" using less.prems by (metis dvd_div_eq_0_iff unat_eq_zero)
    then have "drop_bit 1 d \<noteq> 0" by (metis One_nat_def unat_0 unat_half)
    from less.hyps [OF drop_bit_less [OF less.prems] this, of "r + 1"]
    obtain d' k where d': "split_even (drop_bit 1 d) (r + 1) = Some (d', r + 1 + k)"
      "unat d div 2 = unat d' * 2 ^ k" "odd (unat d')" by (auto simp: unat_half)
    then have "unat d = unat d' * 2 ^ Suc k" using ev by (auto elim!: evenE)
    moreover have "split_even d r = Some (d', r + Suc k)" using True d'(1) by (subst split_even.simps) simp
    ultimately show ?thesis using d'(3) by blast
  next
    case False
    then have "split_even d r = Some (d, r)" by (subst split_even.simps) simp
    then show ?thesis using False odd_and_1 by (intro exI [of _ d] exI [of _ 0]) simp
  qed
qed

text \<open>If a power of two of \<open>x\<close> is one modulo a prime, \<open>x\<close> is one or a squaring gives minus one.\<close>

lemma unat_eq_one: "unat (x :: u64) = 1 \<longleftrightarrow> x = 1"
  by (metis unat_1 word_unat_eq_iff)

lemma unat_pred: "0 < unat (p :: u64) \<Longrightarrow> unat (p - 1) = unat p - 1"
  by (metis unat_gt_0 unat_minus_one)

lemma square_until_prime:
  assumes "is_prime (unat p)" "unat p \<le> 2 ^ 63"
  shows "x < p \<Longrightarrow> unat x ^ 2 ^ k mod unat p = 1 \<Longrightarrow> x = 1 \<or> x = p - 1 \<or> square_until p x (k - 1)"
proof (induction k arbitrary: x)
  case 0
  then show ?case using unat_eq_one [of x] by (simp add: word_less_nat_alt)
next
  case (Suc k)
  let ?y = "mulmod x x p"
  have y: "unat ?y = unat x * unat x mod unat p" "?y < p" using mulmod_exact mulmod_less assms(2) Suc.prems(1) by auto
  have pow: "unat ?y ^ 2 ^ k mod unat p = 1"
    using Suc.prems(2) by (simp add: y(1) power_mod power_mult_distrib flip: power_add mult_2)
  have one: "x = 1 \<or> x = p - 1" if "?y = 1"
  proof -
    have "unat x = 1 \<or> unat x = unat p - 1"
      using sqrt_one [OF assms(1)] y(1) Suc.prems(1) that by (simp add: word_less_nat_alt)
    moreover have "unat (p - 1) = unat p - 1" using assms(1) by (intro unat_pred) (simp add: is_prime_def)
    ultimately have "unat x = 1 \<or> unat x = unat (p - 1)" by simp
    then show ?thesis using unat_eq_one by (simp add: word_unat_eq_iff)
  qed
  show ?case
  proof (cases k)
    case 0
    then show ?thesis using pow y(2) one unat_eq_one [of ?y] by (simp add: word_less_nat_alt)
  next
    case (Suc j)
    then show ?thesis using Suc.IH [OF y(2) pow] one by (auto simp: Let_def)
  qed
qed

lemma test_bases_prime:
  assumes "is_prime (unat p)" "unat p \<le> 2 ^ 63" "unat p - 1 = unat d * 2 ^ r"
  shows "test_bases p d r bs = Some True"
proof (induction bs)
  case (Cons b bs)
  show ?case
  proof (cases "b mod p = 0")
    case False
    have p: "1 < unat p" "p \<noteq> 0" using assms(1) by (auto simp: is_prime_def)
    obtain x where x: "powmod (b mod p) d p = Some x" "unat x = unat (b mod p) ^ unat d mod unat p" "x < p"
      using powmod_exact [OF p(2) assms(2)] by blast
    have lt: "0 < unat (b mod p)" "unat (b mod p) < unat p"
      using False p by (simp_all add: unat_gt_0 del: unat_mod_distrib) (simp add: word_mod_less_divisor word_neq_0_conv flip: word_less_nat_alt)
    have "unat x ^ 2 ^ r mod unat p = unat (b mod p) ^ (unat p - 1) mod unat p"
      unfolding x(2) assms(3) power_mod power_mult ..
    also have "\<dots> = 1" using fermat [OF assms(1)] not_dvd_less [OF lt] by blast
    finally have "x = 1 \<or> x = p - 1 \<or> square_until p x (r - 1)" using square_until_prime [OF assms(1,2) x(3)] by blast
    then show ?thesis using False x(1) Cons.IH by (auto simp: Let_def)
  qed (use Cons.IH in simp)
qed simp

lemma find_SomeD: "find P xs = Some x \<Longrightarrow> P x \<and> x \<in> set xs"
  by (induction xs) (auto split: if_splits)

lemma IsPrime_small:
  assumes "find (\<lambda>q. n mod q = 0) SMALL_PRIMES = Some q" "is_prime (unat n)"
  shows "n = q"
proof -
  have q: "q \<in> set SMALL_PRIMES" "n mod q = 0"
    using find_SomeD [OF assms(1)] by blast+
  then have "unat q dvd unat n" by (metis dvd_eq_mod_eq_0 unat_0 unat_mod_distrib)
  then have "unat q = 1 \<or> unat q = unat n" using assms(2) by (simp add: is_prime_def)
  moreover have "unat q \<noteq> 1" using q(1) by (auto simp: SMALL_PRIMES_def)
  ultimately show ?thesis by (simp add: word_unat_eq_iff)
qed

theorem IsPrime_complete:
  assumes "is_prime (unat n)" "unat n \<le> 2 ^ 63"
  shows "IsPrime n = Some True"
proof (cases "find (\<lambda>q. n mod q = 0) SMALL_PRIMES")
  case None
  have n2: "1 < unat n" using assms(1) by (simp add: is_prime_def)
  then have "\<not> n < 2" "n - 1 \<noteq> 0" by (auto simp: word_less_nat_alt)
  moreover obtain d k where "split_even (n - 1) 0 = Some (d, k)" "unat (n - 1) = unat d * 2 ^ k"
    using split_even_run [OF calculation(2), of 0] by auto
  moreover have "unat (n - 1) = unat n - 1" using n2 by (simp add: unat_pred)
  ultimately show ?thesis using None test_bases_prime [OF assms] by (simp add: IsPrime_def)
next
  case (Some q)
  have "\<not> n < 2" using assms(1) by (simp add: is_prime_def word_less_nat_alt)
  then show ?thesis using Some IsPrime_small [OF Some assms(1)] by (simp add: IsPrime_def)
qed

text \<open>The test always answers.\<close>

lemma test_bases_total: "n \<noteq> 0 \<Longrightarrow> \<exists>v. test_bases n d r bs = Some v"
  by (induction bs) (auto simp: Let_def powmod_def)

lemma IsPrime_total: "\<exists>v. IsPrime n = Some v"
proof (cases "find (\<lambda>q. n mod q = 0) SMALL_PRIMES")
  case None
  show ?thesis
  proof (cases "n < 2")
    case False
    then have "1 < unat n" by (simp add: word_less_nat_alt)
    then have "n - 1 \<noteq> 0" "n \<noteq> 0" by auto
    then show ?thesis using split_even_run [of "n - 1" 0] test_bases_total [of n] None False
      by (auto simp: IsPrime_def)
  qed (auto simp: IsPrime_def)
qed (auto simp: IsPrime_def)

section \<open>The prime-bounded sizes\<close>

lemma IsPrime_3: "IsPrime 3 = Some True"
  by (simp add: IsPrime_def SMALL_PRIMES_def)

lemma word_div_exact:
  assumes "0 < u" "u * q < 2 ^ 64"
  shows "of_nat (u * q) div (of_nat u :: u64) = of_nat q"
proof -
  have "u \<le> u * q \<or> q = 0" "q \<le> u * q" using assms(1) by auto
  then show ?thesis
  proof (cases "q = 0")
    case False
    then have "u < 2 ^ 64" "q < 2 ^ 64" using assms \<open>u \<le> u * q \<or> q = 0\<close> \<open>q \<le> u * q\<close> by linarith+
    then have "unat (of_nat (u * q) div (of_nat u :: u64)) = unat (of_nat q :: u64)"
      using assms by (simp only: unat_div_distrib unat_of_nat) simp
    then show ?thesis by (simp only: word_unat_eq_iff)
  qed simp
qed

text \<open>The loop ends, and it passes over no candidate that the test accepts.\<close>

lemma prime_size_run:
  assumes "0 < u"
  shows "odd q \<Longrightarrow> 3 \<le> q \<Longrightarrow> u * q < 2 ^ 64 \<Longrightarrow>
    \<exists>q'. prime_size (of_nat u) (of_nat (u * q)) = Some (of_nat (u * q')) \<and> 3 \<le> q' \<and> q' \<le> q \<and> odd q' \<and>
      IsPrime (of_nat q') = Some True \<and> (\<forall>k. odd k \<longrightarrow> q' < k \<longrightarrow> k \<le> q \<longrightarrow> IsPrime (of_nat k) = Some False)"
proof (induction q rule: less_induct)
  case (less q)
  have d: "of_nat (u * q) div (of_nat u :: u64) = of_nat q" using word_div_exact [OF assms less.prems(3)] .
  obtain v where v: "IsPrime (of_nat q) = Some v" using IsPrime_total by blast
  show ?case
  proof (cases v)
    case True
    then have "prime_size (of_nat u) (of_nat (u * q)) = Some (of_nat (u * q))"
      using v d by (subst prime_size.simps) simp
    then show ?thesis using less.prems v True by (intro exI [of _ q]) auto
  next
    case False
    have "q \<noteq> 3" using v False IsPrime_3 by (metis of_nat_numeral option.inject)
    moreover have "q \<noteq> 4" using less.prems(1) by auto
    ultimately have q: "5 \<le> q" using less.prems(2) by linarith
    have "of_nat (u * q) - 2 * (of_nat u :: u64) = of_nat (u * (q - 2))"
      using q by (simp add: of_nat_diff algebra_simps)
    then have "prime_size (of_nat u) (of_nat (u * q)) = prime_size (of_nat u) (of_nat (u * (q - 2)))"
      using v d False by (subst prime_size.simps) simp
    moreover have m: "u * (q - 2) < 2 ^ 64" using less.prems(3) by (meson diff_le_self le_less_trans mult_le_mono2)
    have "q - 2 < q" "odd (q - 2)" "3 \<le> q - 2" using q less.prems(1) by auto
    then obtain q' where q': "prime_size (of_nat u) (of_nat (u * (q - 2))) = Some (of_nat (u * q'))" "3 \<le> q'" "q' \<le> q - 2" "odd q'"
      "IsPrime (of_nat q') = Some True" "\<forall>k. odd k \<longrightarrow> q' < k \<longrightarrow> k \<le> q - 2 \<longrightarrow> IsPrime (of_nat k) = Some False"
      using less.IH [OF _ _ _ m] by blast
    moreover have "IsPrime (of_nat k) = Some False" if "odd k" "q' < k" "k \<le> q" for k
    proof (cases "k \<le> q - 2")
      case False
      then have "k = q" using that less.prems(1) by (cases "k = q - 1") auto
      then show ?thesis using v \<open>\<not> v\<close> by simp
    qed (use that q'(6) in blast)
    ultimately show ?thesis using q' by (intro exI [of _ q']) auto
  qed
qed

lemma CalcCacheSize_start:
  "CalcCacheSize e = prime_size (of_nat 64) (of_nat (64 * (2 ^ 18 + 2 ^ 11 * unat e - 1)))"
proof -
  have "(of_nat (64 * (2 ^ 18 + 2 ^ 11 * unat e - 1)) :: u64) = 2 ^ 24 + 2 ^ 17 * e - 64"
    by (simp add: of_nat_diff algebra_simps)
  then show ?thesis by (simp add: CalcCacheSize_def etchash_consts)
qed

lemma CalcDatasetSize_start:
  "CalcDatasetSize e = prime_size (of_nat 128) (of_nat (128 * (2 ^ 23 + 2 ^ 16 * unat e - 1)))"
proof -
  have "(of_nat (128 * (2 ^ 23 + 2 ^ 16 * unat e - 1)) :: u64) = 2 ^ 30 + 2 ^ 23 * e - 128"
    by (simp add: of_nat_diff algebra_simps)
  then show ?thesis by (simp add: CalcDatasetSize_def etchash_consts)
qed

end
