(* ===== verification/Pow_Check.thy ===== *)
theory Pow_Check
  imports Pow Qhash Etchash_Claims
begin

text \<open>
  The proof-of-work checks of \<open>pow.cpp\<close> and their callers: \<open>CheckBlockHeader\<close>, the check inside
  \<open>CheckBlock\<close> and \<open>HasValidProofOfWork\<close> of \<open>validation.cpp\<close>, and the solving loop of
  \<open>rpc/mining.cpp\<close>. The RandomX library is the parameter \<open>rx\<close>; what \<open>GetVM\<close> answers for an epoch is the
  parameter \<open>getvm\<close>. \<open>Inl\<close> is a C++ exception, \<open>None\<close> undefined behaviour. A check returns its verdict
  and what it writes to \<open>outHash\<close>.
\<close>

unbundle bit_operations_syntax

section \<open>RandomX\<close>

datatype POWVerifyMode = POW_VERIFY_FULL | POW_VERIFY_COMMITMENT_ONLY | POW_VERIFY_MINING

definition uint256_IsNull :: "bytes \<Rightarrow> bool" where
  "uint256_IsNull h \<longleftrightarrow> list_all (\<lambda>b. b = 0) h"

definition MAX_FUTURE_BLOCK_TIME :: u32 where "MAX_FUTURE_BLOCK_TIME = 2 * 60 * 60"

definition GetRandomXCommitment :: "('c, 'd, 'm) randomx \<Rightarrow> CBlockHeader \<Rightarrow> bytes option \<Rightarrow> bytes" where
  "GetRandomXCommitment rx block inHash =
     (let rx_hash = (case inHash of None \<Rightarrow> hdr_hashRandomX block | Some h \<Rightarrow> h)
      in randomx_calculate_commitment rx (SerializeRandomXHeader block) rx_hash)"

definition epoch_of :: "Params \<Rightarrow> CBlockHeader \<Rightarrow> u32 \<Rightarrow> u32" where
  "epoch_of params block prevBlockTime =
     (let nEpochTime = (if prevBlockTime \<noteq> 0 then min (hdr_nTime block) (prevBlockTime + MAX_FUTURE_BLOCK_TIME) else hdr_nTime block)
      in GetEpoch nEpochTime (nRandomXEpochDuration params))"

definition exceeds :: "bytes \<Rightarrow> base_uint \<Rightarrow> bool" where
  "exceeds h bnTarget \<longleftrightarrow> CompareTo (UintToArith256 h) bnTarget > 0"

text \<open>The sanity check at the end and the last write to \<open>outHash\<close>.\<close>

definition rx_finish :: "POWVerifyMode \<Rightarrow> bool \<Rightarrow> bool \<Rightarrow> bytes \<Rightarrow> bool \<Rightarrow> bytes option \<Rightarrow> bool \<times> bytes option" where
  "rx_finish verifyMode fHashVerified fCommitmentVerified hashRandomX has_out written =
     (if \<not> (fHashVerified \<and> fCommitmentVerified \<or>
            verifyMode = POW_VERIFY_COMMITMENT_ONLY \<and> \<not> fHashVerified \<and> fCommitmentVerified)
      then (False, written)
      else (True, if has_out then Some hashRandomX else written))"

definition CheckProofOfWorkRandomX :: "('c, 'd, 'm) randomx \<Rightarrow> (u32 \<Rightarrow> 'm option) \<Rightarrow> bool \<Rightarrow> CBlockHeader \<Rightarrow> Params \<Rightarrow>
    POWVerifyMode \<Rightarrow> bool \<Rightarrow> u32 \<Rightarrow> string + bool \<times> bytes option" where
  "CheckProofOfWorkRandomX rx getvm g_isRandomX block params verifyMode has_out prevBlockTime =
     (if \<not> fPowRandomX params
      then Inr (CheckProofOfWork (CBlockHeader_GetHash (\<lambda>d. csha256 (csha256 d)) g_isRandomX block) (hdr_nBits block) params, None)
      else if uint256_IsNull (hashPrevBlock block) then Inr (True, if has_out then Some (hdr_hashRandomX block) else None)
      else case DeriveTarget (hdr_nBits block) params of None \<Rightarrow> Inr (False, None)
      | Some bnTarget \<Rightarrow>
        if \<not> has_out \<and> verifyMode = POW_VERIFY_MINING then Inl ''mining requires outHash parameter''
        else if verifyMode \<noteq> POW_VERIFY_MINING \<and>
          (uint256_IsNull (hdr_hashRandomX block) \<or> exceeds (GetRandomXCommitment rx block None) bnTarget) then Inr (False, None)
        else if verifyMode = POW_VERIFY_COMMITMENT_ONLY
        then Inr (rx_finish verifyMode False True (hdr_hashRandomX block) has_out None)
        else case getvm (epoch_of params block prevBlockTime) of None \<Rightarrow> Inr (False, None)
        | Some vm \<Rightarrow>
          let rx_hash = randomx_calculate_hash rx vm (SerializeRandomXHeader block) in
          if verifyMode \<noteq> POW_VERIFY_MINING
          then if rx_hash \<noteq> hdr_hashRandomX block then Inr (False, None)
               else Inr (rx_finish verifyMode True True (hdr_hashRandomX block) has_out None)
          else if exceeds (GetRandomXCommitment rx block (Some rx_hash)) bnTarget then Inr (False, Some rx_hash)
          else Inr (rx_finish verifyMode True True rx_hash has_out (Some rx_hash)))"

section \<open>QHash\<close>

definition CheckProofOfWorkQHash :: "CBlockHeader \<Rightarrow> Params \<Rightarrow> POWVerifyMode \<Rightarrow> bool \<Rightarrow> (bool \<times> bytes option) option" where
  "CheckProofOfWorkQHash block params verifyMode has_out =
     (if uint256_IsNull (hashPrevBlock block) then Some (True, if has_out then Some (hdr_hashRandomX block) else None)
      else case DeriveTarget (hdr_nBits block) params of None \<Rightarrow> Some (False, None)
      | Some bnTarget \<Rightarrow> do {
          let seed = csha256 (csha256 (SerializeRandomXHeader block));
          qhash \<leftarrow> QHashFromSeed seed;
          let out_hash = (if has_out then Some qhash else None);
          if verifyMode \<noteq> POW_VERIFY_MINING \<and> (uint256_IsNull (hdr_hashRandomX block) \<or> qhash \<noteq> hdr_hashRandomX block)
          then Some (False, out_hash)
          else Some (\<not> exceeds qhash bnTarget, out_hash)
        })"

section \<open>Etchash\<close>

datatype PowAlgo = RandomX | Etchash | QHash

definition GetPowAlgoForHeader :: "int \<Rightarrow> u32 \<Rightarrow> Params \<Rightarrow> PowAlgo option" where
  "GetPowAlgoForHeader height version params =
     (if version AND BLOCK_VERSION_QHASH = 0 then Some RandomX
      else if height < 0 then None
      else if height < nDualAlgoActivationHeight params then Some RandomX
      else Some (if fDualAlgoEtchash params then Etchash else QHash))"

text \<open>\<open>None\<close> is a division by zero.\<close>

definition GetEtchashEpoch :: "int \<Rightarrow> Params \<Rightarrow> int option" where
  "GetEtchashEpoch height params =
     (if height < 0 \<or> height < nDualAlgoActivationHeight params then Some (- 1)
      else if nEtchashEpochLength params = 0 then None
      else Some ((height - nDualAlgoActivationHeight params) sdiv nEtchashEpochLength params))"

definition GetEtchashSeedHash :: "int \<Rightarrow> Params \<Rightarrow> bytes option" where
  "GetEtchashSeedHash height params = do {
     epoch \<leftarrow> GetEtchashEpoch height params;
     if epoch < 0 then Some uint256_null else SeedForEpoch (word_of_int epoch)
   }"

record EtchashCacheEntry =
  entry_size :: u64
  entry_words :: "u32 list"

type_synonym etchash_caches = "(int, EtchashCacheEntry) lru"

definition GetEtchashCache :: "int \<Rightarrow> bytes \<Rightarrow> etchash_caches \<Rightarrow> (EtchashCacheEntry \<times> etchash_caches) option" where
  "GetEtchashCache epoch seed g_etchash_caches =
     (if lru_contains epoch g_etchash_caches
      then (case lru_get epoch g_etchash_caches of Inr (entry, c) \<Rightarrow> Some (entry, c) | Inl _ \<Rightarrow> None)
      else do {
        sz \<leftarrow> CalcCacheSize (word_of_int epoch);
        ws \<leftarrow> GenerateCache (unat sz) seed;
        let entry = \<lparr>entry_size = sz, entry_words = ws\<rparr>;
        Some (entry, lru_insert epoch entry g_etchash_caches)
      })"

text \<open>The number a result stands for, by the byte order in force.\<close>

definition etchash_claim :: "int \<Rightarrow> Params \<Rightarrow> bytes \<Rightarrow> bytes" where
  "etchash_claim height params h = (if height \<ge> nEtchashBigEndianHeight params then rev h else h)"

definition CheckProofOfWorkEtchash :: "CBlockHeader \<Rightarrow> int \<Rightarrow> Params \<Rightarrow> POWVerifyMode \<Rightarrow> bool \<Rightarrow> etchash_caches \<Rightarrow>
    ((bool \<times> bytes option) \<times> etchash_caches) option" where
  "CheckProofOfWorkEtchash block height params verifyMode has_out caches =
     (if uint256_IsNull (hashPrevBlock block) then Some ((True, if has_out then Some (hdr_hashRandomX block) else None), caches)
      else case DeriveTarget (hdr_nBits block) params of None \<Rightarrow> Some ((False, None), caches)
      | Some bnTarget \<Rightarrow> do {
          epoch \<leftarrow> GetEtchashEpoch height params;
          if epoch < 0 then Some ((False, None), caches)
          else if verifyMode = POW_VERIFY_COMMITMENT_ONLY
          then if uint256_IsNull (hdr_hashRandomX block) then Some ((False, None), caches)
               else Some ((\<not> exceeds (etchash_claim height params (hdr_hashRandomX block)) bnTarget, None), caches)
          else do {
            seed \<leftarrow> SeedForEpoch (word_of_int epoch);
            (cache, caches) \<leftarrow> GetEtchashCache epoch seed caches;
            dataset_size \<leftarrow> CalcDatasetSize (word_of_int epoch);
            header_hash \<leftarrow> call_Keccak256 (SerializeRandomXHeader (block\<lparr>hdr_nNonce := 0\<rparr>));
            (digest, result) \<leftarrow> HashimotoLight dataset_size (entry_words cache) header_hash (ucast (hdr_nNonce block));
            let out_hash = (if has_out then Some result else None);
            if verifyMode \<noteq> POW_VERIFY_MINING \<and> (uint256_IsNull (hdr_hashRandomX block) \<or> result \<noteq> hdr_hashRandomX block)
            then Some ((False, out_hash), caches)
            else Some ((\<not> exceeds (etchash_claim height params result) bnTarget, out_hash), caches)
          }
        })"

section \<open>The callers\<close>

record ('c, 'd, 'm) pow_env =
  env_rx :: "('c, 'd, 'm) randomx"
  env_getvm :: "u32 \<Rightarrow> 'm option"
  env_isRandomX :: bool

text \<open>The verdict of a check; here \<open>None\<close> also stands for an exception.\<close>

definition rx_verdict :: "('c, 'd, 'm) pow_env \<Rightarrow> CBlockHeader \<Rightarrow> Params \<Rightarrow> POWVerifyMode \<Rightarrow> u32 \<Rightarrow> bool option" where
  "rx_verdict env block params verifyMode prevBlockTime =
     (case CheckProofOfWorkRandomX (env_rx env) (env_getvm env) (env_isRandomX env) block params verifyMode False prevBlockTime of
        Inl _ \<Rightarrow> None | Inr (ok, _) \<Rightarrow> Some ok)"

definition q_verdict :: "CBlockHeader \<Rightarrow> Params \<Rightarrow> POWVerifyMode \<Rightarrow> bool option" where
  "q_verdict block params verifyMode = map_option fst (CheckProofOfWorkQHash block params verifyMode False)"

definition et_verdict :: "CBlockHeader \<Rightarrow> int \<Rightarrow> Params \<Rightarrow> POWVerifyMode \<Rightarrow> etchash_caches \<Rightarrow> (bool \<times> etchash_caches) option" where
  "et_verdict block height params verifyMode caches =
     map_option (\<lambda>((ok, _), c). (ok, c)) (CheckProofOfWorkEtchash block height params verifyMode False caches)"

definition CheckBlockHeader :: "('c, 'd, 'm) pow_env \<Rightarrow> CBlockHeader \<Rightarrow> Params \<Rightarrow> bool \<Rightarrow> CBlockIndex option \<Rightarrow> etchash_caches \<Rightarrow>
    (bool \<times> etchash_caches) option" where
  "CheckBlockHeader env block params fCheckPOW pindexPrev caches =
     (if \<not> fCheckPOW then Some (True, caches)
      else do {
        height \<leftarrow> (case pindexPrev of Some p \<Rightarrow> i32 (nHeight p + 1) | None \<Rightarrow> Some (- 1));
        let pow_algo = GetPowAlgoForHeader height (hdr_nVersion block) params;
        if pow_algo = Some Etchash then et_verdict block height params POW_VERIFY_FULL caches
        else if pow_algo = Some QHash then map_option (\<lambda>ok. (ok, caches)) (q_verdict block params POW_VERIFY_FULL)
        else let prevBlockTime = (case pindexPrev of Some p \<Rightarrow> nTime p | None \<Rightarrow> 0)
             in map_option (\<lambda>ok. (ok, caches)) (rx_verdict env block params POW_VERIFY_FULL prevBlockTime)
      })"

text \<open>The part of \<open>CheckBlock\<close> that judges the proof of work.\<close>

definition CheckBlock_pow :: "('c, 'd, 'm) pow_env \<Rightarrow> CBlockHeader \<Rightarrow> Params \<Rightarrow> bool \<Rightarrow> int \<Rightarrow> etchash_caches \<Rightarrow>
    (bool \<times> etchash_caches) option" where
  "CheckBlock_pow env block params fCheckPOW height caches =
     (let light = (\<lambda>_ :: unit. map_option (\<lambda>ok. (ok, caches)) (rx_verdict env block params POW_VERIFY_COMMITMENT_ONLY 0)) in
      if env_isRandomX env
      then if fCheckPOW \<and> hdr_nVersion block AND BLOCK_VERSION_QHASH \<noteq> 0
           then (case GetPowAlgoForHeader height (hdr_nVersion block) params of
                   Some Etchash \<Rightarrow> et_verdict block height params POW_VERIFY_COMMITMENT_ONLY caches
                 | Some QHash \<Rightarrow> map_option (\<lambda>ok. (ok, caches)) (q_verdict block params POW_VERIFY_COMMITMENT_ONLY)
                 | None \<Rightarrow> if fDualAlgoEtchash params then Some (True, caches)
                           else do {
                             ok \<leftarrow> q_verdict block params POW_VERIFY_COMMITMENT_ONLY;
                             if ok then Some (True, caches) else light ()
                           }
                 | Some RandomX \<Rightarrow> light ())
           else if fCheckPOW then light () else Some (True, caches)
      else CheckBlockHeader env block params fCheckPOW None caches)"

fun HasValidProofOfWork :: "('c, 'd, 'm) pow_env \<Rightarrow> CBlockHeader list \<Rightarrow> Params \<Rightarrow> int \<Rightarrow> etchash_caches \<Rightarrow>
    (bool \<times> etchash_caches) option" where
  "HasValidProofOfWork env [] params height caches = Some (True, caches)"
| "HasValidProofOfWork env (hb # headers) params height caches = do {
     (ok, caches) \<leftarrow> (case GetPowAlgoForHeader height (hdr_nVersion hb) params of
         None \<Rightarrow> Some (True, caches)
       | Some Etchash \<Rightarrow> et_verdict hb height params POW_VERIFY_FULL caches
       | Some QHash \<Rightarrow> map_option (\<lambda>ok. (ok, caches)) (q_verdict hb params POW_VERIFY_COMMITMENT_ONLY)
       | Some RandomX \<Rightarrow> map_option (\<lambda>ok. (ok, caches)) (rx_verdict env hb params POW_VERIFY_COMMITMENT_ONLY 0));
     if \<not> ok then Some (False, caches)
     else do {
       height' \<leftarrow> (if height \<ge> 0 then i32 (height + 1) else Some height);
       HasValidProofOfWork env headers params height' caches
     }
   }"

section \<open>Mining\<close>

text \<open>One attempt of the solving loop of \<open>GenerateBlock\<close>: the verdict, \<open>rxHash\<close> and the caches.\<close>

definition try_nonce :: "('c, 'd, 'm) pow_env \<Rightarrow> CBlockHeader \<Rightarrow> Params \<Rightarrow> int \<Rightarrow> u32 \<Rightarrow> bytes \<Rightarrow> etchash_caches \<Rightarrow>
    (bool \<times> bytes \<times> etchash_caches) option" where
  "try_nonce env block params nMiningHeight prevBlockTime rxHash caches =
     (if hdr_nVersion block AND BLOCK_VERSION_QHASH \<noteq> 0
      then if fDualAlgoEtchash params
           then do {
             ((ok, h), c) \<leftarrow> CheckProofOfWorkEtchash block nMiningHeight params POW_VERIFY_MINING True caches;
             Some (ok, case h of Some x \<Rightarrow> x | None \<Rightarrow> rxHash, c)
           }
           else do {
             (ok, h) \<leftarrow> CheckProofOfWorkQHash block params POW_VERIFY_MINING True;
             Some (ok, case h of Some x \<Rightarrow> x | None \<Rightarrow> rxHash, caches)
           }
      else (case CheckProofOfWorkRandomX (env_rx env) (env_getvm env) (env_isRandomX env) block params POW_VERIFY_MINING True prevBlockTime of
              Inl _ \<Rightarrow> None
            | Inr (ok, h) \<Rightarrow> Some (ok, case h of Some x \<Rightarrow> x | None \<Rightarrow> rxHash, caches)))"

fun solve_loop :: "('c, 'd, 'm) pow_env \<Rightarrow> Params \<Rightarrow> int \<Rightarrow> u32 \<Rightarrow> nat \<Rightarrow> CBlockHeader \<Rightarrow> bytes \<Rightarrow> etchash_caches \<Rightarrow>
    (CBlockHeader \<times> nat \<times> bytes \<times> etchash_caches) option" where
  "solve_loop env params nMiningHeight prevBlockTime 0 block rxHash caches = Some (block, 0, rxHash, caches)"
| "solve_loop env params nMiningHeight prevBlockTime (Suc max_tries) block rxHash caches =
     (if \<not> hdr_nNonce block < 0xffffffff then Some (block, Suc max_tries, rxHash, caches)
      else do {
        (ok, rxHash, caches) \<leftarrow> try_nonce env block params nMiningHeight prevBlockTime rxHash caches;
        if ok then Some (block, Suc max_tries, rxHash, caches)
        else solve_loop env params nMiningHeight prevBlockTime max_tries (block\<lparr>hdr_nNonce := hdr_nNonce block + 1\<rparr>) rxHash caches
      })"

text \<open>
  \<open>GenerateBlock\<close> from a header whose Merkle root is set, up to the assignment of \<open>block_out\<close>: the
  return value and the solved header. \<open>pindexPrev\<close> is what the index holds for the previous block.
\<close>

definition GenerateBlock_solve :: "('c, 'd, 'm) pow_env \<Rightarrow> Params \<Rightarrow> CBlockIndex option \<Rightarrow> bool \<Rightarrow> nat \<Rightarrow> CBlockHeader \<Rightarrow> etchash_caches \<Rightarrow>
    (bool \<times> CBlockHeader option \<times> etchash_caches) option" where
  "GenerateBlock_solve env params pindexPrev m_interrupt max_tries block caches = do {
     let prevBlockTime = (case pindexPrev of Some p \<Rightarrow> nTime p | None \<Rightarrow> 0);
     nMiningHeight \<leftarrow> (case pindexPrev of Some p \<Rightarrow> i32 (nHeight p + 1) | None \<Rightarrow> Some (- 1));
     (block, max_tries, rxHash, caches) \<leftarrow> solve_loop env params nMiningHeight prevBlockTime max_tries block uint256_null caches;
     let block = block\<lparr>hdr_hashRandomX := rxHash\<rparr>;
     if max_tries = 0 \<or> m_interrupt then Some (False, None, caches)
     else if hdr_nNonce block = 0xffffffff then Some (True, None, caches)
     else Some (True, Some block, caches)
   }"

section \<open>Light and full checks\<close>

lemma rx_full_light:
  "rx_verdict env b params POW_VERIFY_FULL t = Some True \<Longrightarrow> rx_verdict env b params POW_VERIFY_COMMITMENT_ONLY u = Some True"
  by (auto simp: rx_verdict_def CheckProofOfWorkRandomX_def rx_finish_def Let_def split: if_splits option.splits)

lemma q_full_light: "q_verdict b params POW_VERIFY_FULL = q_verdict b params POW_VERIFY_COMMITMENT_ONLY"
  by (cases "DeriveTarget (hdr_nBits b) params") (simp_all add: q_verdict_def CheckProofOfWorkQHash_def Let_def)

text \<open>What a cache entry of an epoch is.\<close>

definition etchash_entry :: "int \<Rightarrow> EtchashCacheEntry \<Rightarrow> bool" where
  "etchash_entry e entry \<longleftrightarrow> (\<exists>seed. SeedForEpoch (word_of_int e) = Some seed \<and> CalcCacheSize (word_of_int e) = Some (entry_size entry) \<and>
     GenerateCache (unat (entry_size entry)) seed = Some (entry_words entry))"

abbreviation etchash_ok :: "etchash_caches \<Rightarrow> bool" where
  "etchash_ok \<equiv> lru.coherent etchash_entry"

lemma etchash_entry_unique: "etchash_entry e a \<Longrightarrow> etchash_entry e b \<Longrightarrow> a = b"
  by (auto simp: etchash_entry_def)

lemma lru_get_found: "lru_get k c = Inr (v, c') \<Longrightarrow> lru_try_get k c = (Some v, c')"
  by (simp add: lru_get_def lru_try_get_def split: option.splits)

lemma GetEtchashCache_sound:
  assumes "etchash_ok c" "SeedForEpoch (word_of_int e) = Some seed" "GetEtchashCache e seed c = Some (entry, c')"
  shows "etchash_entry e entry \<and> etchash_ok c'"
proof (cases "lru_contains e c")
  case True
  then have "lru_get e c = Inr (entry, c')" using assms(3) by (auto simp: GetEtchashCache_def split: sum.splits)
  then have "lru_try_get e c = (Some entry, c')" by (rule lru_get_found)
  then show ?thesis using lru_try_get_coherent [OF assms(1)] by blast
next
  case False
  then have "etchash_entry e entry" "c' = lru_insert e entry c"
    using assms(2,3) by (auto simp: GetEtchashCache_def etchash_entry_def bind_eq_Some_conv Let_def)
  then show ?thesis using lru.coherent_add [OF assms(1)] by blast
qed

lemma GetEtchashCache_complete:
  assumes "etchash_ok c" "SeedForEpoch (word_of_int e) = Some seed" "etchash_entry e entry"
  shows "\<exists>c'. GetEtchashCache e seed c = Some (entry, c') \<and> etchash_ok c'"
proof -
  have "\<exists>x c'. GetEtchashCache e seed c = Some (x, c')"
    using assms(2,3) by (auto simp: GetEtchashCache_def lru_contains_def lru_get_def etchash_entry_def Let_def split: option.splits)
  then obtain x c' where g: "GetEtchashCache e seed c = Some (x, c')" by blast
  have "etchash_entry e x \<and> etchash_ok c'" by (rule GetEtchashCache_sound [OF assms(1,2) g])
  then show ?thesis using g etchash_entry_unique [OF assms(3)] by blast
qed

text \<open>The result of the algorithm for a header, with no cache.\<close>

definition etchash_result :: "CBlockHeader \<Rightarrow> int \<Rightarrow> bytes \<Rightarrow> bool" where
  "etchash_result b e r \<longleftrightarrow> (\<exists>entry ds hh d. etchash_entry e entry \<and> CalcDatasetSize (word_of_int e) = Some ds \<and>
     call_Keccak256 (SerializeRandomXHeader (b\<lparr>hdr_nNonce := 0\<rparr>)) = Some hh \<and>
     HashimotoLight ds (entry_words entry) hh (ucast (hdr_nNonce b)) = Some (d, r))"

lemma etchash_result_unique: "etchash_result b e r \<Longrightarrow> etchash_result b e r' \<Longrightarrow> r = r'"
  unfolding etchash_result_def by (metis etchash_entry_unique option.inject prod.inject)

lemma serialize_claim: "SerializeRandomXHeader (b\<lparr>hdr_hashRandomX := r\<rparr>) = SerializeRandomXHeader b"
    "SerializeRandomXHeader (b\<lparr>hdr_hashRandomX := r, hdr_nNonce := n\<rparr>) = SerializeRandomXHeader (b\<lparr>hdr_nNonce := n\<rparr>)"
  by (simp_all add: SerializeRandomXHeader_eq CBlockHeader_Serialize_def)

lemma etchash_result_claim: "etchash_result (b\<lparr>hdr_hashRandomX := r\<rparr>) e x \<longleftrightarrow> etchash_result b e x"
  by (simp add: etchash_result_def serialize_claim)

text \<open>The verdict of the full and the mining mode, given the result.\<close>

definition etchash_judge :: "CBlockHeader \<Rightarrow> int \<Rightarrow> Params \<Rightarrow> POWVerifyMode \<Rightarrow> base_uint \<Rightarrow> bytes \<Rightarrow> bool" where
  "etchash_judge b height params m T r \<longleftrightarrow>
     (m = POW_VERIFY_MINING \<or> \<not> uint256_IsNull (hdr_hashRandomX b) \<and> r = hdr_hashRandomX b) \<and> \<not> exceeds (etchash_claim height params r) T"

lemma etchash_run_sound:
  assumes "etchash_ok c" "m \<noteq> POW_VERIFY_COMMITMENT_ONLY" "\<not> uint256_IsNull (hashPrevBlock b)" "DeriveTarget (hdr_nBits b) params = Some T"
    and "GetEtchashEpoch height params = Some e" "\<not> e < 0" "CheckProofOfWorkEtchash b height params m w c = Some ((ok, h), c')"
  shows "\<exists>r. etchash_result b e r \<and> ok = etchash_judge b height params m T r \<and> h = (if w then Some r else None) \<and> etchash_ok c'"
proof -
  have "\<exists>seed entry ds hh d r. SeedForEpoch (word_of_int e) = Some seed \<and> GetEtchashCache e seed c = Some (entry, c') \<and>
    CalcDatasetSize (word_of_int e) = Some ds \<and> call_Keccak256 (SerializeRandomXHeader (b\<lparr>hdr_nNonce := 0\<rparr>)) = Some hh \<and>
    HashimotoLight ds (entry_words entry) hh (ucast (hdr_nNonce b)) = Some (d, r) \<and>
    ok = etchash_judge b height params m T r \<and> h = (if w then Some r else None)"
    using assms(2-) by (auto simp: CheckProofOfWorkEtchash_def bind_eq_Some_conv Let_def etchash_judge_def split: if_splits)
  then obtain seed entry ds hh d r where x: "SeedForEpoch (word_of_int e) = Some seed" "GetEtchashCache e seed c = Some (entry, c')"
    "CalcDatasetSize (word_of_int e) = Some ds" "call_Keccak256 (SerializeRandomXHeader (b\<lparr>hdr_nNonce := 0\<rparr>)) = Some hh"
    "HashimotoLight ds (entry_words entry) hh (ucast (hdr_nNonce b)) = Some (d, r)"
    "ok = etchash_judge b height params m T r" "h = (if w then Some r else None)"
    by (elim exE conjE)
  then show ?thesis using GetEtchashCache_sound [OF assms(1) x(1,2)] unfolding etchash_result_def by blast
qed

lemma etchash_run_complete:
  assumes "etchash_ok c" "m \<noteq> POW_VERIFY_COMMITMENT_ONLY" "\<not> uint256_IsNull (hashPrevBlock b)" "DeriveTarget (hdr_nBits b) params = Some T"
    and "GetEtchashEpoch height params = Some e" "\<not> e < 0" "etchash_result b e r"
  shows "\<exists>c'. CheckProofOfWorkEtchash b height params m w c = Some ((etchash_judge b height params m T r, if w then Some r else None), c') \<and>
    etchash_ok c'"
proof -
  obtain entry ds hh d where x: "etchash_entry e entry" "CalcDatasetSize (word_of_int e) = Some ds"
    "call_Keccak256 (SerializeRandomXHeader (b\<lparr>hdr_nNonce := 0\<rparr>)) = Some hh"
    "HashimotoLight ds (entry_words entry) hh (ucast (hdr_nNonce b)) = Some (d, r)"
    using assms(7) unfolding etchash_result_def by blast
  obtain seed where seed: "SeedForEpoch (word_of_int e) = Some seed" using x(1) unfolding etchash_entry_def by blast
  obtain c' where "GetEtchashCache e seed c = Some (entry, c')" "etchash_ok c'"
    using GetEtchashCache_complete [OF assms(1) seed x(1)] by blast
  then show ?thesis
    using assms(2-6) x seed by (auto simp: CheckProofOfWorkEtchash_def Let_def etchash_judge_def)
qed

lemma et_full_light:
  assumes "etchash_ok c" "et_verdict b height params POW_VERIFY_FULL c = Some (True, c')"
  shows "et_verdict b height params POW_VERIFY_COMMITMENT_ONLY d = Some (True, d)" and "etchash_ok c'"
    and "etchash_ok d \<Longrightarrow> \<exists>d'. et_verdict b height params POW_VERIFY_FULL d = Some (True, d') \<and> etchash_ok d'"
proof -
  obtain h where full: "CheckProofOfWorkEtchash b height params POW_VERIFY_FULL False c = Some ((True, h), c')"
    using assms(2) by (auto simp: et_verdict_def)
  have "et_verdict b height params POW_VERIFY_COMMITMENT_ONLY d = Some (True, d) \<and> etchash_ok c' \<and>
    (etchash_ok d \<longrightarrow> (\<exists>d'. et_verdict b height params POW_VERIFY_FULL d = Some (True, d') \<and> etchash_ok d'))"
  proof (cases "uint256_IsNull (hashPrevBlock b)")
    case True
    then show ?thesis using full assms(1) by (auto simp: et_verdict_def CheckProofOfWorkEtchash_def)
  next
    case False
    then obtain T e where T: "DeriveTarget (hdr_nBits b) params = Some T" "GetEtchashEpoch height params = Some e" "\<not> e < 0"
      using full by (auto simp: CheckProofOfWorkEtchash_def bind_eq_Some_conv split: option.splits if_splits)
    obtain r where r: "etchash_result b e r" "etchash_judge b height params POW_VERIFY_FULL T r" "etchash_ok c'"
      using etchash_run_sound [OF assms(1) _ False T full] by auto
    have "\<exists>d'. et_verdict b height params POW_VERIFY_FULL d = Some (True, d') \<and> etchash_ok d'" if "etchash_ok d"
      using etchash_run_complete [OF that _ False T r(1), of POW_VERIFY_FULL False] r(2) by (auto simp: et_verdict_def)
    then show ?thesis
      using T False r by (auto simp: et_verdict_def CheckProofOfWorkEtchash_def etchash_judge_def)
  qed
  then show "et_verdict b height params POW_VERIFY_COMMITMENT_ONLY d = Some (True, d)" and "etchash_ok c'"
    and "etchash_ok d \<Longrightarrow> \<exists>d'. et_verdict b height params POW_VERIFY_FULL d = Some (True, d') \<and> etchash_ok d'" by blast+
qed

section \<open>What the header check accepts\<close>

lemma header_cases:
  assumes "CheckBlockHeader env b params True (Some p) c = Some (True, c')"
  obtains (et) "GetPowAlgoForHeader (nHeight p + 1) (hdr_nVersion b) params = Some Etchash"
      "et_verdict b (nHeight p + 1) params POW_VERIFY_FULL c = Some (True, c')"
  | (q) "GetPowAlgoForHeader (nHeight p + 1) (hdr_nVersion b) params = Some QHash" "q_verdict b params POW_VERIFY_FULL = Some True"
  | (rx) "GetPowAlgoForHeader (nHeight p + 1) (hdr_nVersion b) params \<in> {None, Some RandomX}"
      "rx_verdict env b params POW_VERIFY_FULL (nTime p) = Some True"
  using assms
  by (cases "GetPowAlgoForHeader (nHeight p + 1) (hdr_nVersion b) params" rule: option.exhaust [case_product PowAlgo.exhaust])
    (auto simp: CheckBlockHeader_def bind_eq_Some_conv i32_eq_Some Let_def split: if_splits elim: PowAlgo.exhaust)

lemma block_precheck:
  assumes "env_isRandomX env" "etchash_ok c" "CheckBlockHeader env b params True (Some p) c = Some (True, c')" "0 \<le> nHeight p"
  shows "CheckBlock_pow env b params True (nHeight p + 1) d = Some (True, d)"
  using assms(3)
proof (cases rule: header_cases)
  case et
  then have "hdr_nVersion b AND BLOCK_VERSION_QHASH \<noteq> 0" by (auto simp: GetPowAlgoForHeader_def)
  then show ?thesis using et et_full_light(1) [OF assms(2)] assms(1) by (simp add: CheckBlock_pow_def)
next
  case q
  then have "hdr_nVersion b AND BLOCK_VERSION_QHASH \<noteq> 0" by (auto simp: GetPowAlgoForHeader_def)
  then show ?thesis using q assms(1) by (simp add: CheckBlock_pow_def q_full_light)
next
  case rx
  have "GetPowAlgoForHeader (nHeight p + 1) (hdr_nVersion b) params = Some RandomX"
    using rx(1) assms(4) by (auto simp: GetPowAlgoForHeader_def split: if_splits)
  then show ?thesis using rx_full_light [OF rx(2), of 0] assms(1) by (simp add: CheckBlock_pow_def)
qed

lemma batch_step:
  assumes "etchash_ok c" "CheckBlockHeader env b params True (Some p) c = Some (True, c')" "0 \<le> nHeight p" "etchash_ok d"
  shows "\<exists>d'. etchash_ok d' \<and> HasValidProofOfWork env (b # bs) params (nHeight p + 1) d =
    Option.bind (i32 (nHeight p + 1 + 1)) (\<lambda>h. HasValidProofOfWork env bs params h d')"
  using assms(2)
proof (cases rule: header_cases)
  case et
  then obtain d' where "et_verdict b (nHeight p + 1) params POW_VERIFY_FULL d = Some (True, d')" "etchash_ok d'"
    using et_full_light(3) [OF assms(1) et(2) assms(4)] by blast
  then show ?thesis using et assms(3) by auto
next
  case q
  then show ?thesis using assms(3,4) by (auto simp: q_full_light)
next
  case rx
  have "GetPowAlgoForHeader (nHeight p + 1) (hdr_nVersion b) params = Some RandomX"
    using rx(1) assms(3) by (auto simp: GetPowAlgoForHeader_def split: if_splits)
  then show ?thesis using rx_full_light [OF rx(2), of 0] assms(3,4) by auto
qed

text \<open>Consecutive headers that the header check accepts, whatever the caches hold.\<close>

fun accepted_run :: "('c, 'd, 'm) pow_env \<Rightarrow> Params \<Rightarrow> int \<Rightarrow> CBlockHeader list \<Rightarrow> bool" where
  "accepted_run env params h [] \<longleftrightarrow> True"
| "accepted_run env params h (b # bs) \<longleftrightarrow>
     (\<exists>p c c'. nHeight p + 1 = h \<and> etchash_ok c \<and> CheckBlockHeader env b params True (Some p) c = Some (True, c')) \<and>
     accepted_run env params (h + 1) bs"

lemma batch_precheck:
  "accepted_run env params h bs \<Longrightarrow> 0 < h \<Longrightarrow> h + int (length bs) \<le> INT32_MAX \<Longrightarrow> etchash_ok d \<Longrightarrow>
   \<exists>d'. HasValidProofOfWork env bs params h d = Some (True, d')"
proof (induction bs arbitrary: h d)
  case (Cons b bs)
  then obtain p c c' where p: "nHeight p + 1 = h" "etchash_ok c" "CheckBlockHeader env b params True (Some p) c = Some (True, c')"
    and rest: "accepted_run env params (h + 1) bs" by auto
  obtain d' where d': "etchash_ok d'" "HasValidProofOfWork env (b # bs) params h d =
      Option.bind (i32 (h + 1)) (\<lambda>h. HasValidProofOfWork env bs params h d')"
    using batch_step [OF p(2,3) _ Cons.prems(4), of bs] p(1) Cons.prems(2) by auto
  have "i32 (h + 1) = Some (h + 1)" using Cons.prems by (simp add: int_limits)
  then show ?case using Cons.IH [OF rest _ _ d'(1)] d'(2) Cons.prems by simp
qed simp

section \<open>What the solver produces\<close>

lemma rx_mined:
  assumes "CheckProofOfWorkRandomX (env_rx env) (env_getvm env) (env_isRandomX env) b params POW_VERIFY_MINING True t = Inr (True, h)"
    and "fPowRandomX params" "\<not> uint256_IsNull (the h)"
  shows "\<exists>r. h = Some r \<and> rx_verdict env (b\<lparr>hdr_hashRandomX := r\<rparr>) params POW_VERIFY_FULL t = Some True"
  using assms
  by (auto simp: rx_verdict_def CheckProofOfWorkRandomX_def rx_finish_def GetRandomXCommitment_def epoch_of_def serialize_claim Let_def
      split: if_splits option.splits)

lemma q_mined:
  assumes "CheckProofOfWorkQHash b params POW_VERIFY_MINING True = Some (True, h)" "\<not> uint256_IsNull (the h)"
  shows "\<exists>r. h = Some r \<and> q_verdict (b\<lparr>hdr_hashRandomX := r\<rparr>) params POW_VERIFY_FULL = Some True"
  using assms
  by (auto simp: q_verdict_def CheckProofOfWorkQHash_def serialize_claim Let_def bind_eq_Some_conv split: if_splits option.splits)

lemma et_mined:
  assumes "etchash_ok c" "CheckProofOfWorkEtchash b height params POW_VERIFY_MINING True c = Some ((True, h), c')" "\<not> uint256_IsNull (the h)"
    and "etchash_ok d"
  shows "\<exists>r d'. h = Some r \<and> et_verdict (b\<lparr>hdr_hashRandomX := r\<rparr>) height params POW_VERIFY_FULL d = Some (True, d') \<and> etchash_ok d' \<and> etchash_ok c'"
proof (cases "uint256_IsNull (hashPrevBlock b)")
  case True
  then show ?thesis using assms by (auto simp: et_verdict_def CheckProofOfWorkEtchash_def)
next
  case False
  then obtain T e where T: "DeriveTarget (hdr_nBits b) params = Some T" "GetEtchashEpoch height params = Some e" "\<not> e < 0"
    using assms(2) by (auto simp: CheckProofOfWorkEtchash_def bind_eq_Some_conv split: option.splits if_splits)
  obtain r where r: "etchash_result b e r" "etchash_judge b height params POW_VERIFY_MINING T r" "h = Some r" "etchash_ok c'"
    using etchash_run_sound [OF assms(1) _ False T assms(2)] by auto
  let ?b = "b\<lparr>hdr_hashRandomX := r\<rparr>"
  have "etchash_judge ?b height params POW_VERIFY_FULL T r" using r(2,3) assms(3) by (simp add: etchash_judge_def)
  moreover have "etchash_result ?b e r" using r(1) by (simp add: etchash_result_claim)
  ultimately show ?thesis
    using etchash_run_complete [OF assms(4), of POW_VERIFY_FULL ?b params T height e r False] False T r(3,4) by (auto simp: et_verdict_def)
qed

text \<open>An attempt that succeeds gives a header that the header check accepts.\<close>

lemma try_nonce_accepted:
  assumes "etchash_ok c" "try_nonce env b params h t x c = Some (True, r, c')" "\<not> uint256_IsNull r" "fPowRandomX params"
    and "nHeight p + 1 = h" "t = nTime p" "0 \<le> nHeight p" "h \<le> INT32_MAX"
    and "hdr_nVersion b AND BLOCK_VERSION_QHASH \<noteq> 0 \<longrightarrow> nDualAlgoActivationHeight params \<le> h" "etchash_ok d"
  shows "\<exists>d'. CheckBlockHeader env (b\<lparr>hdr_hashRandomX := r\<rparr>) params True (Some p) d = Some (True, d')"
proof -
  let ?b = "b\<lparr>hdr_hashRandomX := r\<rparr>"
  have i: "i32 (nHeight p + 1) = Some h" using assms(5,7,8) by (simp add: int_limits)
  consider (et) "hdr_nVersion b AND BLOCK_VERSION_QHASH \<noteq> 0" "fDualAlgoEtchash params"
    | (q) "hdr_nVersion b AND BLOCK_VERSION_QHASH \<noteq> 0" "\<not> fDualAlgoEtchash params" | (rx) "hdr_nVersion b AND BLOCK_VERSION_QHASH = 0" by blast
  then show ?thesis
  proof cases
    case et
    obtain o' where o: "CheckProofOfWorkEtchash b h params POW_VERIFY_MINING True c = Some ((True, o'), c')" "r = (case o' of Some y \<Rightarrow> y | None \<Rightarrow> x)"
      using assms(2) et by (auto simp: try_nonce_def bind_eq_Some_conv)
    have "o' \<noteq> None" using o(1) by (auto simp: CheckProofOfWorkEtchash_def Let_def bind_eq_Some_conv split: if_splits option.splits)
    then have "\<exists>d'. et_verdict ?b h params POW_VERIFY_FULL d = Some (True, d')"
      using et_mined [OF assms(1) o(1) _ assms(10)] o(2) assms(3) by auto
    then show ?thesis using et assms(5,7,9) i by (auto simp: CheckBlockHeader_def GetPowAlgoForHeader_def)
  next
    case q
    obtain o' where o: "CheckProofOfWorkQHash b params POW_VERIFY_MINING True = Some (True, o')" "r = (case o' of Some y \<Rightarrow> y | None \<Rightarrow> x)"
      using assms(2) q by (auto simp: try_nonce_def bind_eq_Some_conv)
    have "o' \<noteq> None" using o(1) by (auto simp: CheckProofOfWorkQHash_def Let_def bind_eq_Some_conv split: if_splits option.splits)
    then have "q_verdict ?b params POW_VERIFY_FULL = Some True" using q_mined [OF o(1)] o(2) assms(3) by auto
    then show ?thesis using q assms(5,7,9) i by (simp add: CheckBlockHeader_def GetPowAlgoForHeader_def)
  next
    case rx
    obtain o' where o: "CheckProofOfWorkRandomX (env_rx env) (env_getvm env) (env_isRandomX env) b params POW_VERIFY_MINING True t = Inr (True, o')"
        "r = (case o' of Some y \<Rightarrow> y | None \<Rightarrow> x)"
      using assms(2) rx by (auto simp: try_nonce_def split: sum.splits)
    have "o' \<noteq> None" using o(1) assms(4) by (auto simp: CheckProofOfWorkRandomX_def rx_finish_def Let_def split: if_splits option.splits)
    then have "rx_verdict env ?b params POW_VERIFY_FULL t = Some True" using rx_mined [OF o(1) assms(4)] o(2) assms(3) by auto
    then show ?thesis using rx assms(6) i by (simp add: CheckBlockHeader_def GetPowAlgoForHeader_def)
  qed
qed

lemma try_nonce_caches:
  assumes "etchash_ok c" "try_nonce env b params h t x c = Some (ok, r, c')"
  shows "etchash_ok c'"
proof (cases "hdr_nVersion b AND BLOCK_VERSION_QHASH \<noteq> 0 \<and> fDualAlgoEtchash params")
  case True
  then obtain o' where o: "CheckProofOfWorkEtchash b h params POW_VERIFY_MINING True c = Some ((ok, o'), c')"
    using assms(2) by (auto simp: try_nonce_def bind_eq_Some_conv)
  show ?thesis
  proof (cases "uint256_IsNull (hashPrevBlock b) \<or> DeriveTarget (hdr_nBits b) params = None \<or> (\<exists>e. GetEtchashEpoch h params = Some e \<and> e < 0)")
    case True
    then show ?thesis using o assms(1) by (auto simp: CheckProofOfWorkEtchash_def split: if_splits option.splits)
  next
    case False
    then obtain T e where "DeriveTarget (hdr_nBits b) params = Some T" "GetEtchashEpoch h params = Some e" "\<not> e < 0"
      using o by (auto simp: CheckProofOfWorkEtchash_def bind_eq_Some_conv split: option.splits if_splits)
    then show ?thesis using etchash_run_sound [OF assms(1) _ _ _ _ _ o] False by auto
  qed
next
  case False
  then show ?thesis using assms by (auto simp: try_nonce_def bind_eq_Some_conv split: if_splits sum.splits)
qed

lemma solve_loop_last:
  "solve_loop env params h t n b x c = Some (b', m, r, c') \<Longrightarrow> 0 < m \<Longrightarrow> hdr_nNonce b' \<noteq> 0xffffffff \<Longrightarrow> etchash_ok c \<Longrightarrow>
   hdr_nVersion b' = hdr_nVersion b \<and> (\<exists>x1 c1. etchash_ok c1 \<and> try_nonce env b' params h t x1 c1 = Some (True, r, c'))"
proof (induction n arbitrary: b x c)
  case (Suc n)
  show ?case
  proof (cases "hdr_nNonce b < 0xffffffff")
    case True
    then obtain ok x1 c1 where s: "try_nonce env b params h t x c = Some (ok, x1, c1)"
      "if ok then (b', m, r, c') = (b, Suc n, x1, c1)
       else solve_loop env params h t n (b\<lparr>hdr_nNonce := hdr_nNonce b + 1\<rparr>) x1 c1 = Some (b', m, r, c')"
      using Suc.prems(1) by (auto simp: bind_eq_Some_conv split: if_splits)
    show ?thesis
    proof (cases ok)
      case True
      then show ?thesis using s Suc.prems(4) by auto
    next
      case False
      then show ?thesis
        using s Suc.IH [of "b\<lparr>hdr_nNonce := hdr_nNonce b + 1\<rparr>" x1 c1] Suc.prems(2,3) try_nonce_caches [OF Suc.prems(4) s(1)] by auto
    qed
  next
    case False
    have "hdr_nNonce b \<le> 0xffffffff" using u32_bound [of "hdr_nNonce b"] by (simp add: word_le_nat_alt)
    then show ?thesis using False Suc.prems by auto
  qed
qed simp

lemma mined_header:
  assumes "GenerateBlock_solve env params (Some p) intr n b0 c = Some (True, Some b, c')" "etchash_ok c" "etchash_ok d"
    and "\<not> uint256_IsNull (hdr_hashRandomX b)" "fPowRandomX params" "0 \<le> nHeight p"
    and "hdr_nVersion b0 AND BLOCK_VERSION_QHASH \<noteq> 0 \<longrightarrow> nDualAlgoActivationHeight params \<le> nHeight p + 1"
  shows "\<exists>d'. CheckBlockHeader env b params True (Some p) d = Some (True, d')"
proof -
  obtain b1 m r where s: "solve_loop env params (nHeight p + 1) (nTime p) n b0 uint256_null c = Some (b1, m, r, c')"
    "0 < m" "hdr_nNonce b1 \<noteq> 0xffffffff" "b = b1\<lparr>hdr_hashRandomX := r\<rparr>" and i: "nHeight p + 1 \<le> INT32_MAX"
    using assms(1) by (auto simp: GenerateBlock_solve_def bind_eq_Some_conv Let_def i32_eq_Some split: if_splits)
  obtain x1 c1 where t: "etchash_ok c1" "try_nonce env b1 params (nHeight p + 1) (nTime p) x1 c1 = Some (True, r, c')" "hdr_nVersion b1 = hdr_nVersion b0"
    using solve_loop_last [OF s(1-3) assms(2)] by blast
  show ?thesis
    using try_nonce_accepted [OF t(1,2) _ assms(5) refl refl assms(6) i _ assms(3)] s(4) assms(4,7) t(3) by simp
qed

end
