(* ===== verification/Pow_Work.thy ===== *)
theory Pow_Work
  imports Pow
begin

text \<open>
  What the difficulty rules compute: the count behind the dual-algorithm schedule, the exact target of
  each algorithm, that every required field is a valid target, and that the presync check admits every
  legacy retarget.
\<close>

unbundle bit_operations_syntax

section \<open>Targets\<close>

definition limit_of :: "Params \<Rightarrow> nat" where
  "limit_of params = val (UintToArith256 (powLimit params))"

lemma length_UintToArith256 [simp]: "length (UintToArith256 a) = 8"
  by (simp add: UintToArith256_def)

lemma DeriveTarget_eq:
  "DeriveTarget c params = (if fst (snd (SetCompact c)) \<or> val (fst (SetCompact c)) = 0 \<or> snd (snd (SetCompact c)) \<or>
     limit_of params < val (fst (SetCompact c)) then None else Some (fst (SetCompact c)))"
  by (auto simp: DeriveTarget_def limit_of_def split_beta EqualTo_val)

lemma compact_valid:
  assumes "length a = 8" "0 < val a" "val a \<le> limit_of params"
  shows "\<exists>c. GetCompact a False = Some c \<and> DeriveTarget c params = Some (fst (SetCompact c)) \<and> val (fst (SetCompact c)) = cround (val a)"
proof -
  obtain c where c: "GetCompact a False = Some c" using GetCompact_Some [OF assms(1)] by blast
  note s = SetCompact_GetCompact [OF assms(1) c]
  have "0 < cround (val a)" "cround (val a) \<le> limit_of params"
    using cround_pos [OF assms(2)] cround_le [of "val a"] assms(3) by auto
  then show ?thesis using c s by (simp add: DeriveTarget_eq)
qed

section \<open>Counting the blocks of the second algorithm\<close>

text \<open>The distances from a block to its ancestors of the second algorithm, from the activation height on.\<close>

definition second_at :: "block_map \<Rightarrow> int \<Rightarrow> bytes \<Rightarrow> nat set" where
  "second_at bm act p = {k. \<exists>q j. parents bm k p = Some q \<and> bm q = Some j \<and> act \<le> nHeight j \<and> second_algo j}"

lemma parents_pos:
  assumes "index_ok bm" "bm p = Some i" "parents bm k p = Some q" "bm q = Some j"
  shows "nHeight j = nHeight i - int k"
  using assms
proof (induction k arbitrary: p i)
  case (Suc k)
  obtain q' where q': "pprev i = Some q'" "parents bm k q' = Some q" using Suc.prems by (auto simp: bind_eq_Some_conv)
  obtain j' where j': "bm q' = Some j'" "nHeight i = nHeight j' + 1"
    using index_okD [OF Suc.prems(1,2)] q'(1) by (auto simp: entry_ok_def)
  then show ?case using Suc.IH [OF Suc.prems(1) j'(1) q'(2) Suc.prems(4)] by simp
qed simp

lemma second_at_low: "index_ok bm \<Longrightarrow> bm p = Some i \<Longrightarrow> nHeight i < act \<Longrightarrow> second_at bm act p = {}"
  using parents_pos by (fastforce simp: second_at_def)

lemma second_at_bound:
  assumes "index_ok bm" "bm p = Some i"
  shows "second_at bm act p \<subseteq> {..nat (nHeight i - act)}"
  using parents_pos [OF assms] by (fastforce simp: second_at_def)

lemma finite_second_at: "index_ok bm \<Longrightarrow> bm p = Some i \<Longrightarrow> finite (second_at bm act p)"
  by (rule finite_subset [OF second_at_bound [where bm = bm and p = p and i = i]]) simp_all

lemma second_at_0: "bm p = Some i \<Longrightarrow> 0 \<in> second_at bm act p \<longleftrightarrow> act \<le> nHeight i \<and> second_algo i"
  by (simp add: second_at_def)

lemma second_at_Suc:
  assumes "bm p = Some i"
  shows "Suc k \<in> second_at bm act p \<longleftrightarrow> (case pprev i of None \<Rightarrow> False | Some q \<Rightarrow> k \<in> second_at bm act q)"
  using assms by (cases "pprev i") (simp_all add: second_at_def)

lemma second_at_step:
  assumes "bm p = Some i" "act \<le> nHeight i"
  shows "second_at bm act p =
    (if second_algo i then {0} else {}) \<union> (case pprev i of None \<Rightarrow> {} | Some q \<Rightarrow> Suc ` second_at bm act q)" (is "?L = ?R")
proof (rule set_eqI)
  fix k
  show "k \<in> ?L \<longleftrightarrow> k \<in> ?R"
  proof (cases k)
    case 0
    then show ?thesis
      unfolding 0 second_at_0 [where bm = bm, OF assms(1)] using assms(2) by (cases "pprev i") auto
  next
    case (Suc m)
    then show ?thesis
      unfolding Suc second_at_Suc [where bm = bm, OF assms(1)] by (cases "pprev i") auto
  qed
qed

lemma card_second_at:
  assumes "index_ok bm" "bm p = Some i" "act \<le> nHeight i"
  shows "int (card (second_at bm act p)) =
    (case pprev i of None \<Rightarrow> 0 | Some q \<Rightarrow> int (card (second_at bm act q))) + (if second_algo i then 1 else 0)"
proof (cases "pprev i")
  case None
  then show ?thesis using second_at_step [of bm p i act] assms(2,3) by simp
next
  case (Some q)
  then obtain j where "bm q = Some j" using index_okD [OF assms(1,2)] by (auto simp: entry_ok_def)
  then have "finite (second_at bm act q)" using finite_second_at [where bm = bm, OF assms(1)] by simp
  then have "card (Suc ` second_at bm act q) = card (second_at bm act q)" "0 \<notin> Suc ` second_at bm act q" "finite (Suc ` second_at bm act q)"
    by (auto intro: card_image)
  then show ?thesis using second_at_step [of bm p i act] assms(2,3) Some by (auto simp: card_insert_if)
qed

lemma card_second_le:
  assumes "index_ok bm" "bm p = Some i" "act \<le> nHeight i + 1"
  shows "int (card (second_at bm act p)) \<le> nHeight i - act + 1"
proof (cases "nHeight i < act")
  case True
  then show ?thesis using second_at_low [OF assms(1,2)] assms(3) by simp
next
  case False
  have "card (second_at bm act p) \<le> card {..nat (nHeight i - act)}"
    using card_mono [OF _ second_at_bound [OF assms(1,2)]] by simp
  then show ?thesis using False by simp
qed

text \<open>The stored count, and the walk, give its cardinality.\<close>

lemma stored_count:
  assumes "index_ok bm" "\<And>p i. bm p = Some i \<Longrightarrow> totals_ok act bm i"
  shows "bm p = Some i \<Longrightarrow> nSecondAlgoCount i = int (card (second_at bm act p))"
proof (induction "nat (nHeight i)" arbitrary: p i rule: less_induct)
  case less
  note t = assms(2) [OF less.prems]
  show ?case
  proof (cases "nHeight i < act")
    case True
    then show ?thesis using t second_at_low [OF assms(1) less.prems True] by (simp add: totals_ok_def)
  next
    case False
    then have act: "act \<le> nHeight i" by simp
    show ?thesis
    proof (cases "pprev i")
      case None
      then show ?thesis using t False card_second_at [OF assms(1) less.prems act] by (simp add: totals_ok_def prev_entry_def)
    next
      case (Some q)
      then obtain j where j: "bm q = Some j" "nHeight i = nHeight j + 1" "0 \<le> nHeight j"
        using index_okD [OF assms(1) less.prems] height_nonneg [OF assms(1)] by (fastforce simp: entry_ok_def)
      then have "nSecondAlgoCount j = int (card (second_at bm act q))" using less.hyps [of j q] by simp
      then show ?thesis using t False Some j card_second_at [OF assms(1) less.prems act] by (simp add: totals_ok_def prev_entry_def)
    qed
  qed
qed

lemma count_walk_run:
  assumes "index_ok bm"
  shows "bm p = Some i \<Longrightarrow> 0 \<le> acc \<Longrightarrow> acc + nHeight i + 1 \<le> INT64_MAX \<Longrightarrow>
    count_walk bm act (Some p) acc = Some (acc + int (card (second_at bm act p)))"
proof (induction "nat (nHeight i)" arbitrary: p i acc rule: less_induct)
  case less
  have nn: "0 \<le> nHeight i" using height_nonneg [OF assms less.prems(1)] .
  show ?case
  proof (cases "nHeight i < act")
    case True
    then show ?thesis using less.prems(1) second_at_low [OF assms less.prems(1) True] by (subst count_walk.simps) simp
  next
    case False
    then have act: "act \<le> nHeight i" by simp
    define c where "c = acc + (if second_algo i then 1 else 0)"
    have c: "(if idx_nVersion i AND BLOCK_VERSION_QHASH \<noteq> 0 then i64 (acc + 1) else Some acc) = Some c"
      using less.prems(2,3) nn by (simp add: c_def second_algo_def int_limits)
    have w: "count_walk bm act (Some p) acc = count_walk bm act (pprev i) c"
      using less.prems(1) act c by (subst count_walk.simps) (simp del: i64_Some)
    show ?thesis
    proof (cases "pprev i")
      case None
      then show ?thesis unfolding w using card_second_at [OF assms less.prems(1) act]
        by (subst count_walk.simps) (simp add: c_def)
    next
      case (Some q)
      then obtain j where j: "bm q = Some j" "nHeight i = nHeight j + 1" "0 \<le> nHeight j"
        using index_okD [OF assms less.prems(1)] height_nonneg [OF assms] by (fastforce simp: entry_ok_def)
      have "count_walk bm act (Some q) c = Some (c + int (card (second_at bm act q)))"
        using less.hyps [of j q c] j less.prems(2,3) by (simp add: c_def)
      then show ?thesis unfolding w using Some card_second_at [OF assms less.prems(1) act] by (simp add: c_def)
    qed
  qed
qed

section \<open>The two schedules\<close>

text \<open>Parameters under which no operation of the rules overflows.\<close>

definition schedule_params :: "Params \<Rightarrow> bool" where
  "schedule_params params \<longleftrightarrow> 0 < limit_of params \<and> 0 \<le> nPowTargetSpacing params \<and> nPowTargetSpacing params \<le> 2 ^ 40 \<and>
     0 \<le> nDualAlgoTargetSpacing params \<and> nDualAlgoTargetSpacing params \<le> INT64_MAX \<and>
     0 < nASERTHalfLife params \<and> nASERTHalfLife params \<le> INT64_MAX \<and> 0 < nDualAlgoActivationHeight params \<and>
     nDualAlgoActivationHeight params \<le> INT32_MAX"

lemma time_bound: "0 \<le> GetBlockTime i" "GetBlockTime i < 2 ^ 32"
  using unsigned_less [of "nTime i", where 'a = int] by (simp_all add: GetBlockTime_def)

definition dual_ref :: "u32 \<Rightarrow> nat \<Rightarrow> nat" where
  "dual_ref c limit = min limit (max 1 (cval c mod 2 ^ 256 div 2))"

lemma dual_ref_target_val:
  "length (dual_ref_target c (UintToArith256 l)) = 8 \<and>
   val (dual_ref_target c (UintToArith256 l)) = dual_ref c (val (UintToArith256 l))"
  by (auto simp: dual_ref_target_def dual_ref_def Let_def EqualTo_val val_shr val_SetCompact val_of_u64 min_def max_def)

lemma late_block_total: "schedule_params params \<Longrightarrow> \<exists>v. late_block params i b = Some v"
  using time_bound [of i] by (auto simp: late_block_def schedule_params_def int_limits)

text \<open>A call of \<open>CalculateASERT\<close> within the bounds, encoded.\<close>

lemma asert_encoded:
  assumes "length T = 8" "0 < val T" "val T \<le> limit_of params" "0 \<le> spacing" "spacing \<le> INT64_MAX"
    and "INT64_MIN \<le> td" "td \<le> 2 ^ 62 - 1" "0 \<le> ht" "ht < INT64_MAX" "0 < hl" "hl \<le> INT64_MAX"
  shows "\<exists>c r. CalculateASERT T spacing td ht (UintToArith256 (powLimit params)) hl = Some r \<and> GetCompact r False = Some c \<and>
    DeriveTarget c params = Some (fst (SetCompact c)) \<and>
    val (fst (SetCompact c)) = cround (asert_spec (val T) (limit_of params) (td - spacing * (ht + 1)) hl)"
proof -
  have "asert_inputs T spacing td ht (UintToArith256 (powLimit params)) hl"
    using assms by (simp add: asert_inputs_def limit_of_def int_limits)
  then obtain r where r: "CalculateASERT T spacing td ht (UintToArith256 (powLimit params)) hl = Some r" "length r = 8"
    "val r = asert_spec (val T) (limit_of params) (td - spacing * (ht + 1)) hl"
    using CalculateASERT_val unfolding limit_of_def by blast
  have "0 < limit_of params" using assms(2,3) by simp
  then have "0 < val r" "val r \<le> limit_of params" unfolding r(3) by (rule asert_spec_bounds)+
  then show ?thesis using compact_valid [OF r(2)] r(1,3) by fastforce
qed

lemma GetCompact_limit:
  assumes "0 < limit_of params"
  shows "\<exists>c. GetCompact (UintToArith256 (powLimit params)) False = Some c \<and> DeriveTarget c params \<noteq> None"
  using compact_valid [of "UintToArith256 (powLimit params)" params] assms by (auto simp: limit_of_def)

text \<open>The count that is known for an entry: stored, or marked as unknown.\<close>

definition count_known :: "block_map \<Rightarrow> int \<Rightarrow> bytes \<Rightarrow> CBlockIndex \<Rightarrow> bool" where
  "count_known bm act p i \<longleftrightarrow> nSecondAlgoCount i < 0 \<or> nSecondAlgoCount i = int (card (second_at bm act p))"

lemma count_known_run:
  assumes "index_ok bm" "bm p = Some i" "count_known bm act p i" "nHeight i < INT32_MAX"
  shows "(if nSecondAlgoCount i < 0 then count_walk bm act (Some p) 0 else Some (nSecondAlgoCount i)) =
    Some (int (card (second_at bm act p)))"
  using count_walk_run [where bm = bm and p = p and i = i and acc = 0 and act = act] assms by (auto simp: count_known_def int_limits)

definition own_blocks :: "block_map \<Rightarrow> int \<Rightarrow> bytes \<Rightarrow> CBlockIndex \<Rightarrow> bool \<Rightarrow> int" where
  "own_blocks bm act p i fQhash =
     (let s = int (card (second_at bm act p)) in if fQhash then s else nHeight i - act + 1 - s)"

lemma dual_schedule:
  assumes ok: "index_ok bm" "bm p = Some i" and par: "schedule_params params" and hi: "nHeight i < INT32_MAX"
    and cnt: "count_known bm (nDualAlgoActivationHeight params) p i" and act: "nDualAlgoActivationHeight params \<le> nHeight i + 1"
  obtains a anchor where "parents bm (nat (nHeight i - (nDualAlgoActivationHeight params - 1))) p = Some a" "bm a = Some anchor"
    and "\<exists>c. GetDualAlgoWorkRequired bm p pblock params fQhash = Some c \<and> DeriveTarget c params \<noteq> None"
    and "\<not> fPowNoRetargeting params \<Longrightarrow> \<not> fPowAllowMinDifficultyBlocks params \<Longrightarrow>
      \<exists>c. GetDualAlgoWorkRequired bm p pblock params fQhash = Some c \<and> DeriveTarget c params = Some (fst (SetCompact c)) \<and>
        val (fst (SetCompact c)) = cround (asert_spec (dual_ref (nBits anchor) (limit_of params)) (limit_of params)
          (GetBlockTime i - GetBlockTime anchor -
            nDualAlgoTargetSpacing params * (own_blocks bm (nDualAlgoActivationHeight params) p i fQhash + 1)) (nASERTHalfLife params))"
proof -
  let ?act = "nDualAlgoActivationHeight params" and ?lim = "UintToArith256 (powLimit params)"
  have a0: "0 \<le> ?act - 1" "?act - 1 \<le> nHeight i" "?act > 0" using act par by (auto simp: schedule_params_def)
  obtain a anchor where a: "GetAncestor bm p (?act - 1) = Some (Some a)" "bm a = Some anchor"
    using GetAncestor_parents(2) [where bm = bm, OF ok a0(1,2)] by blast
  have pa: "parents bm (nat (nHeight i - (?act - 1))) p = Some a"
    using GetAncestor_parents(1) [where bm = bm, OF ok, of "?act - 1"] a(1) a0 by simp
  let ?T = "dual_ref_target (nBits anchor) ?lim"
  have T: "length ?T = 8" "val ?T = dual_ref (nBits anchor) (limit_of params)"
    using dual_ref_target_val [of "nBits anchor" "powLimit params"] by (auto simp: limit_of_def)
  have Tb: "0 < val ?T" "val ?T \<le> limit_of params" using par unfolding T(2) by (auto simp: dual_ref_def schedule_params_def)
  let ?k = "own_blocks bm ?act p i fQhash"
  have s: "int (card (second_at bm ?act p)) \<le> nHeight i - ?act + 1" using card_second_le [where bm = bm, OF ok act] .
  have k: "0 \<le> ?k" "?k < INT64_MAX" using s hi a0(3) height_nonneg [where bm = bm, OF ok] unfolding own_blocks_def Let_def
    by (auto simp: int_limits)
  have td: "INT64_MIN \<le> GetBlockTime i - GetBlockTime anchor" "GetBlockTime i - GetBlockTime anchor \<le> 2 ^ 62 - 1"
    using time_bound [of i] time_bound [of anchor] by (auto simp: int_limits)
  obtain c r where c: "CalculateASERT ?T (nDualAlgoTargetSpacing params) (GetBlockTime i - GetBlockTime anchor) ?k ?lim (nASERTHalfLife params) = Some r"
    "GetCompact r False = Some c" "DeriveTarget c params = Some (fst (SetCompact c))"
    "val (fst (SetCompact c)) = cround (asert_spec (val ?T) (limit_of params)
       (GetBlockTime i - GetBlockTime anchor - nDualAlgoTargetSpacing params * (?k + 1)) (nASERTHalfLife params))"
    using asert_encoded [OF T(1) Tb _ _ td k, of "nDualAlgoTargetSpacing params" "nASERTHalfLife params"] par
    unfolding schedule_params_def by blast
  have i64td: "i64 (GetBlockTime i - GetBlockTime anchor) = Some (GetBlockTime i - GetBlockTime anchor)"
    using td by (intro i64_Some) (auto simp: int_limits)
  have tot: "i32 (nHeight i - (?act - 1)) = Some (nHeight i - ?act + 1)"
    using a0 hi by (simp add: int_limits)
  have kd: "(if fQhash then Some (int (card (second_at bm ?act p))) else i64 (nHeight i - ?act + 1 - int (card (second_at bm ?act p)))) = Some ?k"
    using k by (auto simp: own_blocks_def Let_def int_limits)
  note run = GetDualAlgoWorkRequired_def ok(2) a count_known_run [where bm = bm, OF ok cnt hi] tot kd i64td c(1,2) a0(3)
  show thesis
  proof (rule that [OF pa a(2)])
    assume "\<not> fPowNoRetargeting params" "\<not> fPowAllowMinDifficultyBlocks params"
    then have "GetDualAlgoWorkRequired bm p pblock params fQhash = Some c" by (simp add: run)
    then show "\<exists>c. GetDualAlgoWorkRequired bm p pblock params fQhash = Some c \<and> DeriveTarget c params = Some (fst (SetCompact c)) \<and>
        val (fst (SetCompact c)) = cround (asert_spec (dual_ref (nBits anchor) (limit_of params)) (limit_of params)
          (GetBlockTime i - GetBlockTime anchor - nDualAlgoTargetSpacing params * (?k + 1)) (nASERTHalfLife params))"
      using c(3,4) T(2) by auto
  next
    obtain cl where cl: "GetCompact ?lim False = Some cl" "DeriveTarget cl params \<noteq> None"
      using GetCompact_limit [of params] par by (auto simp: schedule_params_def)
    obtain ct where ct: "GetCompact ?T False = Some ct" "DeriveTarget ct params \<noteq> None"
      using compact_valid [OF T(1) Tb] by auto
    have "\<exists>v. (if fPowAllowMinDifficultyBlocks params then case pblock of Some b \<Rightarrow> late_block params i b | None \<Rightarrow> Some False else Some False) = Some v"
      using late_block_total [OF par] by (auto split: option.splits)
    then obtain v where "(if fPowAllowMinDifficultyBlocks params then case pblock of Some b \<Rightarrow> late_block params i b | None \<Rightarrow> Some False else Some False) = Some v" ..
    then show "\<exists>c. GetDualAlgoWorkRequired bm p pblock params fQhash = Some c \<and> DeriveTarget c params \<noteq> None"
      using cl ct c(3) by (cases "fPowNoRetargeting params"; cases v) (auto simp: run Let_def)
  qed
qed

text \<open>The schedule from a hardcoded anchor.\<close>

definition anchor_ok :: "Params \<Rightarrow> CBlockIndex \<Rightarrow> ASERTAnchor \<Rightarrow> bool" where
  "anchor_ok params i a \<longleftrightarrow> DeriveTarget (anchor_nBits a) params \<noteq> None \<and> 0 \<le> anchor_nHeight a \<and> anchor_nHeight a \<le> nHeight i \<and>
     0 \<le> anchor_nPrevBlockTime a \<and> anchor_nPrevBlockTime a < 2 ^ 62"

lemma anchor_schedule:
  assumes par: "schedule_params params" and a: "anchor_ok params i a" and hi: "nHeight i < INT32_MAX"
    and blk: "fPowAllowMinDifficultyBlocks params \<longrightarrow> pblock \<noteq> None"
  shows "\<exists>c. GetNextASERTWorkRequired_at i pblock params a = Some c \<and> DeriveTarget c params \<noteq> None"
proof -
  let ?lim = "UintToArith256 (powLimit params)" and ?T = "fst (SetCompact (anchor_nBits a))"
  let ?td = "GetBlockTime i - anchor_nPrevBlockTime a" and ?k = "nHeight i - anchor_nHeight a"
  have T: "length ?T = 8" "0 < val ?T" "val ?T \<le> limit_of params"
    using a by (auto simp: anchor_ok_def DeriveTarget_eq split: if_splits)
  have td: "INT64_MIN \<le> ?td" "?td \<le> 2 ^ 62 - 1" and k: "0 \<le> ?k" "?k < INT64_MAX" "i32 ?k = Some ?k"
    using a hi time_bound [of i] by (auto simp: anchor_ok_def int_limits)
  have i: "i64 ?td = Some ?td" using td by (intro i64_Some) (auto simp: int_limits)
  obtain c r where c: "CalculateASERT ?T (nPowTargetSpacing params) ?td ?k ?lim (nASERTHalfLife params) = Some r" "GetCompact r False = Some c"
    "DeriveTarget c params = Some (fst (SetCompact c))"
    using asert_encoded [OF T _ _ td k(1,2), of "nPowTargetSpacing params" "nASERTHalfLife params"] par
    by (auto simp: schedule_params_def int_limits)
  obtain cl where cl: "GetCompact ?lim False = Some cl" "DeriveTarget cl params \<noteq> None"
    using GetCompact_limit [of params] par by (auto simp: schedule_params_def)
  obtain v where "(if fPowAllowMinDifficultyBlocks params then Option.bind pblock (late_block params i) else Some False) = Some v"
    using late_block_total [OF par, of i] blk by (cases "fPowAllowMinDifficultyBlocks params"; cases pblock) (simp_all, blast)
  moreover have "anchor_nHeight a \<le> nHeight i" using a by (simp add: anchor_ok_def)
  ultimately show ?thesis
    using c cl k(3) i by (cases v) (auto simp: GetNextASERTWorkRequired_at_def Let_def)
qed

section \<open>The legacy retarget\<close>

lemma sdiv_pos: "0 \<le> a \<Longrightarrow> 0 < b \<Longrightarrow> a sdiv b = a div (b :: int)"
  by (cases "a = 0") (auto simp: signed_divide_int_def sgn_if)

lemma scale_target_val:
  assumes "length T = 8" "length L = 8" "0 < den" "den < 2 ^ 32" "0 \<le> num" "num < 2 ^ 32"
  shows "\<exists>r. scale_target T num den L = Some r \<and> length r = 8 \<and> val r = min (val L) (val T * nat num div nat den)"
proof -
  have b: "val T < 2 ^ 256" "val L < 2 ^ 256" using val_bound [of T] val_bound [of L] assms by simp_all
  have n: "unat (word_of_int num :: u32) = nat num" "unat (word_of_int den :: u64) = nat den"
    using assms by (auto simp: unat_eq_nat_uint uint_word_of_int)
  have "nat num * val T < 2 ^ 32 * 2 ^ 256" using assms b by (intro mult_strict_mono) (auto simp: nat_less_iff)
  then have m: "nat num * val T < 2 ^ 512" by simp
  have "val (mul32 (from_width 16 T) (word_of_int num)) = val T * nat num"
    using b m by (simp add: val_mul32 val_from_width n mult.commute)
  moreover have "val (of_u64 16 (word_of_int den)) = nat den" by (simp add: val_of_u64 n)
  ultimately obtain q where q: "div_uint (mul32 (from_width 16 T) (word_of_int num)) (of_u64 16 (word_of_int den)) = Some q"
    "length q = 16" "val q = val T * nat num div nat den"
    using div_uint_val [of "mul32 (from_width 16 T) (word_of_int num)" "of_u64 16 (word_of_int den)"] assms by auto
  then show ?thesis using b assms(2) by (auto simp: scale_target_def val_from_width min_def not_less)
qed

definition legacy_params :: "Params \<Rightarrow> bool" where
  "legacy_params params \<longleftrightarrow> 4 \<le> nPowTargetTimespan params \<and> 4 * nPowTargetTimespan params < 2 ^ 32 \<and>
     (fPowNoRetargeting params \<longrightarrow> fPowAllowMinDifficultyBlocks params)"

definition retarget_spec :: "Params \<Rightarrow> nat \<Rightarrow> int \<Rightarrow> nat" where
  "retarget_spec params T actual = (let ts = nPowTargetTimespan params in
     cround (min (limit_of params) (T * nat (max (ts div 4) (min (4 * ts) actual)) div nat ts)))"

lemma retarget_run:
  assumes "legacy_params params" "\<not> fPowNoRetargeting params" "i64 (GetBlockTime i - t) \<noteq> None"
  shows "\<exists>c. CalculateNextWorkRequired i t params = Some c \<and>
    val (fst (SetCompact c)) = retarget_spec params (val (fst (SetCompact (nBits i)))) (GetBlockTime i - t)"
proof -
  let ?ts = "nPowTargetTimespan params" and ?act = "GetBlockTime i - t" and ?T = "fst (SetCompact (nBits i))"
  have ts: "4 \<le> ?ts" "4 * ?ts < 2 ^ 32" "?ts sdiv 4 = ?ts div 4" "i64 (?ts * 4) = Some (4 * ?ts)"
    using assms(1) by (auto simp: legacy_params_def sdiv_pos int_limits)
  have q: "?ts div 4 \<le> 4 * ?ts" using ts(1) by simp
  let ?a = "max (?ts div 4) (min (4 * ?ts) ?act)"
  have ab: "0 \<le> ?a" "?a < 2 ^ 32" using ts q by (auto simp: max_def min_def)
  have ck: "(if (if ?act < ?ts div 4 then ?ts div 4 else ?act) > 4 * ?ts then 4 * ?ts else if ?act < ?ts div 4 then ?ts div 4 else ?act) = ?a"
    using q by (auto simp: max_def min_def)
  obtain r where r: "scale_target ?T ?a ?ts (UintToArith256 (powLimit params)) = Some r" "length r = 8"
    "val r = min (limit_of params) (val ?T * nat ?a div nat ?ts)"
    using scale_target_val [of ?T "UintToArith256 (powLimit params)" ?ts ?a] ts ab by (auto simp: limit_of_def)
  have act: "i64 ?act = Some ?act" using assms(3) by (simp add: i64_def split: if_splits)
  have run: "CalculateNextWorkRequired i t params = GetCompact r False"
    unfolding CalculateNextWorkRequired_def Let_def act ts(3,4) Option.bind.bind_lunit ck r(1) using assms(2) by simp
  obtain c where c: "GetCompact r False = Some c" using GetCompact_Some [OF r(2)] by blast
  show ?thesis using SetCompact_GetCompact(1) [OF r(2) c] unfolding run c r(3) retarget_spec_def Let_def by blast
qed

lemma retarget_val:
  assumes "legacy_params params" "\<not> fPowNoRetargeting params" "CalculateNextWorkRequired i t params = Some c"
  shows "val (fst (SetCompact c)) = retarget_spec params (val (fst (SetCompact (nBits i)))) (GetBlockTime i - t)"
proof -
  have "i64 (GetBlockTime i - t) \<noteq> None"
    using assms(2,3) by (cases "i64 (GetBlockTime i - t)") (simp_all add: CalculateNextWorkRequired_def)
  from retarget_run [OF assms(1,2) this] show ?thesis using assms(3) by auto
qed

lemma CompareTo_cap: "length a = 8 \<Longrightarrow> length L = 8 \<Longrightarrow> length (if CompareTo a L > 0 then L else a) = 8 \<and> val (if CompareTo a L > 0 then L else a) = min (val L) (val a)"
  by (auto simp: min_def)

text \<open>
  The smallest admitted target is computed in 256 bits, so the product may lose its high part, which only
  makes the bound lower.
\<close>

lemma permits_retarget:
  assumes leg: "legacy_params params" and iv: "DifficultyAdjustmentInterval params = Some d" "rem64 height d = Some 0"
    and c: "val (fst (SetCompact c)) = retarget_spec params (val (fst (SetCompact old))) actual"
  shows "PermittedDifficultyTransition params height old c = Some True"
proof -
  let ?ts = "nPowTargetTimespan params" and ?T = "fst (SetCompact old)" and ?L = "UintToArith256 (powLimit params)"
  have ts: "4 \<le> ?ts" "4 * ?ts < 2 ^ 32" "?ts sdiv 4 = ?ts div 4" "i64 (?ts * 4) = Some (4 * ?ts)"
    using leg by (auto simp: legacy_params_def sdiv_pos int_limits)
  let ?a = "max (?ts div 4) (min (4 * ?ts) actual)"
  have a: "nat (?ts div 4) \<le> nat ?a" "nat ?a \<le> nat (4 * ?ts)" using ts by (auto simp: max_def min_def)
  obtain r where r: "scale_target ?T (4 * ?ts) ?ts ?L = Some r" "length r = 8"
    "val r = min (limit_of params) (val ?T * nat (4 * ?ts) div nat ?ts)"
    using scale_target_val [of ?T ?L ?ts "4 * ?ts"] ts by (auto simp: limit_of_def)
  obtain cr where cr: "GetCompact r False = Some cr" using GetCompact_Some [OF r(2)] by blast
  have n: "unat (word_of_int (?ts div 4) :: u32) = nat (?ts div 4)" "unat (word_of_int ?ts :: u64) = nat ?ts"
    using ts by (auto simp: unat_eq_nat_uint uint_word_of_int)
  obtain s where s: "div_uint (mul32 ?T (word_of_int (?ts div 4))) (of_u64 8 (word_of_int ?ts)) = Some s" "length s = 8"
    "val s = nat (?ts div 4) * val ?T mod 2 ^ 256 div nat ?ts"
    using div_uint_val [of "mul32 ?T (word_of_int (?ts div 4))" "of_u64 8 (word_of_int ?ts)"] ts
    by (auto simp: val_mul32 val_of_u64 n)
  let ?s = "if CompareTo s ?L > 0 then ?L else s"
  have s': "length ?s = 8" "val ?s = min (limit_of params) (val s)" using CompareTo_cap [OF s(2), of ?L] by (auto simp: limit_of_def)
  obtain cs where cs: "GetCompact ?s False = Some cs" using GetCompact_Some [OF s'(1)] by blast
  have up: "val (fst (SetCompact c)) \<le> val (fst (SetCompact cr))"
    unfolding c SetCompact_GetCompact(1) [OF r(2) cr] r(3) retarget_spec_def Let_def
    by (intro cround_mono min.mono order_refl div_le_mono mult_le_mono a)
  have "val s \<le> val ?T * nat ?a div nat ?ts" unfolding s(3)
    using order_trans [OF mod_less_eq_dividend mult_le_mono [OF a(1) order_refl [of "val ?T"]]]
    by (intro div_le_mono) (simp only: mult.commute)
  then have lo: "val (fst (SetCompact cs)) \<le> val (fst (SetCompact c))"
    unfolding c SetCompact_GetCompact(1) [OF s'(1) cs] s'(2) retarget_spec_def Let_def
    by (intro cround_mono min.mono order_refl)
  show ?thesis
    using up lo by (simp add: PermittedDifficultyTransition_def iv Let_def ts(3,4) r(1) cr s(1) cs not_less del: CompareTo_gt)
qed

lemma permits_next:
  assumes leg: "legacy_params params" and g: "GetNextWorkRequired rx bm p pblock params = Some c" and i: "bm p = Some i"
    and dual: "nHeight i + 1 \<ge> nDualAlgoActivationHeight params \<longrightarrow>
      asertAnchorParams params \<noteq> None \<and> nHeight i + 1 \<ge> nASERTActivationHeight params"
  shows "PermittedDifficultyTransition params (nHeight i + 1) (nBits i) c = Some True"
proof (cases "fPowAllowMinDifficultyBlocks params \<or> asertAnchorParams params \<noteq> None \<and> nHeight i + 1 \<ge> nASERTActivationHeight params")
  case False
  then have nr: "\<not> fPowNoRetargeting params" using leg by (auto simp: legacy_params_def)
  have "\<not> nHeight i + 1 \<ge> nDualAlgoActivationHeight params" using dual False by blast
  then have "\<exists>d m. DifficultyAdjustmentInterval params = Some d \<and> rem64 (nHeight i + 1) d = Some m \<and>
      (m \<noteq> 0 \<and> c = nBits i \<or> m = 0 \<and> (\<exists>t. CalculateNextWorkRequired i t params = Some c))"
    using g i False by (auto simp: GetNextWorkRequired_def Let_def bind_eq_Some_conv i32_def split: if_splits option.splits)
  then obtain d m where d: "DifficultyAdjustmentInterval params = Some d" "rem64 (nHeight i + 1) d = Some m"
    "m \<noteq> 0 \<and> c = nBits i \<or> m = 0 \<and> (\<exists>t. CalculateNextWorkRequired i t params = Some c)" by blast
  show ?thesis
  proof (cases "m = 0")
    case True
    then obtain t where "CalculateNextWorkRequired i t params = Some c" using d(3) by auto
    then show ?thesis using permits_retarget [OF leg d(1)] d(2) True retarget_val [OF leg nr] by simp
  next
    case nz: False
    then show ?thesis using d False by (auto simp: PermittedDifficultyTransition_def)
  qed
qed (auto simp: PermittedDifficultyTransition_def)

end
