(* ===== verification/Chain_Active.thy ===== *)
theory Chain_Active
  imports Chain
begin

text \<open>
  The active chain and the searches over the block index of \<^verbatim>\<open>src/chain.cpp\<close>: \<open>CChain::SetTip\<close> leaves the
  path from the genesis block to the new tip, \<open>LastCommonAncestor\<close> and \<open>CChain::FindFork\<close> return the
  greatest common ancestor, and \<open>LocatorEntries\<close> ends with a list of logarithmic length. Each lemma
  shows that the loop returns.
\<close>

section \<open>Ancestors and paths\<close>

definition anc :: "block_map \<Rightarrow> bytes \<Rightarrow> bytes \<Rightarrow> bool" where
  "anc bm r p \<longleftrightarrow> (\<exists>k. parents bm k p = Some r)"

definition height_of :: "block_map \<Rightarrow> bytes \<Rightarrow> nat" where
  "height_of bm p = (case bm p of Some i \<Rightarrow> nat (nHeight i) | None \<Rightarrow> 0)"

text \<open>The path from height 0 to an entry.\<close>

definition path_to :: "block_map \<Rightarrow> bytes \<Rightarrow> vchain" where
  "path_to bm p = map (\<lambda>k. parents bm (height_of bm p - k) p) [0..<Suc (height_of bm p)]"

text \<open>The greatest common ancestor, or none.\<close>

definition gca :: "block_map \<Rightarrow> bytes \<Rightarrow> bytes \<Rightarrow> bytes option \<Rightarrow> bool" where
  "gca bm p q c \<longleftrightarrow> (case c of None \<Rightarrow> \<forall>r. \<not> (anc bm r p \<and> anc bm r q)
     | Some r \<Rightarrow> anc bm r p \<and> anc bm r q \<and> (\<forall>s. anc bm s p \<and> anc bm s q \<longrightarrow> anc bm s r))"

lemma no_parent:
  assumes "index_ok bm" and "bm p = Some i" and "nHeight i = 0"
  shows "pprev i = None"
proof (cases "pprev i")
  case (Some q)
  then obtain j where "bm q = Some j" "nHeight i = nHeight j + 1" using index_okD [OF assms(1,2)] by (auto simp: entry_ok_def)
  then show ?thesis using height_nonneg [OF assms(1)] assms(3) by fastforce
qed simp

lemma parents_top:
  assumes "index_ok bm" and "bm p = Some i" and "nHeight i < int k"
  shows "parents bm k p = None"
  using assms(2,3)
proof (induction k arbitrary: p i)
  case 0
  then show ?case using height_nonneg [OF assms(1)] by fastforce
next
  case (Suc k)
  show ?case
  proof (cases "pprev i")
    case None
    then show ?thesis using Suc.prems(1) by simp
  next
    case (Some q)
    then obtain j where "bm q = Some j" "nHeight i = nHeight j + 1"
      using index_okD [OF assms(1) Suc.prems(1)] by (auto simp: entry_ok_def)
    then show ?thesis using Suc Some by simp
  qed
qed

lemma parents_height:
  assumes "index_ok bm" and "bm p = Some i" and "parents bm k p = Some q"
  obtains j where "bm q = Some j" "nHeight j = nHeight i - int k" "int k \<le> nHeight i"
proof -
  have "\<not> nHeight i < int k" using parents_top [OF assms(1,2), of k] assms(3) by auto
  then show ?thesis using parents_ex [OF assms(1,2), of k] assms(3) that by auto
qed

lemma anc_refl [simp]: "anc bm p p"
  by (auto simp: anc_def intro: exI [of _ 0])

lemma anc_trans: "anc bm r q \<Longrightarrow> anc bm q p \<Longrightarrow> anc bm r p"
  unfolding anc_def by (metis Option.bind.simps(2) parents_add)

lemma anc_step:
  assumes "bm p = Some i"
  shows "anc bm r p \<longleftrightarrow> r = p \<or> (\<exists>q. pprev i = Some q \<and> anc bm r q)"
proof
  assume "anc bm r p"
  then obtain k where "parents bm k p = Some r" by (auto simp: anc_def)
  then show "r = p \<or> (\<exists>q. pprev i = Some q \<and> anc bm r q)"
    using assms by (cases k) (auto simp: anc_def bind_eq_Some_conv)
next
  assume "r = p \<or> (\<exists>q. pprev i = Some q \<and> anc bm r q)"
  then show "anc bm r p"
  proof
    assume "\<exists>q. pprev i = Some q \<and> anc bm r q"
    then obtain q k where "pprev i = Some q" "parents bm k q = Some r" by (auto simp: anc_def)
    then have "parents bm (Suc k) p = Some r" using assms by simp
    then show ?thesis unfolding anc_def by blast
  qed simp
qed

text \<open>Among the ancestors of an entry there is one of each height up to its own.\<close>

lemma anc_height:
  assumes "index_ok bm" and "bm p = Some i"
  shows "anc bm r p \<longleftrightarrow> (\<exists>j. bm r = Some j \<and> nHeight j \<le> nHeight i \<and> parents bm (nat (nHeight i - nHeight j)) p = Some r)"
proof
  assume "anc bm r p"
  then obtain k where k: "parents bm k p = Some r" by (auto simp: anc_def)
  obtain j where "bm r = Some j" "nHeight j = nHeight i - int k" by (rule parents_height [OF assms k])
  then show "\<exists>j. bm r = Some j \<and> nHeight j \<le> nHeight i \<and> parents bm (nat (nHeight i - nHeight j)) p = Some r"
    using k by auto
qed (auto simp: anc_def)

lemma anc_antisym:
  assumes "index_ok bm" and "bm p = Some i" and "anc bm r p" and "anc bm p r"
  shows "r = p"
proof -
  obtain j where j: "bm r = Some j" "nHeight j \<le> nHeight i" "parents bm (nat (nHeight i - nHeight j)) p = Some r"
    using assms(3) anc_height [OF assms(1,2)] by blast
  have "nHeight i \<le> nHeight j" using assms(2,4) anc_height [OF assms(1) j(1)] by auto
  then have "nat (nHeight i - nHeight j) = 0" by simp
  with j(3) show ?thesis by simp
qed

lemma gca_unique:
  assumes "index_ok bm" and "bm p = Some i" and "gca bm p q c" and "gca bm p q d"
  shows "c = d"
proof -
  have "r = s" if "c = Some r" "d = Some s" for r s
  proof -
    have "anc bm r p" "anc bm s p" "anc bm s r" "anc bm r s" using that assms(3,4) by (auto simp: gca_def)
    moreover from this obtain j where "bm s = Some j" using anc_height [OF assms(1,2)] by blast
    ultimately show ?thesis using anc_antisym [OF assms(1)] by blast
  qed
  then show ?thesis using assms(3,4) by (cases c; cases d) (auto simp: gca_def)
qed

section \<open>Setting the tip\<close>

text \<open>Below a height every entry of the vector is in its place and its parent is the one below.\<close>

definition low_ok :: "block_map \<Rightarrow> vchain \<Rightarrow> nat \<Rightarrow> bool" where
  "low_ok bm v h \<longleftrightarrow> (\<forall>k\<le>h. \<forall>q. v ! k = Some q \<longrightarrow>
     (\<exists>j. bm q = Some j \<and> nHeight j = int k \<and> (0 < k \<longrightarrow> v ! (k - 1) = pprev j)))"

lemma low_parents:
  assumes ok: "index_ok bm"
  shows "low_ok bm v h \<Longrightarrow> v ! h = Some p \<Longrightarrow> k \<le> h \<Longrightarrow> v ! k = parents bm (h - k) p"
proof (induction h arbitrary: p)
  case (Suc h)
  obtain j where j: "bm p = Some j" "nHeight j = int (Suc h)" "v ! h = pprev j"
    using Suc.prems(1) [unfolded low_ok_def, rule_format, OF le_refl Suc.prems(2)] by auto
  then obtain q where q: "pprev j = Some q" using parent_ex [OF ok j(1)] by fastforce
  have "low_ok bm v h" using Suc.prems(1) by (simp add: low_ok_def)
  then have "v ! k = parents bm (h - k) q" if "k \<le> h" using Suc.IH j(3) q that by simp
  then show ?case using Suc.prems(2,3) j(1) q by (cases "k = Suc h") (auto simp: Suc_diff_le)
qed simp

lemma SetTip_loop_run:
  assumes ok: "index_ok bm"
  shows "bm p = Some i \<Longrightarrow> nHeight i = int h \<Longrightarrow> h < length v \<Longrightarrow> low_ok bm v h \<Longrightarrow>
    \<exists>v'. SetTip_loop bm (Some p) v = Some v' \<and> length v' = length v \<and>
      (\<forall>k\<le>h. v' ! k = parents bm (h - k) p) \<and> (\<forall>k>h. v' ! k = v ! k)"
proof (induction h arbitrary: p i v)
  case 0
  have "pprev i = None" using no_parent [OF ok "0.prems"(1)] "0.prems"(2) by simp
  moreover have "v[0 := Some p] = v" if "v ! 0 = Some p" using that list_update_id [of v 0] by simp
  ultimately have "SetTip_loop bm (Some p) v = Some (v[0 := Some p])"
    using "0.prems"(1-3) by (subst SetTip_loop.simps) (simp add: SetTip_loop.simps [of bm None])
  then show ?case using "0.prems"(3) by simp
next
  case (Suc h)
  show ?case
  proof (cases "v ! Suc h = Some p")
    case True
    then show ?thesis using Suc.prems low_parents [OF ok Suc.prems(4) True] by (subst SetTip_loop.simps) simp
  next
    case False
    have "0 < nHeight i" using Suc.prems(2) by simp
    then obtain q j where q: "pprev i = Some q" "bm q = Some j" "nHeight j = nHeight i - 1"
      using parent_ex [OF ok Suc.prems(1)] by metis
    then have hj: "nHeight j = int h" using Suc.prems(2) by simp
    have "low_ok bm (v[Suc h := Some p]) h" using Suc.prems(4) by (auto simp: low_ok_def)
    then obtain v' where v': "SetTip_loop bm (Some q) (v[Suc h := Some p]) = Some v'" "length v' = length v"
      "\<And>k. k \<le> h \<Longrightarrow> v' ! k = parents bm (h - k) q" "\<And>k. h < k \<Longrightarrow> v' ! k = v[Suc h := Some p] ! k"
      using Suc.IH [OF q(2) hj, of "v[Suc h := Some p]"] Suc.prems(3) by auto
    have "SetTip_loop bm (Some p) v = Some v'"
      using Suc.prems False q(1) v'(1) by (subst SetTip_loop.simps) (simp add: nat_add_distrib)
    moreover have "v' ! k = parents bm (Suc h - k) p" if "k \<le> Suc h" for k
      using that v'(3) v'(4) [of "Suc h"] Suc.prems(1,3) q(1) by (cases "k = Suc h") (auto simp: Suc_diff_le)
    moreover have "v' ! k = v ! k" if "Suc h < k" for k using that v'(4) [of k] by simp
    ultimately show ?thesis using v'(2) by blast
  qed
qed

lemma height_of_eq: "index_ok bm \<Longrightarrow> bm p = Some i \<Longrightarrow> int (height_of bm p) = nHeight i"
  using height_nonneg by (simp add: height_of_def)

lemma length_path_to [simp]: "length (path_to bm p) = Suc (height_of bm p)"
  by (simp add: path_to_def)

lemma nth_path_to: "k \<le> height_of bm p \<Longrightarrow> path_to bm p ! k = parents bm (height_of bm p - k) p"
  by (simp add: path_to_def del: upt_Suc)

lemma low_ok_path:
  assumes "index_ok bm" and "bm t = Some i"
  shows "low_ok bm (path_to bm t) (height_of bm t)"
  unfolding low_ok_def
proof (intro allI impI)
  fix k q assume k: "k \<le> height_of bm t" and q: "path_to bm t ! k = Some q"
  then have r: "parents bm (height_of bm t - k) t = Some q" by (simp add: nth_path_to)
  obtain j where j: "bm q = Some j" "nHeight j = nHeight i - int (height_of bm t - k)"
    by (rule parents_height [OF assms r])
  have "path_to bm t ! (k - 1) = pprev j" if "0 < k"
  proof -
    have "height_of bm t - (k - 1) = height_of bm t - k + 1" using that k by simp
    then have "path_to bm t ! (k - 1) = parents bm (height_of bm t - k + 1) t" using k by (simp add: nth_path_to)
    also have "\<dots> = parents bm 1 q" unfolding parents_add r by simp
    also have "\<dots> = pprev j" using j(1) by (cases "pprev j") auto
    finally show ?thesis .
  qed
  then show "\<exists>j. bm q = Some j \<and> nHeight j = int k \<and> (0 < k \<longrightarrow> path_to bm t ! (k - 1) = pprev j)"
    using j k height_of_eq [OF assms] by auto
qed

text \<open>\<open>resize\<close> keeps the lower part and adds null pointers.\<close>

lemma low_ok_resize:
  assumes "\<And>h. h < length v \<Longrightarrow> low_ok bm v h" and "h < k"
  shows "low_ok bm (resize k v) h"
  unfolding low_ok_def
proof (intro allI impI)
  fix m q assume m: "m \<le> h" and q: "resize k v ! m = Some q"
  have r: "resize k v ! x = (if x < length v then v ! x else None)" if "x \<le> h" for x
    using that assms(2) by (auto simp: resize_def nth_append)
  have l: "m < length v" and vm: "v ! m = Some q" using m q r [of m] by (simp_all split: if_splits)
  have "resize k v ! (m - 1) = v ! (m - 1)" using m l r [of "m - 1"] by (auto split: if_splits)
  with vm show "\<exists>j. bm q = Some j \<and> nHeight j = int m \<and> (0 < m \<longrightarrow> resize k v ! (m - 1) = pprev j)"
    using assms(1) [OF l, unfolded low_ok_def, rule_format, OF le_refl vm] by auto
qed

lemma length_resize [simp]: "length (resize k v) = k"
  by (simp add: resize_def)

lemma SetTip_run:
  assumes ok: "index_ok bm" and b: "bm block = Some i" and v: "v = [] \<or> (\<exists>t \<in> dom bm. v = path_to bm t)"
  shows "SetTip bm block v = Some (path_to bm block)"
proof -
  let ?h = "height_of bm block"
  have h: "nHeight i = int ?h" using height_of_eq [OF ok b] by simp
  have "low_ok bm v m" if m: "m < length v" for m
  proof -
    obtain t j where "v = path_to bm t" "bm t = Some j" using v m by (cases "v = []") auto
    then show ?thesis using low_ok_path [OF ok, of t j] m by (auto simp: low_ok_def)
  qed
  then have "low_ok bm (resize (Suc ?h) v) ?h" using low_ok_resize by blast
  then obtain v' where v': "SetTip_loop bm (Some block) (resize (Suc ?h) v) = Some v'" "length v' = Suc ?h"
    "\<And>k. k \<le> ?h \<Longrightarrow> v' ! k = parents bm (?h - k) block"
    using SetTip_loop_run [OF ok b h, of "resize (Suc ?h) v"] by auto
  have "v' = path_to bm block" by (rule nth_equalityI) (use v' in \<open>auto simp: nth_path_to\<close>)
  moreover have "nat (nHeight i + 1) = Suc ?h" using h by simp
  ultimately show ?thesis using v'(1) b by (simp add: SetTip_def)
qed

section \<open>Common ancestors\<close>

lemma gca_commute: "gca bm p q c \<longleftrightarrow> gca bm q p c"
  by (auto simp: gca_def split: option.splits)

lemma gca_cong:
  assumes "\<And>x. (anc bm x p \<and> anc bm x q) = (anc bm x p' \<and> anc bm x q)"
  shows "gca bm p q c \<longleftrightarrow> gca bm p' q c"
  by (cases c) (simp_all only: gca_def option.case conj_assoc [symmetric] assms)

text \<open>An entry that is not an ancestor of the other may be replaced by its parent.\<close>

lemma gca_parent:
  assumes "bm p = Some i" and "\<not> anc bm p q"
  shows "pprev i = None \<Longrightarrow> gca bm p q None" and "pprev i = Some r \<Longrightarrow> gca bm r q c \<Longrightarrow> gca bm p q c"
proof -
  have s: "anc bm x p \<and> anc bm x q \<longleftrightarrow> (\<exists>y. pprev i = Some y \<and> anc bm x y) \<and> anc bm x q" for x
    using anc_step [where bm = bm and r = x, OF assms(1)] assms(2) by auto
  show "gca bm p q None" if "pprev i = None" using s that by (simp add: gca_def)
  show "gca bm p q c" if "pprev i = Some r" "gca bm r q c"
    using gca_cong [of bm p q r c] s that by simp
qed

lemma same_height_anc:
  assumes "index_ok bm" and "bm q = Some j" and "bm p = Some i" and "nHeight i = nHeight j" and "anc bm p q"
  shows "p = q"
  using assms(3-5) anc_height [OF assms(1,2), of p] by auto

lemma common_loop_run:
  assumes ok: "index_ok bm"
  shows "bm p = Some i \<Longrightarrow> bm q = Some j \<Longrightarrow> nHeight i = int h \<Longrightarrow> nHeight j = int h \<Longrightarrow>
    \<exists>c. common_loop bm (Some p) (Some q) = Some (c, c) \<and> gca bm p q c"
proof (induction h arbitrary: p q i j)
  case 0
  show ?case
  proof (cases "p = q")
    case True
    then show ?thesis by (subst common_loop.simps) (simp add: gca_def)
  next
    case False
    have n: "pprev i = None" "pprev j = None"
      using no_parent [OF ok "0.prems"(1)] no_parent [OF ok "0.prems"(2)] "0.prems"(3,4) by auto
    have "\<not> anc bm p q" using same_height_anc [OF ok "0.prems"(2,1)] "0.prems"(3,4) False by auto
    then have "gca bm p q None" using gca_parent(1) [where bm = bm, OF "0.prems"(1)] n by blast
    then show ?thesis using False n "0.prems"(1,2)
      by (subst common_loop.simps) (simp add: common_loop.simps [of bm None None])
  qed
next
  case (Suc h)
  show ?case
  proof (cases "p = q")
    case True
    then show ?thesis by (subst common_loop.simps) (simp add: gca_def)
  next
    case False
    have pos: "0 < nHeight i" "0 < nHeight j" using Suc.prems(3,4) by auto
    obtain p' i' where p': "pprev i = Some p'" "bm p' = Some i'" "nHeight i' = nHeight i - 1"
      using parent_ex [OF ok Suc.prems(1) pos(1)] by metis
    obtain q' j' where q': "pprev j = Some q'" "bm q' = Some j'" "nHeight j' = nHeight j - 1"
      using parent_ex [OF ok Suc.prems(2) pos(2)] by metis
    obtain c where c: "common_loop bm (Some p') (Some q') = Some (c, c)" "gca bm p' q' c"
      using Suc.IH [OF p'(2) q'(2)] p'(3) q'(3) Suc.prems(3,4) by auto
    have n: "\<not> anc bm p q" "\<not> anc bm q p"
      using same_height_anc [OF ok Suc.prems(2,1)] same_height_anc [OF ok Suc.prems(1,2)] Suc.prems(3,4) False by auto
    have "\<not> anc bm q p'" using n(2) anc_step [of bm p i q] Suc.prems(1) p'(1) by auto
    moreover have "gca bm q' p' c" using c(2) by (simp only: gca_commute [of bm q'])
    ultimately have "gca bm q p' c" using gca_parent(2) [where bm = bm, OF Suc.prems(2) _ q'(1)] by blast
    then have "gca bm p' q c" by (simp only: gca_commute [of bm p'])
    then have "gca bm p q c" by (rule gca_parent(2) [where bm = bm, OF Suc.prems(1) n(1) p'(1)])
    then show ?thesis using c(1) False p'(1) q'(1) Suc.prems(1,2) by (subst common_loop.simps) simp
  qed
qed

text \<open>An ancestor not below the other entry may replace the entry itself.\<close>

lemma gca_lift:
  assumes ok: "index_ok bm" and p: "bm p = Some i" and q: "bm q = Some j" and h: "nHeight j \<le> nHeight i"
    and r: "parents bm (nat (nHeight i - nHeight j)) p = Some r" and g: "gca bm r q c"
  shows "gca bm p q c"
proof -
  have rp: "anc bm r p" using r by (auto simp: anc_def)
  have "anc bm x r" if x: "anc bm x p" "anc bm x q" for x
  proof -
    obtain y where y: "bm x = Some y" "nHeight y \<le> nHeight j" using x(2) anc_height [OF ok q] by blast
    then have xp: "parents bm (nat (nHeight i - nHeight y)) p = Some x" using x(1) anc_height [OF ok p, of x] by auto
    have "nat (nHeight i - nHeight y) = nat (nHeight i - nHeight j) + nat (nHeight j - nHeight y)" using y h by simp
    then have "parents bm (nat (nHeight j - nHeight y)) r = Some x" using xp r by (simp add: parents_add)
    then show ?thesis by (auto simp: anc_def)
  qed
  moreover have "anc bm x p" if "anc bm x r" for x using anc_trans [OF that rp] .
  ultimately have "(anc bm x p \<and> anc bm x q) = (anc bm x r \<and> anc bm x q)" for x by blast
  from gca_cong [OF this] g show ?thesis by simp
qed

lemma ancestor_at:
  assumes "index_ok bm" and "bm p = Some i" and "0 \<le> h" and "h \<le> nHeight i"
  obtains r k where "GetAncestor bm p h = Some (Some r)" "parents bm (nat (nHeight i - h)) p = Some r"
    "bm r = Some k" "nHeight k = h"
proof -
  obtain r k where r: "GetAncestor bm p h = Some (Some r)" "bm r = Some k" "nHeight k = h"
    using GetAncestor_parents(2) [OF assms] by blast
  then have "parents bm (nat (nHeight i - h)) p = Some r" using GetAncestor_parents(1) [OF assms(1,2), of h] assms(3,4) by simp
  then show ?thesis using that r by blast
qed

lemma LastCommonAncestor_run:
  assumes ok: "index_ok bm" and p: "bm p = Some i" and q: "bm q = Some j"
  shows "\<exists>c. LastCommonAncestor bm p q = Some c \<and> gca bm p q c"
proof -
  have nn: "0 \<le> nHeight i" "0 \<le> nHeight j" using height_nonneg [OF ok] p q by auto
  consider "nHeight i > nHeight j" | "nHeight j > nHeight i" | "nHeight i = nHeight j" by linarith
  then show ?thesis
  proof cases
    case 1
    then have le: "nHeight j \<le> nHeight i" by simp
    obtain r k where r: "GetAncestor bm p (nHeight j) = Some (Some r)"
      "parents bm (nat (nHeight i - nHeight j)) p = Some r" "bm r = Some k" "nHeight k = nHeight j"
      by (rule ancestor_at [OF ok p nn(2) le])
    obtain c where c: "common_loop bm (Some r) (Some q) = Some (c, c)" "gca bm r q c"
      using common_loop_run [OF ok r(3) q, of "nat (nHeight j)"] r(4) nn by auto
    show ?thesis using gca_lift [OF ok p q le r(2) c(2)] c(1) r(1) 1 p q by (simp add: LastCommonAncestor_def)
  next
    case 2
    then have le: "nHeight i \<le> nHeight j" by simp
    obtain r k where r: "GetAncestor bm q (nHeight i) = Some (Some r)"
      "parents bm (nat (nHeight j - nHeight i)) q = Some r" "bm r = Some k" "nHeight k = nHeight i"
      by (rule ancestor_at [OF ok q nn(1) le])
    obtain c where c: "common_loop bm (Some p) (Some r) = Some (c, c)" "gca bm p r c"
      using common_loop_run [OF ok p r(3), of "nat (nHeight i)"] r(4) nn by auto
    have "gca bm p q c" using gca_lift [OF ok q p le r(2), of c] c(2) by (simp only: gca_commute [of bm p])
    then show ?thesis using c(1) r(1) 2 p q by (simp add: LastCommonAncestor_def)
  next
    case 3
    then have "nHeight i = int (nat (nHeight i))" "nHeight j = int (nat (nHeight i))" using nn by simp_all
    then obtain c where "common_loop bm (Some p) (Some q) = Some (c, c)" "gca bm p q c"
      using common_loop_run [OF ok p q] by blast
    then show ?thesis using 3 p q by (simp add: LastCommonAncestor_def)
  qed
qed

lemma Contains_path:
  assumes ok: "index_ok bm" and t: "bm t = Some j" and q: "bm q = Some i"
  shows "Contains bm (path_to bm t) q = Some (anc bm q t)"
proof -
  have h: "int (height_of bm t) = nHeight j" and i: "0 \<le> nHeight i" using height_of_eq [OF ok t] height_nonneg [OF ok q] by auto
  have "chain_nth (path_to bm t) (nHeight i) = (if nHeight i \<le> nHeight j then parents bm (nat (nHeight j - nHeight i)) t else None)"
    using h i by (auto simp: chain_nth_def nth_path_to nat_diff_distrib simp flip: h)
  then show ?thesis using q anc_height [OF ok t, of q] by (auto simp: Contains_def)
qed

lemma FindFork_loop_run:
  assumes ok: "index_ok bm" and t: "bm t = Some j"
  shows "bm q = Some i \<Longrightarrow> nHeight i = int h \<Longrightarrow> \<exists>c. FindFork_loop bm (path_to bm t) (Some q) = Some c \<and> gca bm q t c"
proof (induction h arbitrary: q i)
  case 0
  have "pprev i = None" using no_parent [OF ok "0.prems"(1)] "0.prems"(2) by simp
  then show ?case using gca_parent(1) [where bm = bm and q = t, OF "0.prems"(1)] "0.prems"(1) Contains_path [OF ok t "0.prems"(1)]
    by (subst FindFork_loop.simps) (auto simp: FindFork_loop.simps [of bm _ None] gca_def)
next
  case (Suc h)
  have "0 < nHeight i" using Suc.prems(2) by simp
  then obtain r k where r: "pprev i = Some r" "bm r = Some k" "nHeight k = nHeight i - 1"
    using parent_ex [OF ok Suc.prems(1)] by metis
  then obtain c where c: "FindFork_loop bm (path_to bm t) (Some r) = Some c" "gca bm r t c"
    using Suc.IH [OF r(2)] Suc.prems(2) by auto
  show ?case using gca_parent(2) [where bm = bm and q = t, OF Suc.prems(1) _ r(1) c(2)] c(1) r(1) Suc.prems(1) Contains_path [OF ok t Suc.prems(1)]
    by (subst FindFork_loop.simps) (auto simp: gca_def)
qed

lemma FindFork_run:
  assumes ok: "index_ok bm" and t: "bm t = Some j" and p: "bm p = Some i"
  shows "\<exists>c. FindFork bm (path_to bm t) (Some p) = Some c \<and> gca bm p t c"
proof (cases "nHeight i > nHeight j")
  case True
  have j: "0 \<le> nHeight j" using height_nonneg [OF ok t] .
  obtain r k where r: "GetAncestor bm p (nHeight j) = Some (Some r)"
    "parents bm (nat (nHeight i - nHeight j)) p = Some r" "bm r = Some k" "nHeight k = nHeight j"
    by (rule ancestor_at [OF ok p j less_imp_le [OF True]])
  have "nHeight k = int (nat (nHeight j))" using r(4) j by simp
  then obtain c where c: "FindFork_loop bm (path_to bm t) (Some r) = Some c" "gca bm r t c"
    using FindFork_loop_run [OF ok t r(3)] by blast
  show ?thesis using gca_lift [OF ok p t less_imp_le [OF True] r(2) c(2)] c(1) r(1) True p height_of_eq [OF ok t]
    by (simp add: FindFork_def Height_def)
next
  case False
  have "nHeight i = int (nat (nHeight i))" using height_nonneg [OF ok p] by simp
  from FindFork_loop_run [OF ok t p this] show ?thesis using False p height_of_eq [OF ok t]
    by (simp add: FindFork_def Height_def)
qed

section \<open>Locators\<close>

text \<open>
  The heights of a locator strictly decrease to 0 along ancestors. \<open>room\<close> bounds the entries that
  are still added: from the eleventh entry on the step doubles.
\<close>

definition locator_ok :: "block_map \<Rightarrow> bytes \<Rightarrow> bytes list \<Rightarrow> bool" where
  "locator_ok bm p l \<longleftrightarrow> l \<noteq> [] \<and> l ! 0 = p \<and> (\<forall>r \<in> set l. anc bm r p) \<and>
     sorted_wrt (\<lambda>a b. height_of bm a > height_of bm b) l \<and> height_of bm (last l) = 0"

lemma locator_ok_Cons:
  assumes "index_ok bm" and "bm p = Some i" and "anc bm q p" and "height_of bm q < height_of bm p" and "locator_ok bm q l"
  shows "locator_ok bm p (p # l)"
proof -
  obtain j where j: "bm q = Some j" using assms(3) anc_height [OF assms(1,2)] by blast
  have "anc bm r p \<and> height_of bm r < height_of bm p" if "r \<in> set l" for r
  proof -
    have r: "anc bm r q" using assms(5) that by (auto simp: locator_ok_def)
    then obtain k where "bm r = Some k" "nHeight k \<le> nHeight j" using anc_height [OF assms(1) j] by blast
    then show ?thesis using anc_trans [OF r assms(3)] assms(4) j by (auto simp: height_of_def)
  qed
  then show ?thesis using assms(5) by (auto simp: locator_ok_def)
qed

text \<open>One round of the loop.\<close>

lemma locator_step:
  assumes ok: "index_ok bm" and p: "bm p = Some i" and s: "1 \<le> s" "s * 2 \<le> INT32_MAX" and h: "nHeight i \<noteq> 0"
  obtains q j where "bm q = Some j" "nHeight j = max (nHeight i - s) 0"
    "locator_loop bm (Some p) s l = locator_loop bm (Some q) (if length l \<ge> 10 then s * 2 else s) (l @ [p])"
    "\<And>m. locator_ok bm q m \<Longrightarrow> locator_ok bm p (p # m)"
proof -
  let ?h = "max (nHeight i - s) 0"
  have nn: "0 \<le> nHeight i" using height_nonneg [OF ok p] .
  have b: "0 \<le> ?h" "?h \<le> nHeight i" "?h < nHeight i" using nn h s by auto
  obtain q j where q: "GetAncestor bm p ?h = Some (Some q)" "parents bm (nat (nHeight i - ?h)) p = Some q"
    "bm q = Some j" "nHeight j = ?h" by (rule ancestor_at [OF ok p b(1,2)])
  have "anc bm q p" using q(2) by (auto simp: anc_def)
  moreover have "height_of bm q < height_of bm p" using q(3,4) p b nn by (simp add: height_of_def)
  ultimately have "\<And>m. locator_ok bm q m \<Longrightarrow> locator_ok bm p (p # m)" by (rule locator_ok_Cons [OF ok p])
  moreover have "i32 (s * 2) = Some (s * 2)" using s by (simp add: int_limits)
  then have "locator_loop bm (Some p) s l = locator_loop bm (Some q) (if length l \<ge> 10 then s * 2 else s) (l @ [p])"
    using p h q(1) by (subst locator_loop.simps) simp
  ultimately show ?thesis using that q(3,4) by blast
qed

lemma locator_end:
  "bm p = Some i \<Longrightarrow> nHeight i = 0 \<Longrightarrow>
    locator_loop bm (Some p) s l = Some (l @ [p]) \<and> locator_ok bm p [p] \<and> length [p] \<le> Suc n"
  by (subst locator_loop.simps) (simp add: locator_ok_def height_of_def)

text \<open>The loop once the step doubles.\<close>

lemma locator_fast:
  assumes ok: "index_ok bm"
  shows "bm p = Some i \<Longrightarrow> 1 \<le> s \<Longrightarrow> nHeight i \<le> s * (2 ^ n - 1) \<Longrightarrow> s * 2 ^ n \<le> INT32_MAX \<Longrightarrow> 10 \<le> length l \<Longrightarrow>
    \<exists>m. locator_loop bm (Some p) s l = Some (l @ m) \<and> locator_ok bm p m \<and> length m \<le> Suc n"
proof (induction n arbitrary: p i s l)
  case 0
  then have "nHeight i = 0" using height_nonneg [OF ok "0.prems"(1)] by simp
  then show ?case using locator_end [where bm = bm, OF "0.prems"(1)] by blast
next
  case (Suc n)
  show ?case
  proof (cases "nHeight i = 0")
    case True
    then show ?thesis using locator_end [where bm = bm, OF Suc.prems(1)] by blast
  next
    case False
    have p1: "(1 :: int) \<le> 2 ^ n" by simp
    then have "s * 2 * 1 \<le> s * 2 * 2 ^ n" using Suc.prems(2) by (intro mult_left_mono) auto
    then have s2: "s * 2 \<le> INT32_MAX" using Suc.prems(4) by simp
    obtain q j where q: "bm q = Some j" "nHeight j = max (nHeight i - s) 0"
      "locator_loop bm (Some p) s l = locator_loop bm (Some q) (if length l \<ge> 10 then s * 2 else s) (l @ [p])"
      "\<And>m. locator_ok bm q m \<Longrightarrow> locator_ok bm p (p # m)"
      by (rule locator_step [OF ok Suc.prems(1,2) s2 False, of l]) blast
    have e: "s * (2 ^ Suc n - 1) = s + s * 2 * (2 ^ n - 1)" by (simp add: algebra_simps)
    have "0 \<le> s * 2 * (2 ^ n - 1)" using p1 Suc.prems(2) by simp
    then have "nHeight j \<le> s * 2 * (2 ^ n - 1)" using Suc.prems(3) q(2) unfolding e by simp
    moreover have "s * 2 * 2 ^ n \<le> INT32_MAX" "1 \<le> s * 2" using Suc.prems(2,4) by (simp_all add: algebra_simps)
    ultimately obtain m where "locator_loop bm (Some q) (s * 2) (l @ [p]) = Some ((l @ [p]) @ m)"
      "locator_ok bm q m" "length m \<le> Suc n"
      using Suc.IH [OF q(1), of "s * 2" "l @ [p]"] Suc.prems(5) by auto
    then show ?thesis using q(3,4) Suc.prems(5) by (intro exI [of _ "p # m"]) simp
  qed
qed

text \<open>The first ten entries are one apart.\<close>

lemma locator_slow:
  assumes ok: "index_ok bm" and k: "k \<le> 30"
  shows "bm p = Some i \<Longrightarrow> nHeight i \<le> 2 ^ k - 1 \<Longrightarrow> length l + d = 10 \<Longrightarrow>
    \<exists>m. locator_loop bm (Some p) 1 l = Some (l @ m) \<and> locator_ok bm p m \<and> length m \<le> Suc (k + d)"
proof (induction d arbitrary: p i l)
  case 0
  have "(2 :: int) ^ k \<le> 2 ^ 30" using k by (intro power_increasing) auto
  then have "(2 :: int) ^ k \<le> INT32_MAX" by (simp add: int_limits)
  then show ?case using locator_fast [OF ok "0.prems"(1), of 1 k l] "0.prems"(2,3) by simp
next
  case (Suc d)
  show ?case
  proof (cases "nHeight i = 0")
    case True
    then show ?thesis using locator_end [where bm = bm, OF Suc.prems(1)] by blast
  next
    case False
    have s2: "1 * 2 \<le> INT32_MAX" "(1 :: int) \<le> 1" by (simp_all add: int_limits)
    obtain q j where q: "bm q = Some j" "nHeight j = max (nHeight i - 1) 0"
      "locator_loop bm (Some p) 1 l = locator_loop bm (Some q) (if length l \<ge> 10 then 1 * 2 else 1) (l @ [p])"
      "\<And>m. locator_ok bm q m \<Longrightarrow> locator_ok bm p (p # m)"
      by (rule locator_step [OF ok Suc.prems(1) s2(2,1) False, of l]) blast
    have "nHeight j \<le> 2 ^ k - 1" using q(2) Suc.prems(2) by simp
    then obtain m where "locator_loop bm (Some q) 1 (l @ [p]) = Some ((l @ [p]) @ m)"
      "locator_ok bm q m" "length m \<le> Suc (k + d)"
      using Suc.IH [OF q(1), of "l @ [p]"] Suc.prems(3) by auto
    then show ?thesis using q(3,4) Suc.prems(3) by (intro exI [of _ "p # m"]) simp
  qed
qed

lemma LocatorEntries_run:
  assumes "index_ok bm" and "bm p = Some i" and "nHeight i < 2 ^ k" and "k \<le> 30"
  shows "\<exists>l. LocatorEntries bm (Some p) = Some l \<and> locator_ok bm p l \<and> length l \<le> k + 11"
  using locator_slow [OF assms(1,4,2), of "[]" 10] assms(3) by (auto simp: LocatorEntries_def)

end
