(* ===== verification/Chain_Claims.thy ===== *)
theory Chain_Claims
  imports Chain_Active
begin

text \<open>
  The properties of the block index and of the active chain.
\<close>

section \<open>A small index\<close>

definition demo_header :: CBlockHeader where
  "demo_header = \<lparr>hdr_nVersion = 4, hashPrevBlock = [0], hashMerkleRoot = [], hdr_nTime = 7, hdr_nBits = 0x1d00ffff,
     hdr_nNonce = 0, hdr_hashRandomX = []\<rparr>"

definition demo_entry :: "bytes option \<Rightarrow> int \<Rightarrow> CBlockIndex" where
  "demo_entry p h = (CBlockIndex_of demo_header)\<lparr>pprev := p, pskip := p, nHeight := h\<rparr>"

text \<open>A genesis block with two children.\<close>

definition demo_bm :: block_map where
  "demo_bm = [[0] \<mapsto> demo_entry None 0, [1] \<mapsto> demo_entry (Some [0]) 1, [2] \<mapsto> demo_entry (Some [0]) 1]"

lemma demo_entry_simps [simp]: "pprev (demo_entry p h) = p" "pskip (demo_entry p h) = p" "nHeight (demo_entry p h) = h"
  by (simp_all add: demo_entry_def)

lemma demo_bm_simps [simp]:
  "demo_bm [0] = Some (demo_entry None 0)" "demo_bm [1] = Some (demo_entry (Some [0]) 1)" "demo_bm [2] = Some (demo_entry (Some [0]) 1)"
  by (simp_all add: demo_bm_def)

lemma demo_index_ok: "index_ok demo_bm"
proof -
  have "entry_ok demo_bm (demo_entry None 0)" by (simp add: entry_ok_def)
  moreover have "entry_ok demo_bm (demo_entry (Some [0]) 1)" by (simp add: entry_ok_def GetSkipHeight_def)
  ultimately show ?thesis unfolding index_ok_def by (auto simp: demo_bm_def split: if_splits)
qed

section \<open>Ancestors and work\<close>

text \<open>
  C22: \<open>GetAncestor\<close> returns what following \<open>pprev\<close> would, at every height, although it jumps over
  \<open>pskip\<close>; it never dereferences a missing entry, and returns a null pointer exactly for a height
  above the block or below zero.
\<close>

theorem get_ancestor_exact:
  assumes "index_ok bm" and "bm p = Some i"
  shows "GetAncestor bm p h = Some (if 0 \<le> h \<and> h \<le> nHeight i then parents bm (nat (nHeight i - h)) p else None)"
  using GetAncestor_parents(1) [OF assms] .

theorem get_ancestor_exact_witness:
  "index_ok demo_bm \<and> demo_bm [1] = Some (demo_entry (Some [0]) 1) \<and> GetAncestor demo_bm [1] 0 = Some (Some [0])"
  using get_ancestor_exact [OF demo_index_ok, of "[1]" "demo_entry (Some [0]) 1" 0] demo_index_ok by simp

lemma valid_target_iff: "valid_target c \<longleftrightarrow> \<not> bit c 23 \<and> cval c < 2 ^ 256 \<and> cval c \<noteq> 0"
  unfolding valid_target_def split_beta SetCompact_negative SetCompact_overflow val_SetCompact not_le
  by (cases "cval c < 2 ^ 256") auto

text \<open>
  C23: \<open>GetBlockProof\<close> returns, for every field \<open>nBits\<close>, the expected number of hashes
  \<open>2 ^ 256 div (target + 1)\<close>, and 0 for a negative, overflowing or zero target; the division it makes
  never raises.
\<close>

theorem block_proof_exact:
  "\<exists>w. GetBlockProof c = Some w \<and> length w = 8 \<and>
     val w = (if bit c 23 \<or> 2 ^ 256 \<le> cval c \<or> cval c = 0 then 0 else 2 ^ 256 div (cval c + 1))"
  using GetBlockProof_val [of c] unfolding block_work_def valid_target_iff not_less [symmetric] by auto

section \<open>The index under additions\<close>

definition BlockManager_init :: BlockManager where
  "BlockManager_init = \<lparr>m_block_index = Map.empty, best_header = None, m_dirty_blockindex = {}\<rparr>"

inductive reachable :: "(CBlockHeader \<Rightarrow> bytes) \<Rightarrow> int \<Rightarrow> BlockManager \<Rightarrow> bool" for GetHash act where
  init: "reachable GetHash act BlockManager_init"
| add: "reachable GetHash act st \<Longrightarrow> GetHash block \<noteq> hashPrevBlock block \<Longrightarrow> height_room (m_block_index st) block \<Longrightarrow>
    AddToBlockIndex GetHash act block st = Some (p, st') \<Longrightarrow> reachable GetHash act st'"

lemma reachable_ok: "reachable GetHash act st \<Longrightarrow> manager_ok act st"
proof (induction rule: reachable.induct)
  case init
  show ?case by (simp add: manager_ok_def BlockManager_init_def index_ok_def)
next
  case (add st block p st')
  show ?case
  proof (cases "m_block_index st (GetHash block)")
    case None
    then show ?thesis using manager_ok_add [where GetHash = GetHash and p = p] add by blast
  next
    case (Some i)
    then show ?thesis using add by (simp add: AddToBlockIndex_def Let_def)
  qed
qed

text \<open>
  C24: however headers are added, the index stays consistent: heights, skip pointers, cumulative
  work, largest times and second-algorithm counts of all entries agree with their parents, and the
  best header is one with the most work. Adding a header never fails.
\<close>

theorem block_index_invariant:
  assumes "reachable GetHash act st"
  shows "manager_ok act st \<and>
    (\<forall>block. GetHash block \<noteq> hashPrevBlock block \<and> height_room (m_block_index st) block \<longrightarrow>
      (\<exists>st'. AddToBlockIndex GetHash act block st = Some (GetHash block, st') \<and> manager_ok act st'))"
proof -
  have ok: "manager_ok act st" by (rule reachable_ok [OF assms])
  have "\<exists>st'. AddToBlockIndex GetHash act block st = Some (GetHash block, st') \<and> manager_ok act st'"
    if b: "GetHash block \<noteq> hashPrevBlock block" "height_room (m_block_index st) block" for block
  proof (cases "m_block_index st (GetHash block)")
    case None
    then show ?thesis using AddToBlockIndex_run [where GetHash = GetHash, OF ok None b] manager_ok_add [where GetHash = GetHash, OF ok None b] by blast
  next
    case (Some i)
    then show ?thesis using ok by (simp add: AddToBlockIndex_def Let_def)
  qed
  with ok show ?thesis by blast
qed

theorem block_index_invariant_witness:
  "reachable (\<lambda>_. [1]) 5 BlockManager_init \<and>
   (\<exists>st. AddToBlockIndex (\<lambda>_. [1]) 5 demo_header BlockManager_init = Some ([1], st) \<and> manager_ok 5 st)"
proof -
  have r: "reachable (\<lambda>_. [1]) 5 BlockManager_init" by (rule reachable.init)
  have "height_room (m_block_index BlockManager_init) demo_header" by (simp add: height_room_def BlockManager_init_def)
  moreover have "[1] \<noteq> hashPrevBlock demo_header" by (simp add: demo_header_def)
  ultimately show ?thesis using block_index_invariant [OF r] r by blast
qed

section \<open>The active chain\<close>

text \<open>
  C25: \<open>SetTip\<close> returns, and leaves the path from height 0 to the new tip whatever the chain was
  before: empty, shorter, longer or on another branch. No entry of the old branch survives.
\<close>

theorem set_tip_exact:
  assumes "index_ok bm" and "bm block = Some i" and "v = [] \<or> (\<exists>t \<in> dom bm. v = path_to bm t)"
  shows "SetTip bm block v = Some (path_to bm block)"
  using SetTip_run [OF assms] .

theorem set_tip_exact_witness: "SetTip demo_bm [2] (path_to demo_bm [1]) = Some [Some [0], Some [2]]"
proof -
  have "path_to demo_bm [2] = [Some [0], Some [2]]" by (simp add: path_to_def height_of_def)
  moreover have "[1] \<in> dom demo_bm" by (simp add: dom_def)
  ultimately show ?thesis
    using set_tip_exact [OF demo_index_ok, of "[2]" "demo_entry (Some [0]) 1" "path_to demo_bm [1]"] by auto
qed

text \<open>
  C26: \<open>LastCommonAncestor\<close> and \<open>FindFork\<close> return, without a failed assertion, and agree: the result is
  the greatest common ancestor of the two blocks, or a null pointer when they have none.
\<close>

theorem fork_point_exact:
  assumes "index_ok bm" and "bm p = Some i" and "bm t = Some j"
  shows "\<exists>c. LastCommonAncestor bm p t = Some c \<and> FindFork bm (path_to bm t) (Some p) = Some c \<and> gca bm p t c"
proof -
  obtain c d where c: "LastCommonAncestor bm p t = Some c" "gca bm p t c"
    and d: "FindFork bm (path_to bm t) (Some p) = Some d" "gca bm p t d"
    using LastCommonAncestor_run [OF assms] FindFork_run [OF assms(1,3,2)] by blast
  then show ?thesis using gca_unique [OF assms(1,2)] by blast
qed

theorem fork_point_exact_witness:
  "index_ok demo_bm \<and> (\<exists>c. LastCommonAncestor demo_bm [1] [2] = Some c \<and> gca demo_bm [1] [2] c)"
  using fork_point_exact [OF demo_index_ok, of "[1]" _ "[2]"] demo_index_ok by auto

text \<open>
  C27: \<open>LocatorEntries\<close> returns for every block below height \<open>2 ^ 30\<close>, without overflow of the step: a
  list of ancestors that starts with the block, descends strictly and ends at height 0. A block below
  height \<open>2 ^ k\<close> needs at most \<open>k + 11\<close> entries.
\<close>

theorem locator_logarithmic:
  assumes "index_ok bm" and "bm p = Some i" and "nHeight i < 2 ^ k" and "k \<le> 30"
  shows "\<exists>l. LocatorEntries bm (Some p) = Some l \<and> locator_ok bm p l \<and> length l \<le> k + 11"
  using LocatorEntries_run [OF assms] .

theorem locator_logarithmic_witness:
  "index_ok demo_bm \<and> (\<exists>l. LocatorEntries demo_bm (Some [1]) = Some l \<and> locator_ok demo_bm [1] l \<and> length l \<le> 1 + 11)"
  using locator_logarithmic [OF demo_index_ok, of "[1]" "demo_entry (Some [0]) 1" 1] demo_index_ok by simp

end
