(* ===== verification/Pow_Claims.thy ===== *)
theory Pow_Claims
  imports Pow_Work Chain_Claims
begin

text \<open>
  The properties of the difficulty rules, with the parameters of the main RCPU chain.
\<close>

unbundle bit_operations_syntax

section \<open>Chain parameters\<close>

definition CRcpuMainParams :: Params where
  "CRcpuMainParams = \<lparr>powLimit = replicate 27 0 @ [0xfc, 0xff, 0x3f, 0, 0], fPowAllowMinDifficultyBlocks = False,
     fPowNoRetargeting = False, nPowTargetSpacing = 5 * 60, nPowTargetTimespan = 14 * 24 * 60 * 60, fPowRandomX = True,
     nRandomXEpochDuration = 7 * 24 * 60 * 60, nDualAlgoActivationHeight = 21000, nDualAlgoTargetSpacing = 10 * 60,
     fDualAlgoEtchash = True, nEtchashEpochLength = 6000, nEtchashBigEndianHeight = 21000, nASERTActivationHeight = 0,
     nASERTHalfLife = 2 * 24 * 60 * 60,
     asertAnchorParams = Some \<lparr>anchor_nHeight = 0, anchor_nBits = 0x1e3ffffc, anchor_nPrevBlockTime = 1788566400\<rparr>\<rparr>"

lemma le_val_zeros: "le_val (replicate n 0 @ xs) = 256 ^ n * le_val xs" "le_val (replicate n 0) = 0"
  by (induction n) auto

lemma upto8: "[0..<8] = [0, 1, 2, 3, 4, 5, 6, 7]"
  by (simp add: upt_rec)

lemma main_limbs: "UintToArith256 (powLimit CRcpuMainParams) = [0, 0, 0, 0, 0, 0, 0xfc000000, 0x3fff]"
  by (simp add: UintToArith256_def CRcpuMainParams_def ReadLE32_def upto8) (simp add: le_val_zeros)

lemma main_limit: "limit_of CRcpuMainParams = 0x3ffffc * 2 ^ 216"
  by (simp add: limit_of_def main_limbs)

lemma main_bits: "cval 0x1e3ffffc = 0x3ffffc * 2 ^ 216"
  by (simp add: cval_def csize_def cword_def)

lemma main_schedule: "schedule_params CRcpuMainParams"
  unfolding schedule_params_def main_limit by (simp add: CRcpuMainParams_def int_limits)

lemma main_legacy: "legacy_params CRcpuMainParams"
  by (simp add: legacy_params_def CRcpuMainParams_def)

section \<open>Required targets\<close>






text \<open>
  C37: the required field always exists and always decodes to a legal target, positive and at most the
  limit, whichever of the two current schedules applies: \<open>GetNextWorkRequired\<close> fails no assertion,
  dereferences no missing entry and overflows no signed operation, for every block time and height.
\<close>

theorem next_work_valid:
  assumes "index_ok bm" and "bm p = Some i" and "schedule_params params" and "nHeight i < INT32_MAX"
    and "nHeight i + 1 \<ge> nDualAlgoActivationHeight params \<and> count_known bm (nDualAlgoActivationHeight params) p i \<or>
      (\<exists>a. asertAnchorParams params = Some a \<and> anchor_ok params i a \<and> nHeight i + 1 \<ge> nASERTActivationHeight params \<and>
        nHeight i + 1 < nDualAlgoActivationHeight params \<and> (fPowAllowMinDifficultyBlocks params \<longrightarrow> pblock \<noteq> None))"
  shows "\<exists>c. GetNextWorkRequired g_isRandomX bm p pblock params = Some c \<and> DeriveTarget c params \<noteq> None"
proof -
  have h: "i32 (nHeight i + 1) = Some (nHeight i + 1)"
    using assms(4) height_nonneg [where bm = bm, OF assms(1,2)] by (simp add: int_limits)
  obtain cl where cl: "GetCompact (UintToArith256 (powLimit params)) False = Some cl"
    using GetCompact_limit [of params] assms(3) by (auto simp: schedule_params_def)
  from assms(5) show ?thesis
  proof (elim disjE conjE exE)
    assume act: "nHeight i + 1 \<ge> nDualAlgoActivationHeight params" and "count_known bm (nDualAlgoActivationHeight params) p i"
    then have "\<exists>c. GetDualAlgoWorkRequired bm p pblock params fQhash = Some c \<and> DeriveTarget c params \<noteq> None" for fQhash
      by (rule_tac dual_schedule [OF assms(1-4), of pblock fQhash]) auto
    then show ?thesis using h act assms(2) by (simp add: GetNextWorkRequired_def)
  next
    fix a
    assume a: "asertAnchorParams params = Some a" "anchor_ok params i a" "nHeight i + 1 \<ge> nASERTActivationHeight params"
      "nHeight i + 1 < nDualAlgoActivationHeight params" "fPowAllowMinDifficultyBlocks params \<longrightarrow> pblock \<noteq> None"
    then show ?thesis using anchor_schedule [OF assms(3) a(2) assms(4) a(5)] h assms(2) cl by (simp add: GetNextWorkRequired_def)
  qed
qed

lemma main_bits_ok: "DeriveTarget 0x1e3ffffc CRcpuMainParams \<noteq> None"
  unfolding DeriveTarget_eq SetCompact_negative SetCompact_overflow val_SetCompact main_bits main_limit by simp

lemma main_anchor: "0 \<le> h \<Longrightarrow> anchor_ok CRcpuMainParams (demo_entry q h) (the (asertAnchorParams CRcpuMainParams))"
  using main_bits_ok by (simp add: anchor_ok_def CRcpuMainParams_def)

theorem next_work_valid_witness:
  "index_ok demo_bm \<and> schedule_params CRcpuMainParams \<and>
   (\<exists>c. GetNextWorkRequired True demo_bm [1] None CRcpuMainParams = Some c \<and> DeriveTarget c CRcpuMainParams \<noteq> None)"
  using next_work_valid [OF demo_index_ok, of "[1]" "demo_entry (Some [0]) 1" CRcpuMainParams None True] main_schedule demo_index_ok main_anchor [of 1]
  by (simp add: int_limits) (simp add: CRcpuMainParams_def)

text \<open>
  C38: the presync check never rejects an honest chain: whatever field \<open>GetNextWorkRequired\<close> requires,
  \<open>PermittedDifficultyTransition\<close> accepts it for the same height, as long as the dual-algorithm rule is
  only active together with ASERT.
\<close>

theorem presync_accepts_required:
  assumes "legacy_params params" and "GetNextWorkRequired g_isRandomX bm p pblock params = Some c" and "bm p = Some i"
    and "nHeight i + 1 \<ge> nDualAlgoActivationHeight params \<longrightarrow>
      asertAnchorParams params \<noteq> None \<and> nHeight i + 1 \<ge> nASERTActivationHeight params"
  shows "PermittedDifficultyTransition params (nHeight i + 1) (nBits i) c = Some True"
  using permits_next [OF assms] .

text \<open>The main parameters without ASERT, retargeting after every block.\<close>

definition legacy_demo :: Params where
  "legacy_demo = CRcpuMainParams\<lparr>asertAnchorParams := None, nPowTargetSpacing := 14 * 24 * 60 * 60\<rparr>"

lemma legacy_demo_ok: "legacy_params legacy_demo" "DifficultyAdjustmentInterval legacy_demo = Some 1" "\<not> fPowNoRetargeting legacy_demo"
    "nDualAlgoActivationHeight legacy_demo = 21000" "asertAnchorParams legacy_demo = None"
  by (simp_all add: legacy_params_def legacy_demo_def CRcpuMainParams_def DifficultyAdjustmentInterval_def int_limits)

theorem presync_accepts_required_witness:
  "legacy_params legacy_demo \<and> (\<exists>c. GetNextWorkRequired False demo_bm [1] None legacy_demo = Some c \<and>
    PermittedDifficultyTransition legacy_demo 2 (nBits (demo_entry (Some [0]) 1)) c = Some True)"
proof -
  let ?i = "demo_entry (Some [0]) 1"
  obtain c where c: "CalculateNextWorkRequired ?i (GetBlockTime ?i) legacy_demo = Some c"
    using retarget_run [OF legacy_demo_ok(1,3), of ?i "GetBlockTime ?i"] by (auto simp: int_limits)
  have "GetAncestor demo_bm [1] 1 = Some (Some [1])"
    using GetAncestor_parents(1) [where bm = demo_bm, OF demo_index_ok, of "[1]" ?i 1] by simp
  moreover have "GetCompact (UintToArith256 (powLimit legacy_demo)) False \<noteq> None"
    using GetCompact_Some [of "UintToArith256 (powLimit legacy_demo)"] by auto
  ultimately have "GetNextWorkRequired False demo_bm [1] None legacy_demo = Some c"
    using c by (auto simp: GetNextWorkRequired_def legacy_demo_ok rem64_def int_limits to_int32_def signed_modulo_int_def signed_divide_int_def)
  then show ?thesis
    using presync_accepts_required [OF legacy_demo_ok(1), of False demo_bm "[1]" None c ?i] legacy_demo_ok by auto
qed

end
