(* ===== verification/Pow_Check_Claims.thy ===== *)
theory Pow_Check_Claims
  imports Pow_Check Pow_Claims
begin

text \<open>
  The properties of the proof-of-work checks: which headers pass which check, that what the node mines
  it accepts, that threads share RandomX machines without mixing up epochs, and that the legacy
  algorithm never overflows.
\<close>

unbundle bit_operations_syntax

section \<open>A library for examples\<close>

text \<open>Machines that remember their key and mode; the hash depends on the key only, the commitment is 0.\<close>

definition toy_rx :: "(bytes, bytes, bool \<times> bytes) randomx" where
  "toy_rx = \<lparr>randomx_init_cache = id, randomx_init_dataset = id, randomx_create_light = Pair False, randomx_create_fast = Pair True,
     randomx_calculate_hash = (\<lambda>m x. rev (snd m) @ replicate 32 1), randomx_calculate_commitment = (\<lambda>_ _. replicate 32 0)\<rparr>"

definition toy_env :: "(bytes, bytes, bool \<times> bytes) pow_env" where
  "toy_env = \<lparr>env_rx = toy_rx, env_getvm = (\<lambda>e. Some (False, [])), env_isRandomX = True\<rparr>"

definition toy_header :: CBlockHeader where
  "toy_header = \<lparr>hdr_nVersion = 4, hashPrevBlock = [1], hashMerkleRoot = [], hdr_nTime = 7, hdr_nBits = 0x1e3ffffc,
     hdr_nNonce = 0, hdr_hashRandomX = replicate 32 1\<rparr>"

definition no_caches :: etchash_caches where "no_caches = LRUCache 2"

lemma no_caches_ok: "etchash_ok no_caches"
  by (simp add: lru.coherent_def no_caches_def lru_ok_init) (simp add: LRUCache_def)

lemma zero_meets: "length T = 8 \<Longrightarrow> \<not> exceeds (replicate 32 0) T"
proof -
  have "UintToArith256 (replicate 32 0) = replicate 8 0"
    by (simp add: UintToArith256_def ReadLE32_def upto8 le_val_zeros) (simp add: eval_nat_numeral)
  then show "length T = 8 \<Longrightarrow> ?thesis" by (simp add: exceeds_def)
qed

lemma toy_target: "\<exists>T. DeriveTarget 0x1e3ffffc CRcpuMainParams = Some T \<and> length T = 8"
  using main_bits_ok by (auto simp: DeriveTarget_eq split: if_splits)

lemma toy_nonnull: "\<not> uint256_IsNull (replicate 32 1)" "\<not> uint256_IsNull [1]"
  by (simp_all add: uint256_IsNull_def list_all_iff)

lemma toy_params: "fPowRandomX CRcpuMainParams" by (simp add: CRcpuMainParams_def)

section \<open>The checks agree\<close>

text \<open>
  C3: the cheap checks never reject what the authoritative check accepts. If \<open>CheckBlockHeader\<close> accepts
  every header of a run, then \<open>HasValidProofOfWork\<close> accepts the run as a batch, and the context-free part
  of \<open>CheckBlock\<close> accepts each block, for all three algorithms and whatever epochs the caches hold.
\<close>

theorem precheck_complete:
  assumes "env_isRandomX env" and "accepted_run env params h bs" and "0 < h" and "h + int (length bs) \<le> INT32_MAX" and "etchash_ok d"
  shows "(\<exists>d'. HasValidProofOfWork env bs params h d = Some (True, d')) \<and>
    (bs \<noteq> [] \<longrightarrow> CheckBlock_pow env (hd bs) params True h d = Some (True, d))"
proof -
  have "CheckBlock_pow env (hd bs) params True h d = Some (True, d)" if ne: "bs \<noteq> []"
  proof -
    obtain p c c' where "nHeight p + 1 = h" "etchash_ok c" "CheckBlockHeader env (hd bs) params True (Some p) c = Some (True, c')"
      using assms(2) ne by (cases bs) auto
    then show ?thesis using block_precheck [OF assms(1)] assms(3) by fastforce
  qed
  then show ?thesis using batch_precheck [OF assms(2-5)] by blast
qed

lemma toy_accepted: "CheckBlockHeader toy_env toy_header CRcpuMainParams True (Some (demo_entry (Some [0]) 1)) no_caches = Some (True, no_caches)"
proof -
  obtain T where "DeriveTarget 0x1e3ffffc CRcpuMainParams = Some T" "length T = 8" using toy_target by blast
  then show ?thesis
    using toy_nonnull zero_meets [of T] toy_params
    by (simp add: CheckBlockHeader_def GetPowAlgoForHeader_def toy_header_def BLOCK_VERSION_QHASH_def rx_verdict_def
        CheckProofOfWorkRandomX_def toy_env_def toy_rx_def GetRandomXCommitment_def rx_finish_def int_limits)
qed

theorem precheck_complete_witness:
  "accepted_run toy_env CRcpuMainParams 2 [toy_header] \<and>
   (\<exists>d'. HasValidProofOfWork toy_env [toy_header] CRcpuMainParams 2 no_caches = Some (True, d')) \<and>
   CheckBlock_pow toy_env toy_header CRcpuMainParams True 2 no_caches = Some (True, no_caches)"
proof -
  have "nHeight (demo_entry (Some [0]) 1) + 1 = 2" by simp
  then have r: "accepted_run toy_env CRcpuMainParams 2 [toy_header]"
    unfolding accepted_run.simps using toy_accepted no_caches_ok by blast
  have "env_isRandomX toy_env" by (simp add: toy_env_def)
  then show ?thesis
    using precheck_complete [of toy_env CRcpuMainParams 2 "[toy_header]" no_caches] r no_caches_ok by (simp add: int_limits del: HasValidProofOfWork.simps)
qed

text \<open>
  C35: what the node mines it accepts. If the solving loop of \<open>GenerateBlock\<close> on top of a known block
  returns a header, \<open>CheckBlockHeader\<close> on top of that block accepts it, for all three algorithms and
  whatever epochs the caches of the verifier hold; a second-algorithm template must be past the
  activation, and the hash that was found must not be zero, which stands for a missing one.
\<close>

theorem mined_block_accepted:
  assumes "GenerateBlock_solve env params (Some p) m_interrupt max_tries block c = Some (True, Some b, c')"
    and "etchash_ok c" and "etchash_ok d" and "\<not> uint256_IsNull (hdr_hashRandomX b)" and "fPowRandomX params" and "0 \<le> nHeight p"
    and "hdr_nVersion block AND BLOCK_VERSION_QHASH \<noteq> 0 \<longrightarrow> nDualAlgoActivationHeight params \<le> nHeight p + 1"
  shows "\<exists>d'. CheckBlockHeader env b params True (Some p) d = Some (True, d')"
  using mined_header [OF assms] .

lemma toy_mined: "GenerateBlock_solve toy_env CRcpuMainParams (Some (demo_entry (Some [0]) 1)) False 3 toy_header no_caches =
    Some (True, Some toy_header, no_caches)"
proof -
  obtain T where "DeriveTarget 0x1e3ffffc CRcpuMainParams = Some T" "length T = 8" using toy_target by blast
  then show ?thesis
    using toy_nonnull zero_meets [of T] toy_params
    by (simp add: GenerateBlock_solve_def numeral_3_eq_3 try_nonce_def toy_header_def BLOCK_VERSION_QHASH_def
        CheckProofOfWorkRandomX_def toy_env_def toy_rx_def GetRandomXCommitment_def rx_finish_def int_limits)
qed

theorem mined_block_accepted_witness:
  "GenerateBlock_solve toy_env CRcpuMainParams (Some (demo_entry (Some [0]) 1)) False 3 toy_header no_caches = Some (True, Some toy_header, no_caches) \<and>
   (\<exists>d'. CheckBlockHeader toy_env toy_header CRcpuMainParams True (Some (demo_entry (Some [0]) 1)) no_caches = Some (True, d'))"
  using mined_block_accepted [OF toy_mined no_caches_ok no_caches_ok] toy_mined toy_nonnull toy_params
  by (simp add: toy_header_def BLOCK_VERSION_QHASH_def)

section \<open>Threads\<close>

text \<open>
  C39: the shared machines are well-typed under every interleaving. In every state that any number of
  concurrent calls of \<open>GetVM\<close>, their background threads and shutdown can reach, each of the four caches
  binds an epoch only to the object built from that epoch's seed; no thread ever uses a cache that does
  not exist; every step brings its thread nearer to its end and moves no other; and a machine that a
  call returns for an epoch computes the hash under that epoch's seed.
\<close>

theorem vm_of_epoch:
  assumes "rx_reachable rx args st" and "modes_agree rx" and "t < length (rx_threads st)"
  shows "(case rx_shared st of None \<Rightarrow> True | Some s \<Rightarrow> caches_ok rx s) \<and>
    (\<exists>st'. thread_step rx args g_isIBDFinished alloc t st = Some st' \<and> advances t st st') \<and>
    (rx_threads st ! t = (e, Gv_return (Some vm)) \<longrightarrow> randomx_calculate_hash rx vm x =
      randomx_calculate_hash rx (randomx_create_light rx (randomx_init_cache rx (GetSeedHash e))) x)"
proof -
  have ok: "rx_ok rx st" using reachable_rx_ok [OF assms(1)] .
  have "randomx_calculate_hash rx vm x = randomx_calculate_hash rx (light_for rx e) x" if r: "rx_threads st ! t = (e, Gv_return (Some vm))"
    using rx_okD(1) [OF ok assms(3) r] assms(2) by (auto simp: modes_agree_def for_defs)
  then show ?thesis
    using thread_step_ok [OF ok assms(3), of args g_isIBDFinished alloc] ok
    by (auto simp: rx_ok_def good_step_def for_defs split: option.splits)
qed

definition toy_args :: rx_args where "toy_args = \<lparr>randomxvmcachesize = 2, randomxfastmode = False\<rparr>"

definition toy_step :: "(bytes, bytes, bool \<times> bytes) rx_state \<Rightarrow> (bytes, bytes, bool \<times> bytes) rx_state" where
  "toy_step st = the (thread_step toy_rx toy_args False True 0 st)"

lemma toy_reachable: "rx_reachable toy_rx toy_args ((toy_step ^^ n) (call_GetVM 5 rx_init)) \<and> 0 < length (rx_threads ((toy_step ^^ n) (call_GetVM 5 rx_init)))"
proof (induction n)
  case 0
  show ?case by (auto simp: call_GetVM_def intro: rx_reachable.start rx_reachable.call [unfolded call_GetVM_def])
next
  case (Suc n)
  let ?st = "(toy_step ^^ n) (call_GetVM 5 rx_init)"
  obtain st' where st': "thread_step toy_rx toy_args False True 0 ?st = Some st'" "good_step toy_rx 0 ?st st'"
    using thread_step_ok [OF reachable_rx_ok] Suc by blast
  have "toy_step ?st = st'" unfolding toy_step_def st'(1) by simp
  moreover have "rx_reachable toy_rx toy_args st'" using rx_reachable.step [OF _ _ st'(1)] Suc by blast
  moreover have "0 < length (rx_threads st')" using st'(2) Suc unfolding good_step_def advances_def by linarith
  ultimately show ?case by simp
qed

lemma toy_returns: "rx_threads ((toy_step ^^ 10) (call_GetVM 5 rx_init)) ! 0 = (5, Gv_return (Some (False, GetSeedHash 5)))"
  by (simp add: eval_nat_numeral toy_step_def thread_step_def goto_def call_GetVM_def rx_init_def new_caches_def LRUCache_def
      lru_try_get_def lru_insert_def get_or_insert_def toy_args_def toy_rx_def)

theorem vm_of_epoch_witness:
  "modes_agree toy_rx \<and> rx_threads ((toy_step ^^ 10) (call_GetVM 5 rx_init)) ! 0 = (5, Gv_return (Some (False, GetSeedHash 5))) \<and>
   randomx_calculate_hash toy_rx (False, GetSeedHash 5) [9] =
     randomx_calculate_hash toy_rx (randomx_create_light toy_rx (randomx_init_cache toy_rx (GetSeedHash 5))) [9]"
proof -
  have "modes_agree toy_rx" by (simp add: modes_agree_def toy_rx_def)
  then show ?thesis using vm_of_epoch [of toy_rx toy_args "(toy_step ^^ 10) (call_GetVM 5 rx_init)" 0] toy_reachable [of 10] toy_returns by blast
qed

section \<open>QHash\<close>

text \<open>
  C40: the legacy algorithm always returns a digest of 32 bytes: no multiplication, addition or
  accumulation of the simulation overflows 64 bits and every index is inside its array, for every seed.
  No amplitude at the end is greater than \<open>1 + 2 ^ (-13)\<close> units.
\<close>

theorem qhash_total:
  "\<exists>h amp. QHashFromSeed seed = Some h \<and> length h = 32 \<and>
    steps (qround (KeystreamBlocks seed 0 (NROUNDS * (NQUBITS + 1)))) [0..<NROUNDS] ((replicate NAMP 0)[0 := Q30_ONE]) = Some amp \<and>
    list_all (\<lambda>x. \<bar>x\<bar> \<le> Q30_ONE + 2 ^ 17) amp \<and> length (KeystreamBlocks seed 0 (NROUNDS * (NQUBITS + 1))) = NROUNDS * (NQUBITS + 1)"
proof -
  obtain amp where a: "steps (qround (KeystreamBlocks seed 0 (NROUNDS * (NQUBITS + 1)))) [0..<NROUNDS] ((replicate NAMP 0)[0 := Q30_ONE]) = Some amp"
    "length amp = NAMP" "\<forall>m < NAMP. \<bar>amp ! m\<bar> \<le> 2 ^ 30 + 2 ^ 17" using circuit_run by blast
  then have "\<bar>amp ! m\<bar> \<le> 2 ^ 31" if "m < NAMP" for m using that by fastforce
  then obtain acc where "steps (fold_step amp) [0..<NAMP] (replicate 64 0) = Some acc" using fold_run [OF a(2)] by blast
  then have "QHashFromSeed seed = Some (csha256 (csha256 (fold_bytes acc)))" using a(1) by (simp add: QHashFromSeed_def Let_def)
  moreover have "list_all (\<lambda>x. \<bar>x\<bar> \<le> Q30_ONE + 2 ^ 17) amp" using a(2,3) by (simp add: list_all_length Q30_ONE_def)
  ultimately show ?thesis using a(1) length_Keystream by auto
qed

end
