(* ===== verification/Spec2Isabelle.thy ===== *)
theory Spec2Isabelle
  imports Proxy_Claims Backup_Claims Target_Claims Tx_Claims Mining_Claims Hash_Claims Pow_Check_Claims
begin

text \<open>
  A verification of the RCPU node and its mining tools.
\<close>

end
